(* ===== verification/Utcp_Prelude.thy ===== *)
theory Utcp_Prelude
  imports Main "HOL-Library.Word"
begin

text \<open>
  Shared vocabulary of the UTCP development: machine integers, the result type that carries the
  ways a C function can fail to return (\<^verbatim>\<open>err_sys\<close>, an access outside an array, a null
  pointer, an undefined shift, a division by zero), bounded memory copies, and the generic lemmas
  on results, lists and words that the component theories rely on.
\<close>

unbundle bit_operations_syntax

section \<open>Machine integers\<close>

type_synonym u8 = "8 word"
type_synonym u16 = "16 word"
type_synonym u32 = "32 word"
type_synonym u64 = "64 word"
type_synonym i16 = "16 word"
type_synonym i32 = "32 word"

section \<open>Results\<close>

text \<open>
  \<^verbatim>\<open>err_sys\<close> prints a message and calls \<^verbatim>\<open>exit\<close>; it is the value \<^verbatim>\<open>Err_sys\<close>.
  The other constructors are the undefined behaviours that the code can reach.
\<close>

datatype err =
    Err_sys string
  | Out_of_bounds
  | Null_deref
  | Bad_shift
  | Div_by_zero

type_synonym 'a res = "err + 'a"

definition err_sys :: "string \<Rightarrow> 'a res" where
  "err_sys msg = Inl (Err_sys msg)"

definition rbind :: "'a res \<Rightarrow> ('a \<Rightarrow> 'b res) \<Rightarrow> 'b res" where
  "rbind m f = (case m of Inl e \<Rightarrow> Inl e | Inr x \<Rightarrow> f x)"

text \<open>
  \<open>ensures m P\<close>: whenever \<open>m\<close> returns, its value satisfies \<open>P\<close>.
  \<open>returns m P\<close>: \<open>m\<close> does return, with a value that satisfies \<open>P\<close>.
\<close>

definition ensures :: "'a res \<Rightarrow> ('a \<Rightarrow> bool) \<Rightarrow> bool" where
  "ensures m P \<longleftrightarrow> (\<forall>x. m = Inr x \<longrightarrow> P x)"

definition returns :: "'a res \<Rightarrow> ('a \<Rightarrow> bool) \<Rightarrow> bool" where
  "returns m P \<longleftrightarrow> (\<exists>x. m = Inr x \<and> P x)"

named_theorems res_intros "rules that decompose a statement about a sequenced result"
named_theorems frame_simps "fields an operation leaves unchanged"

lemma rbind_simps [simp]:
  "rbind (Inl e) f = Inl e"
  "rbind (Inr x) f = f x"
  by (simp_all add: rbind_def)

lemma rbind_cong [fundef_cong]:
  assumes "m = m'" and "\<And>x. m' = Inr x \<Longrightarrow> f x = g x"
  shows "rbind m f = rbind m' g"
  using assms by (cases m') simp_all

lemma rbind_eq_Inr: "rbind m f = Inr y \<longleftrightarrow> (\<exists>x. m = Inr x \<and> f x = Inr y)"
  by (cases m) simp_all

lemma rbind_assoc: "rbind (rbind m f) g = rbind m (\<lambda>x. rbind (f x) g)"
  by (cases m) simp_all

lemma rbind_Inr [simp]: "rbind m Inr = m"
  by (cases m) simp_all

lemma rbind_split: "P (rbind m f) \<longleftrightarrow> (\<forall>e. m = Inl e \<longrightarrow> P (Inl e)) \<and> (\<forall>x. m = Inr x \<longrightarrow> P (f x))"
  by (cases m) simp_all

lemma ensures_simps [simp]:
  "ensures (Inl e) P"
  "ensures (Inr x) P \<longleftrightarrow> P x"
  "ensures (err_sys s) P"
  by (simp_all add: ensures_def err_sys_def)

lemma returns_simps [simp]:
  "\<not> returns (Inl e) P"
  "returns (Inr x) P \<longleftrightarrow> P x"
  by (simp_all add: returns_def)

lemma ensures_rbind [res_intros]:
  assumes "ensures m Q" and "\<And>x. Q x \<Longrightarrow> ensures (f x) P"
  shows "ensures (rbind m f) P"
  using assms by (cases m) simp_all

lemma returns_rbind [res_intros]:
  assumes "returns m Q" and "\<And>x. Q x \<Longrightarrow> returns (f x) P"
  shows "returns (rbind m f) P"
  using assms by (cases m) simp_all

lemma ensuresD: "ensures m P \<Longrightarrow> m = Inr x \<Longrightarrow> P x"
  by (simp add: ensures_def)

lemma ensures_mono: "ensures m P \<Longrightarrow> (\<And>x. P x \<Longrightarrow> Q x) \<Longrightarrow> ensures m Q"
  by (simp add: ensures_def)

lemma returns_mono: "returns m P \<Longrightarrow> (\<And>x. P x \<Longrightarrow> Q x) \<Longrightarrow> returns m Q"
  by (auto simp: returns_def)

lemma returns_ensures: "returns m P \<Longrightarrow> ensures m P"
  by (auto simp: returns_def ensures_def)

lemma ensures_conj: "ensures m P \<Longrightarrow> ensures m Q \<Longrightarrow> ensures m (\<lambda>x. P x \<and> Q x)"
  by (simp add: ensures_def)

section \<open>Bounded memory access\<close>

text \<open>
  \<^verbatim>\<open>memcpy\<close> from and into an array object: a copy that leaves the object is
  \<^verbatim>\<open>Out_of_bounds\<close>.
\<close>

definition mem_read :: "'a list \<Rightarrow> nat \<Rightarrow> nat \<Rightarrow> 'a list res" where
  "mem_read xs off n =
     (if off + n \<le> length xs then Inr (take n (drop off xs)) else Inl Out_of_bounds)"

definition mem_write :: "'a list \<Rightarrow> nat \<Rightarrow> 'a list \<Rightarrow> 'a list res" where
  "mem_write xs off ys =
     (if off + length ys \<le> length xs
      then Inr (take off xs @ ys @ drop (off + length ys) xs) else Inl Out_of_bounds)"

definition arr_get :: "'a list \<Rightarrow> nat \<Rightarrow> 'a res" where
  "arr_get xs i = (if i < length xs then Inr (xs ! i) else Inl Out_of_bounds)"

lemma length_mem_read: "mem_read xs off n = Inr ys \<Longrightarrow> length ys = n"
  by (auto simp: mem_read_def split: if_splits)

lemma length_mem_write: "mem_write xs off ys = Inr zs \<Longrightarrow> length zs = length xs"
  by (auto simp: mem_write_def split: if_splits)

lemma mem_read_ok [simp]:
  "off + n \<le> length xs \<Longrightarrow> mem_read xs off n = Inr (take n (drop off xs))"
  by (simp add: mem_read_def)

lemma mem_write_ok [simp]:
  "off + length ys \<le> length xs \<Longrightarrow>
     mem_write xs off ys = Inr (take off xs @ ys @ drop (off + length ys) xs)"
  by (simp add: mem_write_def)

lemma nth_splice:
  assumes "off + length ys \<le> length xs" and "j < length xs"
  shows "(take off xs @ ys @ drop (off + length ys) xs) ! j =
           (if off \<le> j \<and> j < off + length ys then ys ! (j - off) else xs ! j)"
  using assms by (auto simp: nth_append min_def)

section \<open>Slices of a byte stream\<close>

text \<open>
  A stream is a function on positions; \<open>sub_stream S p n\<close> is its \<open>n\<close> bytes from position \<open>p\<close>.
\<close>

definition sub_stream :: "(nat \<Rightarrow> 'a) \<Rightarrow> nat \<Rightarrow> nat \<Rightarrow> 'a list" where
  "sub_stream S p n = map (\<lambda>i. S (p + i)) [0..<n]"

lemma length_sub_stream [simp]: "length (sub_stream S p n) = n"
  by (simp add: sub_stream_def)

lemma sub_stream_0 [simp]: "sub_stream S p 0 = []"
  by (simp add: sub_stream_def)

lemma nth_sub_stream [simp]: "i < n \<Longrightarrow> sub_stream S p n ! i = S (p + i)"
  by (simp add: sub_stream_def)

lemma sub_stream_append: "sub_stream S p m @ sub_stream S (p + m) n = sub_stream S p (m + n)"
  by (rule nth_equalityI) (auto simp: nth_append)

lemma take_sub_stream: "m \<le> n \<Longrightarrow> take m (sub_stream S p n) = sub_stream S p m"
  by (rule nth_equalityI) auto

lemma drop_sub_stream: "m \<le> n \<Longrightarrow> drop m (sub_stream S p n) = sub_stream S (p + m) (n - m)"
  by (rule nth_equalityI) (auto simp: add.assoc)

section \<open>Words\<close>

lemma unat_of_nat_small:
  fixes x :: "'a::len word"
  shows "n < 2 ^ LENGTH('a) \<Longrightarrow> unat (of_nat n :: 'a word) = n"
  by (simp add: unat_of_nat take_bit_nat_eq_self)

lemma unat_lt_pow32: "unat (x :: u32) < 4294967296"
proof -
  have "unat x < 2 ^ LENGTH(32)" by (rule unsigned_less)
  then show ?thesis by simp
qed

lemma unat_add_small32:
  "unat (a :: u32) + unat b < 4294967296 \<Longrightarrow> unat (a + b) = unat a + unat b"
  by (simp add: unat_word_ariths)

lemma unat_sub_le32: "b \<le> a \<Longrightarrow> unat (a - b :: u32) = unat a - unat b"
  by (simp add: unat_sub word_le_nat_alt)

lemma unat_diff_add32: "unat ((a :: u32) - b + c) = (unat (a - b) + unat c) mod 4294967296"
  by (simp add: unat_word_ariths)

section \<open>Transition systems\<close>

text \<open>States reached from a start state, and invariants by induction on the run.\<close>

locale transition_system =
  fixes start :: "'s \<Rightarrow> bool" and step :: "'s \<Rightarrow> 's \<Rightarrow> bool"
begin

inductive reachable :: "'s \<Rightarrow> bool" where
  init: "start s \<Longrightarrow> reachable s"
| step: "reachable s \<Longrightarrow> step s s' \<Longrightarrow> reachable s'"

lemma invariant:
  assumes "reachable s" and "\<And>s. start s \<Longrightarrow> J s" and "\<And>s s'. J s \<Longrightarrow> step s s' \<Longrightarrow> J s'"
  shows "J s"
  using assms(1) by induction (auto intro: assms(2,3))

end

end
