(* ===== verification/Tcp.thy ===== *)
theory Tcp
  imports Utcp_Prelude
begin

text \<open>
  The data model of UTCP: the constants of \<^verbatim>\<open>include/utcp/config.h\<close>,
  \<^verbatim>\<open>include/utcp/net/tcp.h\<close> and \<^verbatim>\<open>include/utcp/net/timers.h\<close>, the TCP header, the state
  enumerations, the congestion-control events, the reassembly queue entry and the transmission
  control block. The mutex and the condition variable of the block are not fields here: every
  operation of the development runs with the block's lock held, and broadcasts on the condition
  variable are counted in the world (theory \<open>Utcp_World\<close>).
\<close>

section \<open>Constants\<close>

abbreviation (input) TH_FIN :: u8 where "TH_FIN \<equiv> 1"
abbreviation (input) TH_SYN :: u8 where "TH_SYN \<equiv> 2"
abbreviation (input) TH_RST :: u8 where "TH_RST \<equiv> 4"
abbreviation (input) TH_PUSH :: u8 where "TH_PUSH \<equiv> 8"
abbreviation (input) TH_ACK :: u8 where "TH_ACK \<equiv> 16"
abbreviation (input) TH_URG :: u8 where "TH_URG \<equiv> 32"

abbreviation (input) TCPOPT_EOL :: u8 where "TCPOPT_EOL \<equiv> 0"
abbreviation (input) TCPOPT_NOP :: u8 where "TCPOPT_NOP \<equiv> 1"
abbreviation (input) TCPOPT_WINDOW :: u8 where "TCPOPT_WINDOW \<equiv> 3"
abbreviation (input) TCPOLEN_WINDOW :: u8 where "TCPOLEN_WINDOW \<equiv> 3"
abbreviation (input) TCPOPT_TIMESTAMP :: u8 where "TCPOPT_TIMESTAMP \<equiv> 8"
abbreviation (input) TCPOLEN_TIMESTAMP :: u8 where "TCPOLEN_TIMESTAMP \<equiv> 10"

abbreviation (input) TF_ACKNOW :: u16 where "TF_ACKNOW \<equiv> 1"
abbreviation (input) TF_DELACK :: u16 where "TF_DELACK \<equiv> 2"

abbreviation (input) TCPT_REXMT :: nat where "TCPT_REXMT \<equiv> 0"
abbreviation (input) TCPT_PERSIST :: nat where "TCPT_PERSIST \<equiv> 1"
abbreviation (input) TCPT_KEEP :: nat where "TCPT_KEEP \<equiv> 2"
abbreviation (input) TCPT_2MSL :: nat where "TCPT_2MSL \<equiv> 3"
abbreviation (input) TCPT_DELACK :: nat where "TCPT_DELACK \<equiv> 4"

abbreviation (input) SEND_BUF_SIZE :: "'a::numeral" where "SEND_BUF_SIZE \<equiv> 1048576"
abbreviation (input) RECV_BUF_SIZE :: "'a::numeral" where "RECV_BUF_SIZE \<equiv> 1048576"
abbreviation (input) MAX_UTCP_SOCKETS :: "'a::numeral" where "MAX_UTCP_SOCKETS \<equiv> 6"
abbreviation (input) MSS :: "'a::numeral" where "MSS \<equiv> 1400"
abbreviation (input) TCPHDR_SIZE :: "'a::numeral" where "TCPHDR_SIZE \<equiv> 20"

definition IW_CALC :: "nat \<Rightarrow> nat" where
  "IW_CALC sz = (if sz > 2190 then 2 else if sz > 1095 then 3 else 4)"

definition IW :: u32 where
  "IW = of_nat (IW_CALC MSS)"

text \<open>Timer constants, in ticks of \<^verbatim>\<open>TCP_TICK_MS\<close> = 10 ms.\<close>

abbreviation (input) TCP_TICK_MS :: "'a::numeral" where "TCP_TICK_MS \<equiv> 10"

definition MS_TO_TICKS :: "nat \<Rightarrow> nat" where
  "MS_TO_TICKS ms = ms div TCP_TICK_MS"

definition SEC_TO_TICKS :: "nat \<Rightarrow> nat" where
  "SEC_TO_TICKS sec = (sec * 1000) div TCP_TICK_MS"

definition TCPTV_MIN :: nat where "TCPTV_MIN = MS_TO_TICKS 200"
definition TCPTV_REXMTMAX :: nat where "TCPTV_REXMTMAX = SEC_TO_TICKS 64"
definition TCPTV_SRTTDFLT :: nat where "TCPTV_SRTTDFLT = MS_TO_TICKS 1000"
definition TCPTV_DELACK :: nat where "TCPTV_DELACK = MS_TO_TICKS 200"
definition TCP_MAXRXTSHIFT :: nat where "TCP_MAXRXTSHIFT = 12"

lemma timer_constants [simp]:
  "TCPTV_MIN = 20" "TCPTV_REXMTMAX = 6400" "TCPTV_SRTTDFLT = 100" "TCPTV_DELACK = 20"
  "TCP_MAXRXTSHIFT = 12"
  by (simp_all add: TCPTV_MIN_def TCPTV_REXMTMAX_def TCPTV_SRTTDFLT_def TCPTV_DELACK_def
      TCP_MAXRXTSHIFT_def MS_TO_TICKS_def SEC_TO_TICKS_def)

lemma IW_value [simp]: "IW = 3"
  by (simp add: IW_def IW_CALC_def)

section \<open>Flag words\<close>

definition has_flag :: "'a::len word \<Rightarrow> 'a word \<Rightarrow> bool" where
  "has_flag x f \<longleftrightarrow> x AND f \<noteq> 0"

definition set_flag :: "'a::len word \<Rightarrow> 'a word \<Rightarrow> 'a word" where
  "set_flag x f = x OR f"

definition clear_flag :: "'a::len word \<Rightarrow> 'a word \<Rightarrow> 'a word" where
  "clear_flag x f = x AND NOT f"

lemma has_flag_numeral [simp]:
  "has_flag (numeral a :: 'a::len word) (numeral b) \<longleftrightarrow> (numeral a :: 'a word) AND numeral b \<noteq> 0"
  "has_flag (0 :: 'a::len word) f = False"
  "has_flag (numeral a :: 'a::len word) 1 \<longleftrightarrow> (numeral a :: 'a word) AND 1 \<noteq> 0"
  by (simp_all add: has_flag_def)

lemma has_set_flag [simp]: "f \<noteq> 0 \<Longrightarrow> has_flag (set_flag x f) f"
  by (simp add: has_flag_def set_flag_def word_bw_comms word_ao_absorbs)

lemma has_clear_flag [simp]: "\<not> has_flag (clear_flag x f) f"
  by (simp add: has_flag_def clear_flag_def word_bw_assocs)

lemma has_set_flag_other [simp]: "f AND g = 0 \<Longrightarrow> has_flag (set_flag x f) g = has_flag x g"
  by (simp add: has_flag_def set_flag_def word_ao_dist)

lemma has_clear_flag_other [simp]:
  assumes "f AND g = 0"
  shows "has_flag (clear_flag x f) g = has_flag x g"
proof -
  have "NOT f AND g = g"
    using assms
    by (auto simp: bit_eq_iff bit_simps)
  then show ?thesis
    by (simp add: has_flag_def clear_flag_def word_bw_assocs)
qed

section \<open>Header, states, events\<close>

record tcphdr =
  th_sport :: u16
  th_dport :: u16
  th_seq :: u32
  th_ack :: u32
  th_off_flags :: u8
  th_flags :: u8
  th_win :: u16
  th_sum :: u16
  th_urp :: u16

datatype tcp_state =
    TCP_CLOSED
  | TCP_LISTEN
  | TCP_SYN_SENT
  | TCP_SYN_RECV
  | TCP_ESTABLISHED
  | TCP_CLOSE_WAIT
  | TCP_FIN_WAIT1
  | TCP_CLOSING
  | TCP_LAST_ACK
  | TCP_FIN_WAIT2
  | TCP_TIME_WAIT

datatype tcp_ca_state =
    TCP_CA_OPEN
  | TCP_CA_DISORDER
  | TCP_CA_CWR
  | TCP_CA_RECOVERY
  | TCP_CA_LOSS

text \<open>The tagged union of \<^verbatim>\<open>struct cc_event_args\<close>: one constructor per event type.\<close>

datatype cc_event_args =
    TCP_CC_EVENT_INIT
  | TCP_CC_EVENT_ACK (ev_acked_bytes: u32) (ev_rtt_us: u32)
  | TCP_CC_EVENT_DUP_ACK (ev_total_dups: u32)
  | TCP_CC_EVENT_TIMEOUT (ev_flight_size: u32)

text \<open>The congestion-control operations that the code defines, by name.\<close>

datatype tcp_congestion_ops = utcp_tahoe | utcp_reno | utcp_new_reno | utcp_lstm_reno

record tcpq_entry =
  tq_seq :: u32
  tq_len :: u32
  tq_data :: "u8 list"

section \<open>The transmission control block\<close>

record tcb =
  src_ip :: u32
  dst_ip :: u32
  src_port :: u16
  dst_port :: u16
  dst_udp_port :: u16
  state :: tcp_state
  snd_una :: u32
  snd_max :: u32
  snd_nxt :: u32
  iss :: u32
  irs :: u32
  rcv_nxt :: u32
  rcv_wnd :: u32
  snd_wnd :: u32
  t_flags :: u16
  cwnd :: u32
  ssthresh :: u32
  t_dupacks :: u8
  recover :: u32
  ca_state :: tcp_ca_state
  cc_ops :: tcp_congestion_ops
  t_timer :: "nat \<Rightarrow> i16"
  t_idle :: u32
  t_rtt :: u32
  t_rtseq :: u32
  t_srtt :: u32
  t_rttvar :: u32
  t_rxtcur :: u32
  t_rxtshift :: u8
  ts_enabled :: bool
  ts_recent :: u32
  send_buf :: "u8 list"
  send_buf_head :: u32
  send_buf_tail :: u32
  recv_buf :: "u8 list"
  recv_buf_head :: u32
  recv_buf_tail :: u32
  ooo_head :: "tcpq_entry list"
  ooo_bytes :: u32
  snd_scale :: u8
  rcv_scale :: u8
  scale_enabled :: bool
  min_rtt_seen_us :: u64
  lstm_last_ts_us :: u64
  lstm_prev_rtt_us :: u32
  lstm_prev_rto_us :: u32
  lstm_prev_rtt_delta_us :: i32
  lstm_prev_fired :: u8

text \<open>
  The five timers are an array of \<^verbatim>\<open>short\<close>; the code indexes it by the five constants
  and by a loop counter below five only, so it is a function of the index here.
\<close>

abbreviation set_timer :: "nat \<Rightarrow> i16 \<Rightarrow> tcb \<Rightarrow> tcb" where
  "set_timer i v t \<equiv> t\<lparr>t_timer := (t_timer t)(i := v)\<rparr>"

text \<open>Memory as \<^verbatim>\<open>calloc\<close> hands it out, and a block allocated that way with its algorithm assigned.\<close>

definition zero_bytes :: "nat \<Rightarrow> u8 list" where
  "zero_bytes n = replicate n 0"

lemma length_zero_bytes [simp]: "length (zero_bytes n) = n"
  by (simp add: zero_bytes_def)

definition calloc_tcb :: "tcp_congestion_ops \<Rightarrow> tcb" where
  "calloc_tcb ops =
     \<lparr>src_ip = 0, dst_ip = 0, src_port = 0, dst_port = 0, dst_udp_port = 0, state = TCP_CLOSED,
      snd_una = 0, snd_max = 0, snd_nxt = 0, iss = 0, irs = 0, rcv_nxt = 0, rcv_wnd = 0, snd_wnd = 0,
      t_flags = 0, cwnd = 0, ssthresh = 0, t_dupacks = 0, recover = 0, ca_state = TCP_CA_OPEN,
      cc_ops = ops, t_timer = (\<lambda>_. 0), t_idle = 0, t_rtt = 0, t_rtseq = 0, t_srtt = 0, t_rttvar = 0,
      t_rxtcur = 0, t_rxtshift = 0, ts_enabled = False, ts_recent = 0,
      send_buf = zero_bytes SEND_BUF_SIZE, send_buf_head = 0, send_buf_tail = 0,
      recv_buf = zero_bytes RECV_BUF_SIZE, recv_buf_head = 0, recv_buf_tail = 0,
      ooo_head = [], ooo_bytes = 0, snd_scale = 0, rcv_scale = 0, scale_enabled = False,
      min_rtt_seen_us = 0, lstm_last_ts_us = 0, lstm_prev_rtt_us = 0, lstm_prev_rto_us = 0,
      lstm_prev_rtt_delta_us = 0, lstm_prev_fired = 0\<rparr>"

lemma calloc_tcb_simps [simp]:
  "state (calloc_tcb ops) = TCP_CLOSED" "cc_ops (calloc_tcb ops) = ops" "t_timer (calloc_tcb ops) = (\<lambda>_. 0)"
  "snd_una (calloc_tcb ops) = 0" "snd_max (calloc_tcb ops) = 0" "snd_nxt (calloc_tcb ops) = 0"
  "iss (calloc_tcb ops) = 0" "irs (calloc_tcb ops) = 0" "rcv_nxt (calloc_tcb ops) = 0" "rcv_wnd (calloc_tcb ops) = 0"
  "snd_wnd (calloc_tcb ops) = 0" "t_flags (calloc_tcb ops) = 0" "cwnd (calloc_tcb ops) = 0"
  "ssthresh (calloc_tcb ops) = 0" "t_dupacks (calloc_tcb ops) = 0" "recover (calloc_tcb ops) = 0"
  "ca_state (calloc_tcb ops) = TCP_CA_OPEN" "t_idle (calloc_tcb ops) = 0" "t_rtt (calloc_tcb ops) = 0"
  "t_rtseq (calloc_tcb ops) = 0" "t_srtt (calloc_tcb ops) = 0" "t_rttvar (calloc_tcb ops) = 0"
  "t_rxtcur (calloc_tcb ops) = 0" "t_rxtshift (calloc_tcb ops) = 0" "ts_enabled (calloc_tcb ops) = False"
  "ts_recent (calloc_tcb ops) = 0" "send_buf (calloc_tcb ops) = zero_bytes SEND_BUF_SIZE"
  "send_buf_head (calloc_tcb ops) = 0" "send_buf_tail (calloc_tcb ops) = 0"
  "recv_buf (calloc_tcb ops) = zero_bytes RECV_BUF_SIZE" "recv_buf_head (calloc_tcb ops) = 0"
  "recv_buf_tail (calloc_tcb ops) = 0" "ooo_head (calloc_tcb ops) = []" "ooo_bytes (calloc_tcb ops) = 0"
  "snd_scale (calloc_tcb ops) = 0" "rcv_scale (calloc_tcb ops) = 0" "scale_enabled (calloc_tcb ops) = False"
  "src_ip (calloc_tcb ops) = 0" "dst_ip (calloc_tcb ops) = 0" "src_port (calloc_tcb ops) = 0"
  "dst_port (calloc_tcb ops) = 0" "min_rtt_seen_us (calloc_tcb ops) = 0"
  by (simp_all add: calloc_tcb_def)

end
