(* ===== verification/Utcp_World.thy ===== *)
theory Utcp_World
  imports Tcp
begin

text \<open>
  What the code reads from and does to its surroundings. The record \<open>env\<close> holds the outcomes of
  calls into the system (the clock, the allocator, the UDP socket, the socket of the inference
  server), one outcome per call, as parameters of the model; the record \<open>world\<close> counts the calls,
  logs what was sent, and holds the process-wide variables of the C files
  (\<^verbatim>\<open>g_sock\<close> and \<^verbatim>\<open>g_fired\<close> of \<^verbatim>\<open>lstm_client.c\<close>, \<^verbatim>\<open>timeout_counter\<close> of \<^verbatim>\<open>reno.c\<close>).
  Text logging through zlog has no effect on the protocol and is left out.
\<close>

section \<open>Datagrams and rows\<close>

record dgram =
  dg_ip :: u32
  dg_port :: u16
  dg_bytes :: "u8 list"

text \<open>One row of training data, in the order of \<^verbatim>\<open>lstm_client_send_row\<close>.\<close>

record lstm_row =
  row_ts_us :: u64
  row_rtt_us :: u32
  row_srtt_us :: u32
  row_rttvar_us :: u32
  row_rto_us :: u32
  row_min_rtt_us :: u64
  row_queue_delay_us :: u64
  row_rtt_delta_us :: i32
  row_rtt_accel_us :: i32
  row_rto_delta_us :: i32
  row_cwnd :: u32
  row_ssthresh :: u32
  row_snd_wnd :: u32
  row_flight_size :: u32
  row_newly_acked :: u32
  row_inter_ack_us :: u64
  row_ca_state :: tcp_ca_state
  row_t_dupacks :: u8
  row_t_rxtshift :: u8
  row_is_dup_ack :: bool
  row_is_timeout :: bool

section \<open>Surroundings\<close>

text \<open>
  \<open>clock_gettime k\<close> is the \<open>k\<close>-th reading (seconds, nanoseconds), \<open>None\<close> where the call fails;
  \<open>malloc k\<close> says whether the \<open>k\<close>-th allocation succeeds; \<open>sendto k d\<close> is the return value of the
  \<open>k\<close>-th send; \<open>lstm_recv k\<close> are the bytes waiting in the inference socket at its \<open>k\<close>-th drain.
\<close>

record env =
  clock_gettime :: "nat \<Rightarrow> (u64 \<times> u64) option"
  malloc :: "nat \<Rightarrow> bool"
  sendto :: "nat \<Rightarrow> dgram \<Rightarrow> int"
  lstm_recv :: "nat \<Rightarrow> u8 list"

record world =
  clock_reads :: nat
  mallocs :: nat
  sent :: "dgram list"
  wakeups :: nat
  lstm_logger :: bool
  lstm_rows :: "lstm_row list"
  g_sock :: int
  g_fired :: bool
  lstm_drains :: nat
  lstm_sent :: "lstm_row list"
  timeout_counter :: int

type_synonym st = "tcb \<times> world"

section \<open>Clock, allocation, wake-ups\<close>

definition utcp_get_time_us :: "env \<Rightarrow> world \<Rightarrow> (u64 \<times> world) res" where
  "utcp_get_time_us env w =
     (case clock_gettime env (clock_reads w) of
        None \<Rightarrow> err_sys ''clock_gettime failed''
      | Some (tv_sec, tv_nsec) \<Rightarrow>
          Inr (tv_sec * 1000000 + tv_nsec div 1000, w\<lparr>clock_reads := Suc (clock_reads w)\<rparr>))"

definition try_malloc :: "env \<Rightarrow> world \<Rightarrow> bool \<times> world" where
  "try_malloc env w = (malloc env (mallocs w), w\<lparr>mallocs := Suc (mallocs w)\<rparr>)"

definition cond_broadcast :: "world \<Rightarrow> world" where
  "cond_broadcast w = w\<lparr>wakeups := Suc (wakeups w)\<rparr>"

text \<open>
  A surrounding in which the clock works, memory is available and the socket accepts every
  datagram whole. Functional theorems that need progress assume it; safety theorems do not.
\<close>

definition good_env :: "env \<Rightarrow> bool" where
  "good_env env \<longleftrightarrow> (\<forall>k. clock_gettime env k \<noteq> None) \<and> (\<forall>k. malloc env k) \<and>
     (\<forall>k d. sendto env k d = int (length (dg_bytes d)))"

lemma good_env_time:
  assumes "good_env env"
  shows "\<exists>now. utcp_get_time_us env w = Inr (now, w\<lparr>clock_reads := Suc (clock_reads w)\<rparr>)"
proof -
  obtain a b where "clock_gettime env (clock_reads w) = Some (a, b)"
    using assms by (fastforce simp: good_env_def)
  then show ?thesis by (simp add: utcp_get_time_us_def)
qed

lemma utcp_get_time_us_frame:
  "utcp_get_time_us env w = Inr (now, w') \<Longrightarrow> w' = w\<lparr>clock_reads := Suc (clock_reads w)\<rparr>"
  by (auto simp: utcp_get_time_us_def err_sys_def split: option.splits)

text \<open>Clock readings of one second, and a fresh world, for concrete runs.\<close>

definition env0 :: env where
  "env0 = \<lparr>clock_gettime = (\<lambda>k. Some (of_nat (1 + k), 0)), malloc = (\<lambda>_. True),
           sendto = (\<lambda>_ d. int (length (dg_bytes d))), lstm_recv = (\<lambda>_. [])\<rparr>"

definition world0 :: world where
  "world0 = \<lparr>clock_reads = 0, mallocs = 0, sent = [], wakeups = 0, lstm_logger = False,
             lstm_rows = [], g_sock = -1, g_fired = False, lstm_drains = 0, lstm_sent = [],
             timeout_counter = 0\<rparr>"

lemma good_env0: "good_env env0"
  by (simp add: good_env_def env0_def)

end
