(* ===== verification/Sequence.thy ===== *)
theory Sequence
  imports Tcp
begin

text \<open>
  Sequence-number comparison and window scaling: the macros of
  \<^verbatim>\<open>include/utcp/utcp_utils.h\<close>. The comparisons are circular; the theory shows that on
  numbers within half the sequence space of a common base they are the order of the distances
  from that base (the interface \<open>serial_order\<close>), at every base and across the wrap-around.
\<close>

section \<open>Circular comparison\<close>

definition SEQ_LT :: "u32 \<Rightarrow> u32 \<Rightarrow> bool" where
  "SEQ_LT a b \<longleftrightarrow> sint (a - b) < 0"

definition SEQ_LEQ :: "u32 \<Rightarrow> u32 \<Rightarrow> bool" where
  "SEQ_LEQ a b \<longleftrightarrow> sint (a - b) \<le> 0"

definition SEQ_GT :: "u32 \<Rightarrow> u32 \<Rightarrow> bool" where
  "SEQ_GT a b \<longleftrightarrow> sint (a - b) > 0"

definition SEQ_GEQ :: "u32 \<Rightarrow> u32 \<Rightarrow> bool" where
  "SEQ_GEQ a b \<longleftrightarrow> sint (a - b) \<ge> 0"

text \<open>What a client of the comparisons relies on: they order valid numbers by position.\<close>

locale serial_order =
  fixes lt leq :: "'s \<Rightarrow> 's \<Rightarrow> bool"
    and valid :: "'s \<Rightarrow> bool"
    and pos :: "'s \<Rightarrow> nat"
  assumes lt_pos: "valid a \<Longrightarrow> valid b \<Longrightarrow> lt a b \<longleftrightarrow> pos a < pos b"
    and leq_pos: "valid a \<Longrightarrow> valid b \<Longrightarrow> leq a b \<longleftrightarrow> pos a \<le> pos b"
    and pos_inj: "valid a \<Longrightarrow> valid b \<Longrightarrow> pos a = pos b \<Longrightarrow> a = b"
begin

lemma lt_trans: "valid a \<Longrightarrow> valid b \<Longrightarrow> valid c \<Longrightarrow> lt a b \<Longrightarrow> lt b c \<Longrightarrow> lt a c"
  by (simp add: lt_pos)

lemma lt_irrefl: "valid a \<Longrightarrow> \<not> lt a a"
  by (simp add: lt_pos)

lemma lt_total: "valid a \<Longrightarrow> valid b \<Longrightarrow> lt a b \<or> a = b \<or> lt b a"
  using lt_pos pos_inj nat_neq_iff by metis

lemma leq_not_lt: "valid a \<Longrightarrow> valid b \<Longrightarrow> leq a b \<longleftrightarrow> \<not> lt b a"
  by (simp add: lt_pos leq_pos not_less)

end

text \<open>Positions of sequence numbers: distances from a base.\<close>

lemma sint_of_int32: "- 2147483648 \<le> k \<Longrightarrow> k < 2147483648 \<Longrightarrow> sint (of_int k :: u32) = k"
  by (simp add: signed_of_int signed_take_bit_int_eq_self)

lemma sint_seq_diff:
  assumes "i < j + 2147483648" and "j \<le> i + 2147483648"
  shows "sint ((r + of_nat i) - (r + of_nat j) :: u32) = int i - int j"
proof -
  have "(r + of_nat i) - (r + of_nat j) = (of_int (int i - int j) :: u32)"
    by simp
  then show ?thesis
    using assms sint_of_int32 [of "int i - int j"] by simp
qed

lemma seq_at_offset: "r + of_nat (unat (a - r)) = (a :: u32)"
  by simp

text \<open>Comparison of two positions that are less than half the sequence space apart.\<close>

lemma SEQ_offsets:
  assumes "i < j + 2147483648" and "j < i + 2147483648"
  shows "SEQ_LT (r + of_nat i) (r + of_nat j) \<longleftrightarrow> i < j"
    and "SEQ_LEQ (r + of_nat i) (r + of_nat j) \<longleftrightarrow> i \<le> j"
    and "SEQ_GT (r + of_nat i) (r + of_nat j) \<longleftrightarrow> i > j"
    and "SEQ_GEQ (r + of_nat i) (r + of_nat j) \<longleftrightarrow> i \<ge> j"
  using sint_seq_diff [of i j r] assms
  by (auto simp: SEQ_LT_def SEQ_LEQ_def SEQ_GT_def SEQ_GEQ_def)

lemma SEQ_at_base:
  assumes "unat (a - r) < unat (b - r) + 2147483648" and "unat (b - r) < unat (a - r) + 2147483648"
  shows "SEQ_LT a b \<longleftrightarrow> unat (a - r) < unat (b - r)"
    and "SEQ_LEQ a b \<longleftrightarrow> unat (a - r) \<le> unat (b - r)"
    and "SEQ_GT a b \<longleftrightarrow> unat (a - r) > unat (b - r)"
    and "SEQ_GEQ a b \<longleftrightarrow> unat (a - r) \<ge> unat (b - r)"
  using SEQ_offsets [OF assms, of r] by (simp_all only: seq_at_offset)

interpretation half: serial_order SEQ_LT SEQ_LEQ "\<lambda>a. unat (a - r) < 2147483648" "\<lambda>a. unat (a - r)"
  for r :: u32
proof unfold_locales
  fix a b :: u32
  assume "unat (a - r) < 2147483648" and "unat (b - r) < 2147483648"
  then show "SEQ_LT a b \<longleftrightarrow> unat (a - r) < unat (b - r)"
    and "SEQ_LEQ a b \<longleftrightarrow> unat (a - r) \<le> unat (b - r)"
    by (simp_all add: SEQ_at_base [of a r b])
next
  fix a b :: u32
  assume "unat (a - r) = unat (b - r)"
  then have "a - r = b - r" by (rule word_unat_eq_iff [THEN iffD2])
  then show "a = b" by simp
qed

text \<open>The sign test against the base itself, in terms of the distance.\<close>

lemma sint_unat32:
  fixes x :: u32
  assumes "unat x = n"
  shows "sint x = (if n < 2147483648 then int n else int n - 4294967296)"
proof -
  have n: "n < 4294967296" using assms unat_lt_pow32 [of x] by simp
  have "x = of_nat n" using assms by auto
  then have x1: "x = of_int (int n)" and x2: "x = of_int (int n - 4294967296)"
    by simp_all
  show ?thesis
  proof (cases "n < 2147483648")
    case True
    then show ?thesis unfolding x1 using sint_of_int32 [of "int n"] by simp
  next
    case False
    with n show ?thesis unfolding x2 using sint_of_int32 [of "int n - 4294967296"] by simp
  qed
qed

lemma SEQ_sign:
  fixes a b :: u32
  shows "SEQ_LT a b \<longleftrightarrow> 2147483648 \<le> unat (a - b)"
    and "SEQ_GEQ a b \<longleftrightarrow> unat (a - b) < 2147483648"
    and "SEQ_GT a b \<longleftrightarrow> 0 < unat (a - b) \<and> unat (a - b) < 2147483648"
    and "SEQ_LEQ a b \<longleftrightarrow> unat (a - b) = 0 \<or> 2147483648 \<le> unat (a - b)"
proof -
  obtain n where n: "unat (a - b) = n" by simp
  then have "n < 4294967296" using unat_lt_pow32 [of "a - b"] by simp
  with sint_unat32 [OF n] show "SEQ_LT a b \<longleftrightarrow> 2147483648 \<le> unat (a - b)"
    and "SEQ_GEQ a b \<longleftrightarrow> unat (a - b) < 2147483648"
    and "SEQ_GT a b \<longleftrightarrow> 0 < unat (a - b) \<and> unat (a - b) < 2147483648"
    and "SEQ_LEQ a b \<longleftrightarrow> unat (a - b) = 0 \<or> 2147483648 \<le> unat (a - b)"
    by (auto simp: SEQ_LT_def SEQ_GEQ_def SEQ_GT_def SEQ_LEQ_def n)
qed

lemma SEQ_GT_not_LEQ: "SEQ_GT a b \<longleftrightarrow> \<not> SEQ_LEQ a b"
  by (auto simp: SEQ_GT_def SEQ_LEQ_def)

section \<open>Window scaling\<close>

text \<open>
  Shifting a 32-bit value by 32 or more is undefined; the shift count of the first macro is the
  byte that the peer's option carried.
\<close>

definition GET_SCALED_WIN :: "tcb \<Rightarrow> tcphdr \<Rightarrow> u32 res" where
  "GET_SCALED_WIN tcb hdr =
     (if scale_enabled tcb \<and> \<not> has_flag (th_flags hdr) TH_SYN
      then (if unat (snd_scale tcb) < 32
            then Inr (push_bit (unat (snd_scale tcb)) (ucast (th_win hdr)))
            else Inl Bad_shift)
      else Inr (ucast (th_win hdr)))"

definition SET_SCALED_WIN :: "tcb \<Rightarrow> u8 \<Rightarrow> u32 \<Rightarrow> u16 res" where
  "SET_SCALED_WIN tcb flags free_space =
     (if scale_enabled tcb \<and> \<not> has_flag flags TH_SYN
      then (if unat (rcv_scale tcb) < 32
            then Inr (ucast (drop_bit (unat (rcv_scale tcb)) free_space))
            else Inl Bad_shift)
      else Inr (if free_space > 65535 then 65535 else ucast free_space))"

section \<open>Properties\<close>

text \<open>
  C32: Within any window of 2 GiB that starts at \<open>r\<close>, the sequence comparisons are the order of the distances
  from \<open>r\<close>, also where the 32-bit numbers wrap around.
\<close>

theorem seq_comparisons_order_window:
  assumes "unat (a - r) < 2147483648" and "unat (b - r) < 2147483648"
  shows "(SEQ_LT a b \<longleftrightarrow> unat (a - r) < unat (b - r)) \<and> (SEQ_LEQ a b \<longleftrightarrow> unat (a - r) \<le> unat (b - r)) \<and>
    (SEQ_GT a b \<longleftrightarrow> unat (b - r) < unat (a - r)) \<and> (SEQ_GEQ a b \<longleftrightarrow> unat (b - r) \<le> unat (a - r))"
  using assms SEQ_at_base [of a r b] by simp

theorem seq_comparisons_order_window_witness:
  "SEQ_LT 0xFFFFFF00 0x10 \<and> SEQ_LEQ 0xFFFFFF00 0x10 \<and> \<not> SEQ_GT 0xFFFFFF00 0x10 \<and> \<not> SEQ_GEQ 0xFFFFFF00 0x10"
  using seq_comparisons_order_window [of "0xFFFFFF00" "0xFFFFFF00" "0x10"] by simp

text \<open>
  Window scaling round trip: what the peer reads from an advertised window never exceeds the
  free space it was computed from, and falls short of it by less than one unit of the scale.
\<close>

theorem scaled_window_roundtrip:
  assumes "SET_SCALED_WIN t flags free = Inr win" and "unat free < 2097152" and "rcv_scale t = 5"
    and "scale_enabled t" and "scale_enabled peer" and "snd_scale peer = 5"
    and "\<not> has_flag flags TH_SYN" and "th_flags h = flags" and "th_win h = win"
  shows "returns (GET_SCALED_WIN peer h) (\<lambda>x. unat x \<le> unat free \<and> unat free < unat x + 32)"
proof -
  have "unat (drop_bit 5 free) = unat free div 32"
    unfolding unat_drop_bit_eq by (simp add: drop_bit_eq_div)
  then have w: "unat win = unat free div 32"
    using assms(1-4,7) by (auto simp: SET_SCALED_WIN_def unsigned_ucast_eq take_bit_eq_mod)
  then have "unat (push_bit 5 (ucast win :: u32)) = unat free div 32 * 32"
    using assms(2) by (simp add: push_bit_eq_mult unat_word_ariths unsigned_ucast_eq take_bit_eq_mod)
  then show ?thesis
    using assms(5-9) by (auto simp: GET_SCALED_WIN_def)
qed

theorem scaled_window_roundtrip_witness:
  "returns (GET_SCALED_WIN ((calloc_tcb utcp_reno)\<lparr>scale_enabled := True, snd_scale := 5\<rparr>)
      \<lparr>th_sport = 0, th_dport = 0, th_seq = 0, th_ack = 0, th_off_flags = 80, th_flags = TH_ACK, th_win = 31250,
       th_sum = 0, th_urp = 0\<rparr>) (\<lambda>x. unat x \<le> 1000005 \<and> 1000005 < unat x + 32)"
  using scaled_window_roundtrip [of "(calloc_tcb utcp_reno)\<lparr>scale_enabled := True, rcv_scale := 5\<rparr>" TH_ACK 1000005 31250
      "(calloc_tcb utcp_reno)\<lparr>scale_enabled := True, snd_scale := 5\<rparr>"
      "\<lparr>th_sport = 0, th_dport = 0, th_seq = 0, th_ack = 0, th_off_flags = 80, th_flags = TH_ACK, th_win = 31250,
        th_sum = 0, th_urp = 0\<rparr>"]
  by (simp add: SET_SCALED_WIN_def)

end
