(* ===== verification/Wire.thy ===== *)
theory Wire
  imports Sequence
begin

text \<open>
  Segments as bytes: the header in network byte order, the option block that
  \<^verbatim>\<open>utcp_send_segment\<close> writes, and the readers on the other side
  (\<^verbatim>\<open>deserialize_utcp_packet\<close>, \<^verbatim>\<open>process_window_option\<close> and \<^verbatim>\<open>extract_tsecr\<close> of
  \<^verbatim>\<open>src/utcp/utcp_input.c\<close>). The readers run on the whole receive buffer of 1500 bytes, as
  the pointers of the code do.
\<close>

section \<open>Network byte order\<close>

definition be16 :: "u16 \<Rightarrow> u8 list" where
  "be16 x = [ucast (drop_bit 8 x), ucast x]"

definition be32 :: "u32 \<Rightarrow> u8 list" where
  "be32 x = [ucast (drop_bit 24 x), ucast (drop_bit 16 x), ucast (drop_bit 8 x), ucast x]"

definition of_be16 :: "u8 \<Rightarrow> u8 \<Rightarrow> u16" where
  "of_be16 a b = push_bit 8 (ucast a) OR ucast b"

definition of_be32 :: "u8 \<Rightarrow> u8 \<Rightarrow> u8 \<Rightarrow> u8 \<Rightarrow> u32" where
  "of_be32 a b c d =
     push_bit 24 (ucast a) OR push_bit 16 (ucast b) OR push_bit 8 (ucast c) OR ucast d"

lemma of_be16_be16 [simp]: "of_be16 (ucast (drop_bit 8 x)) (ucast x) = x"
  unfolding of_be16_def by (rule bit_word_eqI) (auto simp: bit_simps)

lemma of_be32_be32 [simp]:
  "of_be32 (ucast (drop_bit 24 x)) (ucast (drop_bit 16 x)) (ucast (drop_bit 8 x)) (ucast x) = x"
proof (rule bit_word_eqI)
  fix n assume "n < LENGTH(32)"
  then consider "n < 8" | "8 \<le> n" "n < 16" | "16 \<le> n" "n < 24" | "24 \<le> n" "n < 32"
    by fastforce
  then show "bit (of_be32 (ucast (drop_bit 24 x)) (ucast (drop_bit 16 x)) (ucast (drop_bit 8 x)) (ucast x)) n
      \<longleftrightarrow> bit x n"
    by cases (auto simp: of_be32_def bit_simps)
qed

lemma length_be [simp]: "length (be16 x) = 2" "length (be32 y) = 4"
  by (simp_all add: be16_def be32_def)

section \<open>Header and options\<close>

definition hdr_to_bytes :: "tcphdr \<Rightarrow> u8 list" where
  "hdr_to_bytes h =
     be16 (th_sport h) @ be16 (th_dport h) @ be32 (th_seq h) @ be32 (th_ack h) @
     [th_off_flags h, th_flags h] @ be16 (th_win h) @ be16 (th_sum h) @ be16 (th_urp h)"

definition build_options :: "u8 \<Rightarrow> u8 \<Rightarrow> u32 \<Rightarrow> u32 \<Rightarrow> u8 list" where
  "build_options flags scale tsval tsecr =
     (if has_flag flags TH_SYN
      then [TCPOPT_NOP, TCPOPT_WINDOW, TCPOLEN_WINDOW, scale] @
           [TCPOPT_NOP, TCPOPT_NOP, TCPOPT_TIMESTAMP, TCPOLEN_TIMESTAMP] @ be32 tsval @ be32 tsecr
      else [TCPOPT_NOP, TCPOPT_NOP, TCPOPT_TIMESTAMP, TCPOLEN_TIMESTAMP] @ be32 tsval @ be32 tsecr)"

lemma length_hdr_to_bytes [simp]: "length (hdr_to_bytes h) = 20"
  by (simp add: hdr_to_bytes_def)

lemma length_build_options:
  "length (build_options flags scale tsval tsecr) = (if has_flag flags TH_SYN then 16 else 12)"
  by (simp add: build_options_def)

section \<open>Readers\<close>

definition data_offset :: "tcphdr \<Rightarrow> nat" where
  "data_offset hdr = unat (drop_bit 4 (th_off_flags hdr)) * 4"

definition hdr_of_bytes :: "u8 list \<Rightarrow> tcphdr" where
  "hdr_of_bytes b =
     \<lparr>th_sport = of_be16 (b ! 0) (b ! 1), th_dport = of_be16 (b ! 2) (b ! 3),
      th_seq = of_be32 (b ! 4) (b ! 5) (b ! 6) (b ! 7),
      th_ack = of_be32 (b ! 8) (b ! 9) (b ! 10) (b ! 11),
      th_off_flags = b ! 12, th_flags = b ! 13,
      th_win = of_be16 (b ! 14) (b ! 15), th_sum = of_be16 (b ! 16) (b ! 17),
      th_urp = of_be16 (b ! 18) (b ! 19)\<rparr>"

definition deserialize_utcp_packet :: "u8 list \<Rightarrow> nat \<Rightarrow> (tcphdr \<times> u8 list) res" where
  "deserialize_utcp_packet buff buf_len =
     (if buf_len < TCPHDR_SIZE
      then err_sys ''Can not parse utcp packet. Are you sure this was sent correctly?''
      else rbind (mem_read buff 0 TCPHDR_SIZE) (\<lambda>b.
        let hdr = hdr_of_bytes b;
            hdr_bytes = max (data_offset hdr) TCPHDR_SIZE
        in if buf_len \<le> hdr_bytes then Inr (hdr, [])
           else rbind (mem_read buff hdr_bytes (buf_len - hdr_bytes)) (\<lambda>data. Inr (hdr, data))))"

text \<open>
  The option loop of \<^verbatim>\<open>process_window_option\<close>, from \<open>p\<close> to the end of the header at \<open>e\<close>.
  The length byte is read before the bound is checked, as in the code.
\<close>

function process_options :: "u8 list \<Rightarrow> nat \<Rightarrow> nat \<Rightarrow> tcb \<Rightarrow> tcb res" where
  "process_options buff p e tcb =
     (if p < e then
        rbind (arr_get buff p) (\<lambda>opt_kind.
        if opt_kind = TCPOPT_EOL then Inr tcb
        else if opt_kind = TCPOPT_NOP then process_options buff (p + 1) e tcb
        else rbind (arr_get buff (p + 1)) (\<lambda>opt_len.
          if opt_len = 0 then Inr tcb
          else if p + unat opt_len > e then Inr tcb
          else rbind
            (if opt_kind = TCPOPT_WINDOW \<and> opt_len = TCPOLEN_WINDOW
             then rbind (arr_get buff (p + 2)) (\<lambda>s. Inr (tcb\<lparr>snd_scale := s, scale_enabled := True\<rparr>))
             else Inr tcb) (\<lambda>tcb1.
          rbind
            (if opt_kind = TCPOPT_TIMESTAMP \<and> opt_len = TCPOLEN_TIMESTAMP
             then rbind (mem_read buff (p + 2) 4) (\<lambda>v.
                  Inr (tcb1\<lparr>ts_recent := of_be32 (v ! 0) (v ! 1) (v ! 2) (v ! 3), ts_enabled := True\<rparr>))
             else Inr tcb1) (\<lambda>tcb2.
          process_options buff (p + unat opt_len) e tcb2))))
      else Inr tcb)"
  by pat_completeness auto
termination
  by (relation "measure (\<lambda>(buff, p, e, tcb). e - p)") (auto simp: unat_gt_0 intro!: diff_less_mono2)

definition process_window_option :: "u8 list \<Rightarrow> tcphdr \<Rightarrow> tcb \<Rightarrow> tcb res" where
  "process_window_option buff hdr tcb =
     (if data_offset hdr > TCPHDR_SIZE
      then process_options buff TCPHDR_SIZE (data_offset hdr) tcb else Inr tcb)"

function find_tsecr :: "u8 list \<Rightarrow> nat \<Rightarrow> nat \<Rightarrow> u32 option res" where
  "find_tsecr buff p e =
     (if p < e then
        rbind (arr_get buff p) (\<lambda>kind.
        if kind = TCPOPT_EOL then Inr None
        else if kind = TCPOPT_NOP then find_tsecr buff (p + 1) e
        else if p + 1 \<ge> e then Inr None
        else rbind (arr_get buff (p + 1)) (\<lambda>len.
          if unat len < 2 \<or> p + unat len > e then Inr None
          else if kind = TCPOPT_TIMESTAMP \<and> len = TCPOLEN_TIMESTAMP
          then rbind (mem_read buff (p + 6) 4) (\<lambda>v.
               Inr (Some (of_be32 (v ! 0) (v ! 1) (v ! 2) (v ! 3))))
          else find_tsecr buff (p + unat len) e))
      else Inr None)"
  by pat_completeness auto
termination
  by (relation "measure (\<lambda>(buff, p, e). e - p)") auto

definition extract_tsecr :: "u8 list \<Rightarrow> tcphdr \<Rightarrow> u32 option res" where
  "extract_tsecr buff hdr =
     (if data_offset hdr \<le> TCPHDR_SIZE then Inr None
      else find_tsecr buff TCPHDR_SIZE (data_offset hdr))"

declare process_options.simps [simp del] find_tsecr.simps [simp del]

section \<open>What the readers recover\<close>

lemma hdr_of_to_bytes [simp]: "hdr_of_bytes (hdr_to_bytes h) = h"
  by (simp add: hdr_of_bytes_def hdr_to_bytes_def be16_def be32_def)

text \<open>A segment read back: header and payload are those that were written.\<close>

lemma deserialize_segment:
  assumes "data_offset h = 20 + length opts"
  shows "deserialize_utcp_packet (hdr_to_bytes h @ opts @ payload @ rest)
           (20 + length opts + length payload) = Inr (h, payload)"
  using assms by (simp add: deserialize_utcp_packet_def Let_def)

lemma arr_get_opts:
  assumes "length pre = n" and "n \<le> i" and "i < n + length opts"
  shows "arr_get (pre @ opts @ rest) i = Inr (opts ! (i - n))"
  using assms by (auto simp: arr_get_def nth_append)

lemma mem_read_opts:
  assumes "length pre = n" and "n \<le> i" and "i + k \<le> n + length opts"
  shows "mem_read (pre @ opts @ rest) i k = Inr (take k (drop (i - n) opts))"
  using assms by (simp add: mem_read_def)

lemma of_be32_nth [simp]:
  "of_be32 (be32 x ! 0) (be32 x ! Suc 0) (be32 x ! 2) (be32 x ! 3) = x"
  by (simp add: be32_def)

text \<open>The timestamp block, at any position.\<close>

lemma process_timestamp_block:
  assumes "length pre = n" and "ts = [1, 1, 8, 10] @ be32 tsval @ be32 tsecr"
  shows "process_options (pre @ ts @ rest) n (n + 12) tcb =
           Inr (tcb\<lparr>ts_recent := tsval, ts_enabled := True\<rparr>)"
proof -
  let ?b = "pre @ ts @ rest"
  have len: "length ts = 12" by (simp add: assms(2))
  have get: "arr_get ?b n = Inr 1" "arr_get ?b (Suc n) = Inr 1"
    "arr_get ?b (Suc (Suc n)) = Inr 8" "arr_get ?b (Suc (Suc (Suc n))) = Inr 10"
    using arr_get_opts [OF assms(1), of _ ts rest] len by (simp_all add: assms(2))
  have rd: "mem_read ?b (Suc (Suc (Suc (Suc n)))) 4 = Inr (be32 tsval)"
    using mem_read_opts [OF assms(1), of "Suc (Suc (Suc (Suc n)))" 4 ts rest] len by (simp add: assms(2))
  have e: "process_options ?b (12 + n) (n + 12) t = Inr t" for t
    by (simp add: process_options.simps)
  show ?thesis
    using process_options.simps [of ?b n "n + 12" tcb] process_options.simps [of ?b "Suc n" "n + 12" tcb]
      process_options.simps [of ?b "Suc (Suc n)" "n + 12" tcb]
    by (simp add: get rd e)
qed

lemma find_tsecr_timestamp_block:
  assumes "length pre = n" and "ts = [1, 1, 8, 10] @ be32 tsval @ be32 tsecr"
  shows "find_tsecr (pre @ ts @ rest) n (n + 12) = Inr (Some tsecr)"
proof -
  let ?b = "pre @ ts @ rest"
  have len: "length ts = 12" by (simp add: assms(2))
  have get: "arr_get ?b n = Inr 1" "arr_get ?b (Suc n) = Inr 1"
    "arr_get ?b (Suc (Suc n)) = Inr 8" "arr_get ?b (Suc (Suc (Suc n))) = Inr 10"
    using arr_get_opts [OF assms(1), of _ ts rest] len by (simp_all add: assms(2))
  have rd: "mem_read ?b (8 + n) 4 = Inr (be32 tsecr)"
    using mem_read_opts [OF assms(1), of "8 + n" 4 ts rest] len by (simp add: assms(2))
  show ?thesis
    using find_tsecr.simps [of ?b n "n + 12"] find_tsecr.simps [of ?b "Suc n" "n + 12"]
      find_tsecr.simps [of ?b "Suc (Suc n)" "n + 12"]
    by (simp add: get rd)
qed

text \<open>
  The options of a segment, read by the peer: a SYN hands over the window scale and the time
  stamp, every other segment the time stamp alone, and the echo is the one that was written.
\<close>

lemma process_built_options:
  assumes "length pre = 20" and "opts = build_options flags scale tsval tsecr"
  shows "process_options (pre @ opts @ rest) 20 (20 + length opts) tcb =
           Inr (if has_flag flags TH_SYN
                then tcb\<lparr>snd_scale := scale, scale_enabled := True, ts_recent := tsval, ts_enabled := True\<rparr>
                else tcb\<lparr>ts_recent := tsval, ts_enabled := True\<rparr>)"
proof (cases "has_flag flags TH_SYN")
  case False
  with assms process_timestamp_block [OF assms(1) refl, of tsval tsecr rest tcb] show ?thesis
    by (simp add: build_options_def)
next
  case True
  let ?ts = "[1, 1, 8, 10] @ be32 tsval @ be32 tsecr"
  let ?b = "pre @ opts @ rest"
  have opts: "opts = [1, 3, 3, scale] @ ?ts" and len: "length opts = 16"
    using True assms(2) by (simp_all add: build_options_def)
  have get: "arr_get ?b 20 = Inr 1" "arr_get ?b 21 = Inr 3" "arr_get ?b 22 = Inr 3"
    "arr_get ?b 23 = Inr scale"
    using arr_get_opts [OF assms(1), of _ opts rest] len by (simp_all add: opts)
  have ts: "process_options ?b 24 36 t = Inr (t\<lparr>ts_recent := tsval, ts_enabled := True\<rparr>)" for t
    using process_timestamp_block [OF _ refl, of "pre @ [1, 3, 3, scale]" 24 tsval tsecr rest t] assms(1)
    by (simp add: opts)
  have "process_options ?b 20 36 tcb = process_options ?b 21 36 tcb"
    by (subst process_options.simps) (simp add: get)
  also have "\<dots> = process_options ?b 24 36 (tcb\<lparr>snd_scale := scale, scale_enabled := True\<rparr>)"
    by (subst process_options.simps) (simp add: get)
  finally show ?thesis using True len by (simp add: ts)
qed

lemma find_built_tsecr:
  assumes "length pre = 20" and "opts = build_options flags scale tsval tsecr"
  shows "find_tsecr (pre @ opts @ rest) 20 (20 + length opts) = Inr (Some tsecr)"
proof (cases "has_flag flags TH_SYN")
  case False
  with assms find_tsecr_timestamp_block [OF assms(1) refl, of tsval tsecr rest] show ?thesis
    by (simp add: build_options_def)
next
  case True
  let ?ts = "[1, 1, 8, 10] @ be32 tsval @ be32 tsecr"
  let ?b = "pre @ opts @ rest"
  have opts: "opts = [1, 3, 3, scale] @ ?ts" and len: "length opts = 16"
    using True assms(2) by (simp_all add: build_options_def)
  have get: "arr_get ?b 20 = Inr 1" "arr_get ?b 21 = Inr 3" "arr_get ?b 22 = Inr 3"
    using arr_get_opts [OF assms(1), of _ opts rest] len by (simp_all add: opts)
  have ts: "find_tsecr ?b 24 36 = Inr (Some tsecr)"
    using find_tsecr_timestamp_block [OF _ refl, of "pre @ [1, 3, 3, scale]" 24 tsval tsecr rest] assms(1)
    by (simp add: opts)
  have "find_tsecr ?b 20 36 = find_tsecr ?b 21 36"
    by (subst find_tsecr.simps) (simp add: get)
  also have "\<dots> = find_tsecr ?b 24 36"
    by (subst find_tsecr.simps) (simp add: get)
  finally show ?thesis using len by (simp add: ts)
qed

text \<open>
  The readers stay inside the receive buffer whatever the bytes are, and the option loop changes
  nothing but the four fields the options carry.
\<close>

definition same_but_options :: "tcb \<Rightarrow> tcb \<Rightarrow> bool" where
  "same_but_options t t' \<longleftrightarrow>
     t' = t\<lparr>snd_scale := snd_scale t', scale_enabled := scale_enabled t',
           ts_recent := ts_recent t', ts_enabled := ts_enabled t'\<rparr>"

lemma same_but_options_trans:
  "same_but_options a b \<Longrightarrow> same_but_options b c \<Longrightarrow> same_but_options a c"
  unfolding same_but_options_def by (erule ssubst, erule ssubst) simp

lemma arr_get_ok: "i < length xs \<Longrightarrow> arr_get xs i = Inr (xs ! i)"
  by (simp add: arr_get_def)

lemma process_options_returns:
  "e < length buff \<Longrightarrow> returns (process_options buff p e tcb) (same_but_options tcb)"
proof (induction buff p e tcb rule: process_options.induct)
  case (1 buff p e tcb)
  have refl: "same_but_options tcb tcb" by (simp add: same_but_options_def)
  show ?case
  proof (cases "p < e")
    case True
    let ?k = "buff ! p" and ?l = "buff ! (p + 1)"
    have get: "arr_get buff p = Inr ?k" "arr_get buff (p + 1) = Inr ?l"
      using True "1.prems" by (simp_all add: arr_get_ok)
    consider (stop) "?k = 0 \<or> ?k \<noteq> 1 \<and> (?l = 0 \<or> p + unat ?l > e)" | (nop) "?k = 1"
      | (opt) "?k \<noteq> 0" "?k \<noteq> 1" "?l \<noteq> 0" "\<not> p + unat ?l > e"
      by blast
    then show ?thesis
    proof cases
      case stop
      then show ?thesis
        by (subst process_options.simps) (auto simp: get [simplified] refl True)
    next
      case nop
      with "1.IH"(1) [OF True get(1)] "1.prems" show ?thesis
        by (subst process_options.simps) (simp add: get [simplified] True)
    next
      case opt
      let ?t1 = "if ?k = 3 \<and> ?l = 3 then tcb\<lparr>snd_scale := buff ! (p + 2), scale_enabled := True\<rparr> else tcb"
      let ?v = "take 4 (drop (p + 2) buff)"
      let ?t2 = "if ?k = 8 \<and> ?l = 10
        then ?t1\<lparr>ts_recent := of_be32 (?v ! 0) (?v ! 1) (?v ! 2) (?v ! 3), ts_enabled := True\<rparr> else ?t1"
      have t1: "(if ?k = 3 \<and> ?l = 3
          then rbind (arr_get buff (p + 2)) (\<lambda>s. Inr (tcb\<lparr>snd_scale := s, scale_enabled := True\<rparr>))
          else Inr tcb) = Inr ?t1"
        using opt "1.prems" by (auto simp: arr_get_ok)
      have t2: "(if ?k = 8 \<and> ?l = 10
          then rbind (mem_read buff (p + 2) 4) (\<lambda>v.
            Inr (?t1\<lparr>ts_recent := of_be32 (v ! 0) (v ! 1) (v ! 2) (v ! 3), ts_enabled := True\<rparr>))
          else Inr ?t1) = Inr ?t2"
        using opt(4) "1.prems" by auto
      have "returns (process_options buff (p + unat ?l) e ?t2) (same_but_options ?t2)"
        using "1.IH"(2) [OF True get(1) opt(1,2) get(2) opt(3,4) t1 t2] "1.prems" by simp
      moreover have "process_options buff p e tcb = process_options buff (p + unat ?l) e ?t2"
        by (subst process_options.simps) (simp only: True get opt t1 t2 rbind_simps if_True if_False)
      moreover have "same_but_options tcb ?t2" by (simp add: same_but_options_def)
      ultimately show ?thesis
        by (metis (no_types, lifting) returns_mono same_but_options_trans)
    qed
  qed (simp add: process_options.simps refl)
qed

lemma find_tsecr_returns: "e \<le> length buff \<Longrightarrow> returns (find_tsecr buff p e) (\<lambda>_. True)"
proof (induction buff p e rule: find_tsecr.induct)
  case (1 buff p e)
  show ?case
  proof (cases "p < e \<and> buff ! p \<noteq> 0 \<and> buff ! p \<noteq> 1 \<and> p + 1 < e \<and>
      \<not> (unat (buff ! (p + 1)) < 2 \<or> p + unat (buff ! (p + 1)) > e)")
    case True
    then have get: "arr_get buff p = Inr (buff ! p)" "arr_get buff (p + 1) = Inr (buff ! (p + 1))"
      using "1.prems" by (simp_all add: arr_get_ok)
    show ?thesis
      using True "1.prems" "1.IH"(2) [OF _ get(1) _ _ _ get(2)]
      by (subst find_tsecr.simps) (auto simp: get [simplified])
  next
    case False
    then show ?thesis
      using "1.prems" "1.IH"(1) by (subst find_tsecr.simps) (auto simp: arr_get_ok)
  qed
qed

lemma data_offset_le: "data_offset hdr \<le> 60"
proof -
  have "unat (drop_bit 4 (th_off_flags hdr)) = unat (th_off_flags hdr) div 16"
    by (simp add: drop_bit_eq_div unat_div_distrib)
  moreover have "unat (th_off_flags hdr) < 256"
    using unsigned_less [of "th_off_flags hdr"] by simp
  ultimately show ?thesis by (simp add: data_offset_def)
qed

lemma process_window_option_returns:
  "length buff = 1500 \<Longrightarrow> returns (process_window_option buff hdr tcb) (same_but_options tcb)"
  using data_offset_le [of hdr] process_options_returns [of "data_offset hdr" buff 20 tcb]
  by (auto simp: process_window_option_def same_but_options_def)

lemma extract_tsecr_returns:
  "length buff = 1500 \<Longrightarrow> returns (extract_tsecr buff hdr) (\<lambda>_. True)"
  using data_offset_le [of hdr] find_tsecr_returns [of "data_offset hdr" buff 20]
  by (auto simp: extract_tsecr_def)

text \<open>Parsing undoes building, whatever follows in the buffer.\<close>

lemma segment_parses:
  assumes "opts = build_options flags scale tsval tsecr" and "data_offset h = 20 + length opts"
  shows "deserialize_utcp_packet (hdr_to_bytes h @ opts @ payload @ rest) (20 + length opts + length payload) = Inr (h, payload)"
    and "process_window_option (hdr_to_bytes h @ opts @ payload @ rest) h tcb =
      Inr (if has_flag flags TH_SYN
           then tcb\<lparr>snd_scale := scale, scale_enabled := True, ts_recent := tsval, ts_enabled := True\<rparr>
           else tcb\<lparr>ts_recent := tsval, ts_enabled := True\<rparr>)"
    and "extract_tsecr (hdr_to_bytes h @ opts @ payload @ rest) h = Inr (Some tsecr)"
  using deserialize_segment [OF assms(2), of payload rest]
    process_built_options [OF _ assms(1), of "hdr_to_bytes h" "payload @ rest" tcb]
    find_built_tsecr [OF _ assms(1), of "hdr_to_bytes h" "payload @ rest"] assms
  by (simp_all add: process_window_option_def extract_tsecr_def Let_def length_build_options)

section \<open>Properties\<close>

text \<open>
  C30: A segment survives the wire: header, options and payload written by the sender are parsed back by the receiver
  as the same header and payload, whatever stale bytes follow in the receive buffer, and the
  options yield the sender's window scale (on SYN), its timestamp and its echo.
\<close>

theorem segment_roundtrip:
  assumes "opts = build_options flags scale tsval tsecr" and "data_offset h = 20 + length opts"
  shows "let buff = hdr_to_bytes h @ opts @ payload @ rest in
    deserialize_utcp_packet buff (20 + length opts + length payload) = Inr (h, payload) \<and>
    process_window_option buff h tcb =
      Inr (if has_flag flags TH_SYN
           then tcb\<lparr>snd_scale := scale, scale_enabled := True, ts_recent := tsval, ts_enabled := True\<rparr>
           else tcb\<lparr>ts_recent := tsval, ts_enabled := True\<rparr>) \<and>
    extract_tsecr buff h = Inr (Some tsecr)"
  using segment_parses [OF assms, of payload rest] by (simp add: Let_def)

theorem segment_roundtrip_witness:
  "let h = \<lparr>th_sport = 1, th_dport = 2, th_seq = 3, th_ack = 4, th_off_flags = 128, th_flags = TH_ACK, th_win = 5,
       th_sum = 0, th_urp = 0\<rparr>;
     opts = build_options TH_ACK 5 100 200; buff = hdr_to_bytes h @ opts @ [7, 8, 9] @ zero_bytes 1465
   in deserialize_utcp_packet buff (20 + length opts + length [7, 8, 9 :: u8]) = Inr (h, [7, 8, 9]) \<and>
     extract_tsecr buff h = Inr (Some 200)"
  using segment_roundtrip [OF refl, of "\<lparr>th_sport = 1, th_dport = 2, th_seq = 3, th_ack = 4, th_off_flags = 128,
      th_flags = TH_ACK, th_win = 5, th_sum = 0, th_urp = 0\<rparr>" TH_ACK 5 100 200 "[7, 8, 9]" "zero_bytes 1465"]
  unfolding Let_def
  by (simp only: data_offset_def length_build_options tcphdr.simps) simp

text \<open>
  C31: Whatever bytes arrive, parsing the options of a segment in the 1500-byte receive buffer stays
  inside the buffer and ends, and touches only the four option fields of the block.
\<close>

theorem option_parsing_safe:
  assumes "length buff = 1500"
  shows "returns (process_window_option buff hdr tcb) (same_but_options tcb) \<and>
    returns (extract_tsecr buff hdr) (\<lambda>_. True)"
  using assms by (simp add: process_window_option_returns extract_tsecr_returns)

theorem option_parsing_safe_witness:
  "returns (process_window_option (zero_bytes 1500)
      \<lparr>th_sport = 0, th_dport = 0, th_seq = 0, th_ack = 0, th_off_flags = 240, th_flags = 0, th_win = 0,
       th_sum = 0, th_urp = 0\<rparr> (calloc_tcb utcp_reno)) (same_but_options (calloc_tcb utcp_reno))"
  using option_parsing_safe [of "zero_bytes 1500"] by simp

end
