(* ===== verification/Ring_Buffer.thy ===== *)
theory Ring_Buffer
  imports Tcp
begin

text \<open>
  The circular byte buffers: \<^verbatim>\<open>ring_buf_read\<close> and \<^verbatim>\<open>ring_buf_write\<close> of
  \<^verbatim>\<open>src/utcp/utcp_utils.c\<close>. Both copy in one or two pieces; the theory relates them to
  indexing modulo the size, and shows that a buffer with free-running 32-bit head and tail
  counters is a bounded queue of bytes (the interface \<open>byte_queue\<close>), also while the counters
  wrap, because the size divides \<open>2 ^ 32\<close>.
\<close>

section \<open>The two copies\<close>

definition ring_buf_read :: "u8 list \<Rightarrow> u32 \<Rightarrow> u32 \<Rightarrow> nat \<Rightarrow> u8 list res" where
  "ring_buf_read ring_buf buf_size offset len =
     (if len = 0 then Inr []
      else if buf_size = 0 then Inl Div_by_zero
      else let physical_offset = unat (offset mod buf_size) in
        if physical_offset + len \<le> unat buf_size
        then mem_read ring_buf physical_offset len
        else let part1_len = unat buf_size - physical_offset;
                 part2_len = len - part1_len
             in rbind (mem_read ring_buf physical_offset part1_len) (\<lambda>a.
                rbind (mem_read ring_buf 0 part2_len) (\<lambda>b.
                Inr (a @ b))))"

definition ring_buf_write :: "u8 list \<Rightarrow> u32 \<Rightarrow> u32 \<Rightarrow> u8 list \<Rightarrow> nat \<Rightarrow> u8 list res" where
  "ring_buf_write ring_buf buf_size offset src len =
     (if len = 0 then Inr ring_buf
      else if buf_size = 0 then Inl Div_by_zero
      else let physical_offset = unat (offset mod buf_size) in
        if physical_offset + len \<le> unat buf_size
        then rbind (mem_read src 0 len) (\<lambda>a. mem_write ring_buf physical_offset a)
        else let part1_len = unat buf_size - physical_offset;
                 part2_len = len - part1_len
             in rbind (mem_read src 0 part1_len) (\<lambda>a.
                rbind (mem_write ring_buf physical_offset a) (\<lambda>ring1.
                rbind (mem_read src part1_len part2_len) (\<lambda>b.
                mem_write ring1 0 b))))"

section \<open>Indexing modulo the size\<close>

lemma mod_add_less:
  assumes "m < N" and "i < (N :: nat)"
  shows "(m + i) mod N = (if m + i < N then m + i else m + i - N)"
  using assms by (auto simp: mod_if)

lemma ring_buf_read_eq:
  assumes len: "length ring = unat sz" and sz: "0 < unat sz" and n: "n \<le> unat sz"
  shows "ring_buf_read ring sz off n =
           Inr (map (\<lambda>i. ring ! ((unat off + i) mod unat sz)) [0..<n])"
proof (cases "n = 0")
  case True
  then show ?thesis by (simp add: ring_buf_read_def)
next
  case False
  define N where "N = unat sz"
  define m where "m = unat off mod N"
  have N: "0 < N" "length ring = N" "n \<le> N" "m < N"
    using assms by (simp_all add: N_def m_def)
  have m: "unat (off mod sz) = m"
    by (simp add: m_def N_def unat_mod_distrib)
  have idx: "(unat off + i) mod N = (m + i) mod N" for i
    by (simp add: m_def mod_add_left_eq)
  have "sz \<noteq> 0" using sz by auto
  then show ?thesis
    using False N
    by (auto simp: ring_buf_read_def Let_def m idx mod_add_less simp flip: N_def
        intro!: nth_equalityI) (auto simp: nth_append add.commute)
qed

text \<open>
  After a write at \<open>off\<close>, the cell at index \<open>j\<close> holds the source byte at its distance from
  \<open>off\<close> when that distance is below the length written, and its old value otherwise.
\<close>

definition ring_dist :: "nat \<Rightarrow> nat \<Rightarrow> nat \<Rightarrow> nat" where
  "ring_dist N m j = (if m \<le> j then j - m else j + N - m)"

lemma ring_dist_less: "m < N \<Longrightarrow> j < N \<Longrightarrow> ring_dist N m j < N"
  by (auto simp: ring_dist_def)

lemma ring_dist_add: "m < N \<Longrightarrow> i < N \<Longrightarrow> ring_dist N m ((m + i) mod N) = i"
  by (auto simp: ring_dist_def mod_add_less)

lemma ring_buf_write_eq:
  assumes len: "length ring = unat sz" and sz: "0 < unat sz"
    and src: "length src = n" and n: "n \<le> unat sz"
  shows "ring_buf_write ring sz off src n =
           Inr (map (\<lambda>j. let k = ring_dist (unat sz) (unat off mod unat sz) j
                         in if k < n then src ! k else ring ! j) [0..<unat sz])"
proof (cases "n = 0")
  case True
  then show ?thesis
    using len by (auto simp: ring_buf_write_def intro!: nth_equalityI)
next
  case False
  define N where "N = unat sz"
  define m where "m = unat off mod N"
  have N: "0 < N" "length ring = N" "n \<le> N" "m < N"
    using assms by (simp_all add: N_def m_def)
  have m: "unat (off mod sz) = m"
    by (simp add: m_def N_def unat_mod_distrib)
  have sz0: "sz \<noteq> 0" using sz by auto
  let ?f = "\<lambda>j. let k = ring_dist N m j in if k < n then src ! k else ring ! j"
  have "ring_buf_write ring sz off src n = Inr (map ?f [0..<N])"
  proof (cases "m + n \<le> N")
    case True
    then have "ring_buf_write ring sz off src n = Inr (take m ring @ src @ drop (m + length src) ring)"
      using False N src sz0 by (simp add: ring_buf_write_def m flip: N_def)
    moreover have "take m ring @ src @ drop (m + length src) ring = map ?f [0..<N]"
      using True N src by (intro nth_equalityI) (auto simp: nth_splice ring_dist_def Let_def)
    ultimately show ?thesis by simp
  next
    case wrap: False
    define p where "p = N - m"
    define ring1 where "ring1 = take m ring @ take p src @ drop (m + length (take p src)) ring"
    have p: "p \<le> n" "m + p = N" "n - p \<le> m" "length (take p src) = p" "length (drop p src) = n - p"
      using wrap N src by (auto simp: p_def)
    then have ring1: "length ring1 = N" and
      nth1: "\<And>j. j < N \<Longrightarrow> ring1 ! j = (if m \<le> j then src ! (j - m) else ring ! j)"
      using N by (auto simp: ring1_def nth_append)
    have idx: "i + N - m = p + i" for i using p by simp
    have "ring_buf_write ring sz off src n = Inr (take 0 ring1 @ drop p src @ drop (0 + length (drop p src)) ring1)"
      using False wrap N src sz0 p ring1
      by (simp add: ring_buf_write_def m Let_def ring1_def flip: N_def p_def)
    moreover have "take 0 ring1 @ drop p src @ drop (0 + length (drop p src)) ring1 = map ?f [0..<N]"
      using N src p ring1 by (intro nth_equalityI) (auto simp: nth_append nth1 ring_dist_def Let_def idx)
    ultimately show ?thesis by simp
  qed
  then show ?thesis by (simp add: m_def N_def)
qed

section \<open>A bounded byte queue\<close>

text \<open>
  The interface that the send and the receive path rely on: \<open>push\<close> appends, \<open>peek\<close> copies out a
  range, \<open>pop\<close> removes from the front.
\<close>

locale byte_queue =
  fixes push :: "'q \<Rightarrow> u8 list \<Rightarrow> 'q res"
    and peek :: "'q \<Rightarrow> nat \<Rightarrow> nat \<Rightarrow> u8 list res"
    and pop :: "'q \<Rightarrow> nat \<Rightarrow> 'q"
    and contents :: "'q \<Rightarrow> u8 list"
    and invar :: "'q \<Rightarrow> bool"
    and cap :: nat
  assumes push_ok: "invar q \<Longrightarrow> length (contents q) + length xs \<le> cap \<Longrightarrow>
      returns (push q xs) (\<lambda>q'. invar q' \<and> contents q' = contents q @ xs)"
    and peek_ok: "invar q \<Longrightarrow> off + n \<le> length (contents q) \<Longrightarrow>
      peek q off n = Inr (take n (drop off (contents q)))"
    and pop_ok: "invar q \<Longrightarrow> n \<le> length (contents q) \<Longrightarrow>
      invar (pop q n) \<and> contents (pop q n) = drop n (contents q)"
begin

text \<open>What is pushed behind the present contents can be read back there.\<close>

lemma push_peek:
  assumes "invar q" and "length (contents q) + length xs \<le> cap"
  shows "returns (push q xs) (\<lambda>q'. peek q' (length (contents q)) (length xs) = Inr xs)"
  by (rule returns_mono [OF push_ok [OF assms]]) (simp add: peek_ok)

text \<open>A pop does not disturb what stays in the queue.\<close>

lemma pop_peek:
  assumes "invar q" and "k + off + n \<le> length (contents q)"
  shows "peek (pop q k) off n = peek q (k + off) n"
  using assms pop_ok [of q k] by (simp add: peek_ok add.commute)

text \<open>
  Any interleaving of pushes and pops moves the bytes through in order: what was popped followed
  by what is left is what was there followed by what was pushed.
\<close>

fun run :: "'q \<Rightarrow> (u8 list + nat) list \<Rightarrow> (u8 list \<times> u8 list \<times> 'q) res" where
  "run q [] = Inr ([], [], q)"
| "run q (Inl xs # ops) =
     (if length (contents q) + length xs \<le> cap
      then rbind (push q xs) (\<lambda>q'. rbind (run q' ops) (\<lambda>(i, out, q''). Inr (xs @ i, out, q'')))
      else run q ops)"
| "run q (Inr n # ops) =
     (let k = min n (length (contents q)) in
      rbind (peek q 0 k) (\<lambda>xs. rbind (run (pop q k) ops) (\<lambda>(i, out, q''). Inr (i, xs @ out, q''))))"

lemma run_in_order:
  "invar q \<Longrightarrow> returns (run q ops) (\<lambda>(i, out, q'). invar q' \<and> contents q @ i = out @ contents q')"
proof (induction ops arbitrary: q)
  case Nil
  then show ?case by simp
next
  case (Cons x ops)
  show ?case
  proof (cases x)
    case (Inl xs)
    show ?thesis
    proof (cases "length (contents q) + length xs \<le> cap")
      case True
      from push_ok [OF Cons.prems True] obtain q' where
        q': "push q xs = Inr q'" "invar q'" "contents q' = contents q @ xs"
        by (auto simp: returns_def)
      with Cons.IH [OF q'(2)] Inl True show ?thesis by (auto simp: returns_def)
    next
      case False
      with Cons.IH [OF Cons.prems] Inl show ?thesis by (simp add: returns_def)
    qed
  next
    case (Inr n)
    let ?k = "min n (length (contents q))"
    have pop: "invar (pop q ?k)" "contents (pop q ?k) = drop ?k (contents q)"
      using pop_ok [OF Cons.prems, of ?k] by simp_all
    have "contents q @ i = take ?k (contents q) @ out @ c"
      if "drop ?k (contents q) @ i = out @ c" for i out c
      using that append_take_drop_id [of ?k "contents q"] by (metis append.assoc)
    with Cons.IH [OF pop(1)] pop(2) Inr Cons.prems show ?thesis
      by (fastforce simp: returns_def peek_ok Let_def)
  qed
qed

end

text \<open>
  The queue the code keeps: an array of \<open>2 ^ 20\<close> bytes with a head and a tail counter of 32 bits
  that are never reduced modulo the size.
\<close>

type_synonym ring = "u8 list \<times> u32 \<times> u32"

definition ring_contents :: "u8 list \<Rightarrow> u32 \<Rightarrow> u32 \<Rightarrow> u8 list" where
  "ring_contents ring head tail =
     map (\<lambda>i. ring ! ((unat head + i) mod length ring)) [0..<unat (tail - head)]"

definition ring_push :: "ring \<Rightarrow> u8 list \<Rightarrow> ring res" where
  "ring_push q xs = (case q of (ring, head, tail) \<Rightarrow>
     rbind (ring_buf_write ring SEND_BUF_SIZE tail xs (length xs)) (\<lambda>ring'.
     Inr (ring', head, tail + of_nat (length xs))))"

definition ring_peek :: "ring \<Rightarrow> nat \<Rightarrow> nat \<Rightarrow> u8 list res" where
  "ring_peek q off n = (case q of (ring, head, tail) \<Rightarrow>
     ring_buf_read ring SEND_BUF_SIZE (head + of_nat off) n)"

definition ring_pop :: "ring \<Rightarrow> nat \<Rightarrow> ring" where
  "ring_pop q n = (case q of (ring, head, tail) \<Rightarrow> (ring, head + of_nat n, tail))"

definition ring_invar :: "ring \<Rightarrow> bool" where
  "ring_invar q = (case q of (ring, head, tail) \<Rightarrow>
     length ring = SEND_BUF_SIZE \<and> unat (tail - head) \<le> SEND_BUF_SIZE)"

lemma length_ring_contents [simp]: "length (ring_contents ring head tail) = unat (tail - head)"
  by (simp add: ring_contents_def)

lemma unat_add_mod_dvd:
  assumes "N dvd 4294967296"
  shows "unat (a + of_nat i :: u32) mod N = (unat a + i) mod N"
proof -
  have "unat (a + of_nat i) = (unat a + i) mod 4294967296"
    by (simp add: unat_word_ariths unat_of_nat take_bit_eq_mod mod_simps)
  then show ?thesis using assms by (simp add: mod_mod_cancel)
qed

lemma unat_add_add_mod_dvd:
  assumes "N dvd 4294967296"
  shows "(unat (a + of_nat off :: u32) + i) mod N = (unat a + (off + i)) mod N"
  using unat_add_mod_dvd [OF assms, of a off] by (metis add.assoc mod_add_left_eq)

lemma unat_of_nat32: "n < 4294967296 \<Longrightarrow> unat (of_nat n :: u32) = n"
  by (simp add: unat_of_nat take_bit_eq_mod)

lemma unat_tail_advance:
  assumes "unat (tail - head :: u32) + n < 4294967296"
  shows "unat (tail + of_nat n - head) = unat (tail - head) + n"
proof -
  have "tail + of_nat n - head = (tail - head) + of_nat n" by simp
  moreover have "unat ((tail - head) + of_nat n) = unat (tail - head) + n"
    using assms unat_add_small32 [of "tail - head" "of_nat n"] by (simp add: unat_of_nat32)
  ultimately show ?thesis by (simp only:)
qed

lemma unat_head_advance:
  assumes "n \<le> unat (tail - head :: u32)"
  shows "unat (tail - (head + of_nat n)) = unat (tail - head) - n"
proof -
  have "tail - (head + of_nat n) = (tail - head) - of_nat n" by simp
  moreover have "unat (of_nat n :: u32) = n"
    using assms unat_lt_pow32 [of "tail - head"] by (simp add: unat_of_nat32)
  moreover from this have "unat ((tail - head) - of_nat n) = unat (tail - head) - n"
    using assms unat_sub [of "of_nat n" "tail - head"] by (simp add: word_le_nat_alt)
  ultimately show ?thesis by (simp only:)
qed

text \<open>The three laws, for the array and its counters.\<close>

lemma ring_dist_behind:
  assumes "m = (h + u) mod N" and "u \<le> N" and "i < u"
  shows "ring_dist N m ((h + i) mod N) = N - u + i"
proof -
  have "(h + i) mod N = (m + (N - u + i)) mod N"
  proof -
    have "(m + (N - u + i)) mod N = (h + u + (N - u + i)) mod N"
      by (simp add: assms(1) mod_add_left_eq)
    also have "h + u + (N - u + i) = h + i + N" using assms(2) by simp
    finally show ?thesis by simp
  qed
  moreover have "m < N" and "N - u + i < N" using assms by simp_all
  ultimately show ?thesis by (simp only: ring_dist_add)
qed

lemma ring_dist_ahead:
  assumes "m = (h + u) mod N" and "u \<le> i" and "i - u < N"
  shows "ring_dist N m ((h + i) mod N) = i - u"
proof -
  have "(m + (i - u)) mod N = (h + u + (i - u)) mod N"
    by (simp add: assms(1) mod_add_left_eq)
  then have "(h + i) mod N = (m + (i - u)) mod N" using assms(2) by simp
  moreover have "m < N" using assms by simp
  ultimately show ?thesis using assms(3) by (simp only: ring_dist_add)
qed

lemma ring_write_contents_gen:
  assumes N: "N dvd 4294967296" "unat sz = N" "N < 4294967296"
    and len: "length ring = N" and fit: "unat (tail - head) + length xs \<le> N"
  shows "returns (ring_buf_write ring sz tail xs (length xs)) (\<lambda>ring'.
      length ring' = N \<and>
      ring_contents ring' head (tail + of_nat (length xs)) = ring_contents ring head tail @ xs)"
proof -
  define u where "u = unat (tail - head)"
  define m where "m = unat tail mod N"
  define ring' where "ring' = map (\<lambda>j. let k = ring_dist N m j
      in if k < length xs then xs ! k else ring ! j) [0..<N]"
  have "0 < N" using N by (auto intro: Nat.gr0I)
  then have w: "ring_buf_write ring sz tail xs (length xs) = Inr ring'"
    using ring_buf_write_eq [of ring sz xs "length xs" tail] len fit N
    by (simp add: ring'_def m_def)
  have len': "length ring' = N" by (simp add: ring'_def)
  have fits: "u + length xs \<le> N" using fit by (simp add: u_def)
  have m: "m = (unat head + u) mod N"
    using unat_add_mod_dvd [OF N(1), of head u] by (simp add: m_def u_def)
  have cell: "ring' ! ((unat head + i) mod N) =
      (if i < u then ring ! ((unat head + i) mod N) else xs ! (i - u))" if "i < u + length xs" for i
    using fits that \<open>0 < N\<close> ring_dist_behind [OF m, of i] ring_dist_ahead [OF m, of i]
    by (auto simp: ring'_def Let_def not_less)
  have adv: "unat (tail + of_nat (length xs) - head) = u + length xs"
    using fits N by (simp add: unat_tail_advance u_def)
  have "ring_contents ring' head (tail + of_nat (length xs)) = ring_contents ring head tail @ xs"
    using cell len len' adv
    by (intro nth_equalityI) (simp_all add: ring_contents_def nth_append flip: u_def)
  then show ?thesis using w len' by simp
qed

lemma ring_read_contents_gen:
  assumes "N dvd 4294967296" "unat sz = N" "0 < N"
    and "length ring = N" and "unat (tail - head) \<le> N" and "off + n \<le> unat (tail - head)"
  shows "ring_buf_read ring sz (head + of_nat off) n =
           Inr (take n (drop off (ring_contents ring head tail)))"
  using assms
  by (auto simp: ring_buf_read_eq ring_contents_def unat_add_add_mod_dvd intro!: nth_equalityI)

lemma ring_drop_contents:
  assumes "length ring dvd 4294967296" and "n \<le> unat (tail - head)"
  shows "ring_contents ring (head + of_nat n) tail = drop n (ring_contents ring head tail)"
  using assms
  by (auto simp: ring_contents_def unat_head_advance unat_add_add_mod_dvd intro!: nth_equalityI)

lemma size_dvd: "(1048576 :: nat) dvd 4294967296"
  by simp

lemmas ring_write_contents = ring_write_contents_gen [OF size_dvd, of 1048576, simplified]
lemmas ring_read_contents = ring_read_contents_gen [OF size_dvd, of 1048576, simplified]

interpretation ring: byte_queue ring_push ring_peek ring_pop
  "\<lambda>(ring, head, tail). ring_contents ring head tail" ring_invar 1048576
proof unfold_locales
  fix q :: ring and xs :: "u8 list"
  assume "ring_invar q" and
    "length (case q of (ring, head, tail) \<Rightarrow> ring_contents ring head tail) + length xs \<le> 1048576"
  then show "returns (ring_push q xs) (\<lambda>q'. ring_invar q' \<and>
      (case q' of (ring, head, tail) \<Rightarrow> ring_contents ring head tail) =
      (case q of (ring, head, tail) \<Rightarrow> ring_contents ring head tail) @ xs)"
    using ring_write_contents [of "fst q" "snd (snd q)" "fst (snd q)" xs]
    by (cases q) (auto simp: ring_push_def ring_invar_def returns_def unat_tail_advance)
next
  fix q :: ring and off n
  assume "ring_invar q" and
    "off + n \<le> length (case q of (ring, head, tail) \<Rightarrow> ring_contents ring head tail)"
  then show "ring_peek q off n =
      Inr (take n (drop off (case q of (ring, head, tail) \<Rightarrow> ring_contents ring head tail)))"
    by (cases q) (auto simp: ring_peek_def ring_invar_def ring_read_contents)
next
  fix q :: ring and n
  assume "ring_invar q" and
    "n \<le> length (case q of (ring, head, tail) \<Rightarrow> ring_contents ring head tail)"
  then show "ring_invar (ring_pop q n) \<and>
      (case ring_pop q n of (ring, head, tail) \<Rightarrow> ring_contents ring head tail) =
      drop n (case q of (ring, head, tail) \<Rightarrow> ring_contents ring head tail)"
    by (cases q) (auto simp: ring_pop_def ring_invar_def ring_drop_contents unat_head_advance)
qed

section \<open>Properties\<close>

text \<open>
  C29: The ring buffer is a byte queue: any interleaving of writes at the tail (within the capacity) and
  reads at the head succeeds, and the bytes come out in the order they went in, across the
  physical end of the buffer and the wrap-around of the 32-bit counters.
\<close>

theorem ring_buffer_fifo:
  assumes "length ring = SEND_BUF_SIZE" and "unat (tail - head) \<le> SEND_BUF_SIZE"
  shows "returns (ring.run (ring, head, tail) ops) (\<lambda>(i, out, (ring', head', tail')).
    length ring' = SEND_BUF_SIZE \<and> unat (tail' - head') \<le> SEND_BUF_SIZE \<and>
    ring_contents ring head tail @ i = out @ ring_contents ring' head' tail')"
  using ring.run_in_order [of "(ring, head, tail)" ops] assms
  by (auto simp: ring_invar_def elim!: returns_mono)

theorem ring_buffer_fifo_witness:
  "returns (ring.run (zero_bytes SEND_BUF_SIZE, 0xFFFFFFFF, 0xFFFFFFFF) [Inl [1, 2, 3], Inr 2, Inl [4]])
     (\<lambda>(i, out, (ring', head', tail')). length ring' = SEND_BUF_SIZE \<and> unat (tail' - head') \<le> SEND_BUF_SIZE \<and>
        i = out @ ring_contents ring' head' tail')"
  using ring_buffer_fifo [of "zero_bytes 1048576" "0xFFFFFFFF" "0xFFFFFFFF" "[Inl [1, 2, 3], Inr 2, Inl [4]]"]
  by (auto simp: ring_contents_def elim!: returns_mono)

text \<open>
  Writing at the tail appends to the contents and changes nothing else of them; reading at an
  offset returns exactly the bytes stored there.
\<close>

theorem ring_buffer_write_read:
  assumes "length ring = SEND_BUF_SIZE" and "unat (tail - head) + length xs \<le> SEND_BUF_SIZE"
  shows "returns (ring_buf_write ring SEND_BUF_SIZE tail xs (length xs)) (\<lambda>ring'.
    ring_contents ring' head (tail + of_nat (length xs)) = ring_contents ring head tail @ xs \<and>
    ring_buf_read ring' SEND_BUF_SIZE tail (length xs) = Inr xs)"
proof -
  from ring_write_contents [of ring tail head xs] assms obtain ring' where
    w: "ring_buf_write ring SEND_BUF_SIZE tail xs (length xs) = Inr ring'" and len: "length ring' = SEND_BUF_SIZE"
    and c: "ring_contents ring' head (tail + of_nat (length xs)) = ring_contents ring head tail @ xs"
    by (auto simp: returns_def)
  have adv: "unat (tail + of_nat (length xs) - head) = unat (tail - head) + length xs"
    using assms(2) by (intro unat_tail_advance) simp
  have "ring_buf_read ring' SEND_BUF_SIZE (head + of_nat (unat (tail - head))) (length xs) =
      Inr (take (length xs) (drop (unat (tail - head)) (ring_contents ring' head (tail + of_nat (length xs)))))"
    using assms len adv by (intro ring_read_contents) simp_all
  also have "drop (unat (tail - head)) (ring_contents ring' head (tail + of_nat (length xs))) = xs"
    unfolding c by (simp add: ring_contents_def)
  finally show ?thesis using w c by simp
qed

end
