(* ===== verification/Output.thy ===== *)
theory Output
  imports Utcp_World Wire Ring_Buffer
begin

text \<open>
  The send path of \<^verbatim>\<open>src/utcp/utcp_output.c\<close>: building and sending one segment
  (\<^verbatim>\<open>utcp_send_segment\<close>, \<^verbatim>\<open>pass_to_udp\<close>), the output loop (\<^verbatim>\<open>utcp_output\<close>) and the
  retransmission of one segment (\<^verbatim>\<open>utcp_retransmit_segment\<close>).
\<close>

section \<open>Sending one segment\<close>

fun tcp_outflags :: "tcp_state \<Rightarrow> u8" where
  "tcp_outflags TCP_CLOSED = TH_RST OR TH_ACK"
| "tcp_outflags TCP_LISTEN = 0"
| "tcp_outflags TCP_SYN_SENT = TH_SYN"
| "tcp_outflags TCP_SYN_RECV = TH_SYN OR TH_ACK"
| "tcp_outflags TCP_ESTABLISHED = TH_ACK"
| "tcp_outflags TCP_CLOSE_WAIT = TH_ACK"
| "tcp_outflags TCP_FIN_WAIT1 = TH_FIN OR TH_ACK"
| "tcp_outflags TCP_CLOSING = TH_FIN OR TH_ACK"
| "tcp_outflags TCP_LAST_ACK = TH_FIN OR TH_ACK"
| "tcp_outflags TCP_FIN_WAIT2 = TH_ACK"
| "tcp_outflags TCP_TIME_WAIT = TH_ACK"

definition pass_to_udp :: "env \<Rightarrow> u8 list \<Rightarrow> u32 \<Rightarrow> u16 \<Rightarrow> world \<Rightarrow> (int \<times> world) res" where
  "pass_to_udp env seg ip port w =
     (let d = \<lparr>dg_ip = ip, dg_port = port, dg_bytes = seg\<rparr>;
          sent_bytes = sendto env (length (sent w)) d
      in if sent_bytes = -1
         then err_sys ''Something sent wrong trying to send a UDP packet''
         else Inr (sent_bytes, w\<lparr>sent := sent w @ [d]\<rparr>))"

text \<open>The free space that is advertised: what neither ordered nor out-of-order bytes occupy.\<close>

definition recv_free_space :: "tcb \<Rightarrow> u32" where
  "recv_free_space tcb = RECV_BUF_SIZE - (recv_buf_tail tcb - recv_buf_head tcb) - ooo_bytes tcb"

definition segment_header :: "tcb \<Rightarrow> u32 \<Rightarrow> u8 \<Rightarrow> nat \<Rightarrow> u16 \<Rightarrow> tcphdr" where
  "segment_header tcb seq flags opt_len win =
     \<lparr>th_sport = src_port tcb, th_dport = dst_port tcb, th_seq = seq, th_ack = rcv_nxt tcb,
      th_off_flags = push_bit 4 (of_nat ((TCPHDR_SIZE + opt_len) div 4)) OR (flags AND 15),
      th_flags = flags, th_win = win, th_sum = 0, th_urp = 0\<rparr>"

definition utcp_send_segment :: "env \<Rightarrow> tcb \<Rightarrow> u32 \<Rightarrow> u8 \<Rightarrow> nat \<Rightarrow> world \<Rightarrow> (int \<times> world) res" where
  "utcp_send_segment env tcb seq flags data_length w =
     rbind (utcp_get_time_us env w) (\<lambda>(now, w1).
     let options = build_options flags (rcv_scale tcb) (ucast now) (ts_recent tcb);
         (ok, w2) = try_malloc env w1
     in if \<not> ok then Inr (-1, w2)
        else rbind (SET_SCALED_WIN tcb flags (recv_free_space tcb)) (\<lambda>win.
          let hdr = segment_header tcb seq flags (length options) win in
          rbind (if data_length > 0
                 then ring_buf_read (send_buf tcb) SEND_BUF_SIZE (seq - iss tcb - 1) data_length
                 else Inr []) (\<lambda>payload.
          pass_to_udp env (hdr_to_bytes hdr @ options @ payload) (dst_ip tcb) (dst_udp_port tcb) w2)))"

section \<open>The output loop\<close>

text \<open>How many payload bytes the next segment may carry: window, buffer, MSS, Nagle.\<close>

definition send_window :: "tcb \<Rightarrow> u32" where
  "send_window tcb = (if snd_wnd tcb < cwnd tcb then snd_wnd tcb else cwnd tcb)"

definition buffered_data :: "tcb \<Rightarrow> u32" where
  "buffered_data tcb =
     (let data_bytes_sent = (if SEQ_GT (snd_nxt tcb) (iss tcb) then snd_nxt tcb - iss tcb - 1 else 0)
      in if send_buf_tail tcb > data_bytes_sent then send_buf_tail tcb - data_bytes_sent else 0)"

definition output_data_length :: "tcb \<Rightarrow> u32" where
  "output_data_length tcb =
     (if state tcb = TCP_ESTABLISHED then
        let unacked_data_in_flight = snd_nxt tcb - snd_una tcb in
        if send_window tcb > unacked_data_in_flight then
          let can_send = send_window tcb - unacked_data_in_flight;
              data_length = (if buffered_data tcb < can_send then buffered_data tcb else can_send);
              data_length = (if data_length > MSS then MSS else data_length)
          in if data_length > 0 \<and> data_length < MSS \<and> unacked_data_in_flight > 0 then 0
             else data_length
        else 0
      else 0)"

definition cancel_delack :: "tcb \<Rightarrow> tcb" where
  "cancel_delack tcb =
     (if has_flag (t_flags tcb) TF_DELACK
      then set_timer TCPT_DELACK 0 (tcb\<lparr>t_flags := clear_flag (t_flags tcb) TF_DELACK\<rparr>)
      else tcb)"

text \<open>After a segment went out: RTT tracking, sequence numbers, retransmission timer.\<close>

definition advance_send :: "u32 \<Rightarrow> bool \<Rightarrow> tcb \<Rightarrow> tcb" where
  "advance_send data_length sending_new_syn_fin tcb =
     (if data_length > 0 \<or> sending_new_syn_fin then
        let consumed = data_length + (if sending_new_syn_fin then 1 else 0);
            tcb = (if t_rtt tcb = 0 \<and> snd_nxt tcb = snd_max tcb \<and> data_length > 0
                   then tcb\<lparr>t_rtseq := snd_nxt tcb, t_rtt := 1\<rparr> else tcb);
            tcb = tcb\<lparr>snd_nxt := snd_nxt tcb + consumed\<rparr>;
            tcb = (if t_timer tcb TCPT_REXMT = 0
                   then set_timer TCPT_REXMT (ucast (t_rxtcur tcb)) tcb else tcb)
        in if SEQ_GT (snd_nxt tcb) (snd_max tcb) then tcb\<lparr>snd_max := snd_nxt tcb\<rparr> else tcb
      else tcb)"

text \<open>One pass of the loop body: whether to go on, the bytes sent, and the new state.\<close>

definition output_iter :: "env \<Rightarrow> u8 \<Rightarrow> bool \<Rightarrow> tcb \<Rightarrow> world \<Rightarrow> (bool \<times> int \<times> tcb \<times> world) res" where
  "output_iter env flags force_send tcb w =
     (let data_length = output_data_length tcb;
          is_syn_fin = has_flag flags (TH_SYN OR TH_FIN);
          sending_new_syn_fin = (is_syn_fin \<and> snd_nxt tcb = snd_max tcb)
      in if data_length = 0 \<and> \<not> sending_new_syn_fin \<and> \<not> force_send then Inr (False, 0, tcb, w)
         else let tcb1 = cancel_delack tcb in
           rbind (utcp_send_segment env tcb1 (snd_nxt tcb1) flags (unat data_length) w) (\<lambda>(bytes_sent, w1).
           if bytes_sent < 0 then Inr (False, 0, tcb1, w1)
           else let tcb2 = advance_send data_length sending_new_syn_fin tcb1
                in Inr (data_length \<noteq> 0, bytes_sent, tcb2, w1)))"

text \<open>
  Every pass that goes on has sent data, so the room left in the send window shrinks: the loop
  ends for every state.
\<close>

definition window_room :: "tcb \<Rightarrow> nat" where
  "window_room tcb = unat (send_window tcb) - unat (snd_nxt tcb - snd_una tcb)"

lemma cancel_delack_frame [simp]:
  "snd_nxt (cancel_delack t) = snd_nxt t" "snd_una (cancel_delack t) = snd_una t"
  "snd_max (cancel_delack t) = snd_max t" "send_window (cancel_delack t) = send_window t"
  "iss (cancel_delack t) = iss t"
  "\<not> has_flag (t_flags (cancel_delack t)) TF_DELACK"
  by (simp_all add: cancel_delack_def send_window_def)

lemma advance_send_frame [simp]:
  "snd_una (advance_send n b t) = snd_una t" "send_window (advance_send n b t) = send_window t"
  "iss (advance_send n b t) = iss t" "t_flags (advance_send n b t) = t_flags t"
  by (simp_all add: advance_send_def Let_def send_window_def)

lemma snd_nxt_advance_send:
  "snd_nxt (advance_send n b t) = snd_nxt t + n + (if b then 1 else 0)"
  by (auto simp: advance_send_def Let_def word_gt_0)

lemma output_data_length_fits:
  assumes "output_data_length t \<noteq> 0"
  shows "state t = TCP_ESTABLISHED"
    and "unat (snd_nxt t - snd_una t) + unat (output_data_length t) \<le> unat (send_window t)"
    and "output_data_length t \<le> buffered_data t"
    and "output_data_length t \<le> MSS"
    and "output_data_length t < MSS \<Longrightarrow> snd_nxt t = snd_una t"
proof -
  define f where "f = snd_nxt t - snd_una t"
  define c where "c = send_window t - f"
  have st: "state t = TCP_ESTABLISHED" and win: "f < send_window t"
    using assms by (auto simp: output_data_length_def Let_def f_def split: if_splits)
  have len: "output_data_length t = min (min (buffered_data t) c) MSS"
    and nagle: "output_data_length t < MSS \<Longrightarrow> f = 0"
    using assms st win
    by (auto simp: output_data_length_def Let_def f_def [symmetric] c_def [symmetric] min_def
        word_gt_0 not_less split: if_splits)
  show "state t = TCP_ESTABLISHED" by (rule st)
  have "unat c = unat (send_window t) - unat f" and "unat f < unat (send_window t)"
    using win by (simp_all add: c_def unat_sub word_less_nat_alt order_less_imp_le)
  moreover have "unat (output_data_length t) \<le> unat c"
    by (simp add: len min_le_iff_disj flip: word_le_nat_alt)
  ultimately show "unat (snd_nxt t - snd_una t) + unat (output_data_length t) \<le> unat (send_window t)"
    by (simp flip: f_def)
  show "output_data_length t \<le> buffered_data t" and "output_data_length t \<le> MSS"
    by (simp_all add: len min_le_iff_disj)
  show "snd_nxt t = snd_una t" if "output_data_length t < MSS"
    using nagle [OF that] by (simp add: f_def)
qed

lemma output_iter_continues:
  assumes "output_iter env flags force t w = Inr (True, n, t', w')"
  shows "output_data_length t \<noteq> 0"
    and "t' = advance_send (output_data_length t)
           (has_flag flags (TH_SYN OR TH_FIN) \<and> snd_nxt t = snd_max t) (cancel_delack t)"
  using assms
  by (auto simp: output_iter_def Let_def rbind_eq_Inr split: if_splits)

lemma in_flight_advance:
  assumes "unat (nxt - una :: u32) + unat n < 4294967296"
  shows "unat (nxt + n - una) = unat (nxt - una) + unat n"
proof -
  have "nxt + n - una = (nxt - una) + n" by simp
  then show ?thesis using unat_add_small32 [OF assms] by (simp only:)
qed

lemma output_iter_room:
  assumes "output_iter env (tcp_outflags (state t)) force t w = Inr (True, n, t', w')"
  shows "unat (snd_nxt t' - snd_una t') = unat (snd_nxt t - snd_una t) + unat (output_data_length t)"
    and "window_room t' < window_room t"
proof -
  note c = output_iter_continues [OF assms]
  note fits = output_data_length_fits [OF c(1)]
  have t': "t' = advance_send (output_data_length t) False (cancel_delack t)"
    using c(2) fits(1) by simp
  have "unat (snd_nxt t - snd_una t) + unat (output_data_length t) < 4294967296"
    using fits(2) unat_lt_pow32 [of "send_window t"] by simp
  then show flight: "unat (snd_nxt t' - snd_una t') =
      unat (snd_nxt t - snd_una t) + unat (output_data_length t)"
    by (simp add: t' snd_nxt_advance_send in_flight_advance)
  have "0 < unat (output_data_length t)" using c(1) by (simp add: unat_gt_0)
  with flight fits(2) show "window_room t' < window_room t"
    by (simp add: window_room_def t')
qed

text \<open>
  The code reads the flags once; the loop does not change the state they depend on.
\<close>

function output_loop :: "env \<Rightarrow> bool \<Rightarrow> int \<Rightarrow> tcb \<Rightarrow> world \<Rightarrow> (int \<times> tcb \<times> world) res" where
  "output_loop env force_send total_bytes_sent tcb w =
     rbind (output_iter env (tcp_outflags (state tcb)) force_send tcb w) (\<lambda>(continue, bytes_sent, tcb', w').
     if continue then output_loop env False (total_bytes_sent + bytes_sent) tcb' w'
     else Inr (total_bytes_sent + bytes_sent, tcb', w'))"
  by pat_completeness auto
termination
  by (relation "measure (\<lambda>(env, force_send, total_bytes_sent, tcb, w). window_room tcb)")
     (auto dest: output_iter_room(2))

declare output_loop.simps [simp del]

definition utcp_output :: "env \<Rightarrow> tcb \<Rightarrow> world \<Rightarrow> (int \<times> tcb \<times> world) res" where
  "utcp_output env tcb w =
     (let force_send = has_flag (t_flags tcb) TF_ACKNOW;
          tcb1 = (if force_send then tcb\<lparr>t_flags := clear_flag (t_flags tcb) TF_ACKNOW\<rparr> else tcb)
      in output_loop env force_send 0 tcb1 w)"

text \<open>The callers ignore the number of bytes.\<close>

definition call_output :: "env \<Rightarrow> st \<Rightarrow> st res" where
  "call_output env s = rbind (utcp_output env (fst s) (snd s)) (\<lambda>(_, tcb, w). Inr (tcb, w))"

definition utcp_retransmit_segment :: "env \<Rightarrow> tcb \<Rightarrow> u32 \<Rightarrow> world \<Rightarrow> (int \<times> world) res" where
  "utcp_retransmit_segment env tcb seq w =
     (if state tcb \<noteq> TCP_ESTABLISHED then Inr (0, w)
      else let flags = tcp_outflags (state tcb);
               data_bytes_sent = (if seq > iss tcb then seq - iss tcb - 1 else 0);
               buffered = (if send_buf_tail tcb > data_bytes_sent
                           then send_buf_tail tcb - data_bytes_sent else 0);
               data_length = (if buffered < MSS then buffered else MSS)
           in utcp_send_segment env tcb seq flags (unat data_length) w)"

section \<open>What goes on the wire\<close>

text \<open>A datagram as the receiving side reads it.\<close>

definition seg_view :: "dgram \<Rightarrow> (tcphdr \<times> u8 list) res" where
  "seg_view d = deserialize_utcp_packet (dg_bytes d) (length (dg_bytes d))"

lemma drop_header_nibble:
  "drop_bit 4 (push_bit 4 x OR (f AND 15)) = (take_bit 4 x :: u8)"
  by (rule bit_word_eqI) (auto simp: bit_simps mask_eq_exp_minus_1 [symmetric, of 4, simplified])

lemma data_offset_segment_header:
  assumes "opts = build_options flags scale a b"
  shows "data_offset (segment_header t seq flags (length opts) win) = 20 + length opts"
  by (simp add: assms data_offset_def segment_header_def drop_header_nibble length_build_options take_bit_eq_mod)

text \<open>
  Sending one segment touches the socket, the clock and the allocator, nothing else; unless the
  allocation fails, exactly one datagram goes to the connection's peer and reads back as the
  header and the payload that were meant.
\<close>

definition same_but_sent :: "world \<Rightarrow> world \<Rightarrow> bool" where
  "same_but_sent w w' \<longleftrightarrow>
     w' = w\<lparr>clock_reads := clock_reads w', mallocs := mallocs w', sent := sent w'\<rparr>"

lemma same_but_sent_trans: "same_but_sent a b \<Longrightarrow> same_but_sent b c \<Longrightarrow> same_but_sent a c"
  unfolding same_but_sent_def by (erule ssubst, erule ssubst) simp

lemma same_but_sent_refl [simp]: "same_but_sent w w"
  by (simp add: same_but_sent_def)

definition is_segment :: "tcb \<Rightarrow> u32 \<Rightarrow> u8 \<Rightarrow> u8 list \<Rightarrow> dgram \<Rightarrow> bool" where
  "is_segment t seq flags payload d \<longleftrightarrow>
     dg_ip d = dst_ip t \<and> dg_port d = dst_udp_port t \<and>
     returns (SET_SCALED_WIN t flags (recv_free_space t)) (\<lambda>win.
       seg_view d = Inr (segment_header t seq flags (if has_flag flags TH_SYN then 16 else 12) win, payload) \<and>
       (\<exists>tsval tsecr. dg_bytes d = hdr_to_bytes (segment_header t seq flags (if has_flag flags TH_SYN then 16 else 12) win) @
          build_options flags (rcv_scale t) tsval tsecr @ payload))"

lemma send_segment_effect:
  assumes "utcp_send_segment env t seq flags n w = Inr (r, w')"
  shows "same_but_sent w w' \<and>
     (r = -1 \<and> sent w' = sent w \<or>
      (\<exists>d payload. sent w' = sent w @ [d] \<and> r = sendto env (length (sent w)) d \<and> r \<noteq> -1 \<and>
         is_segment t seq flags payload d \<and>
         (if n = 0 then payload = []
          else ring_buf_read (send_buf t) SEND_BUF_SIZE (seq - iss t - 1) n = Inr payload)))"
proof -
  obtain now where time: "utcp_get_time_us env w = Inr (now, w\<lparr>clock_reads := Suc (clock_reads w)\<rparr>)"
    using assms by (auto simp: utcp_send_segment_def rbind_eq_Inr dest: utcp_get_time_us_frame)
  define w2 where "w2 = w\<lparr>clock_reads := Suc (clock_reads w), mallocs := Suc (mallocs w)\<rparr>"
  define opts where "opts = build_options flags (rcv_scale t) (ucast now) (ts_recent t)"
  show ?thesis
  proof (cases "malloc env (mallocs w)")
    case False
    with assms time show ?thesis
      by (auto simp: utcp_send_segment_def try_malloc_def same_but_sent_def)
  next
    case True
    with assms time obtain win payload where
      win: "SET_SCALED_WIN t flags (recv_free_space t) = Inr win" and
      payload: "(if n > 0 then ring_buf_read (send_buf t) SEND_BUF_SIZE (seq - iss t - 1) n else Inr []) =
        Inr payload" and
      udp: "pass_to_udp env (hdr_to_bytes (segment_header t seq flags (length opts) win) @ opts @ payload)
        (dst_ip t) (dst_udp_port t) w2 = Inr (r, w')"
      by (auto simp: utcp_send_segment_def try_malloc_def rbind_eq_Inr Let_def w2_def opts_def)
    let ?d = "\<lparr>dg_ip = dst_ip t, dg_port = dst_udp_port t,
      dg_bytes = hdr_to_bytes (segment_header t seq flags (length opts) win) @ opts @ payload\<rparr>"
    have "seg_view ?d = Inr (segment_header t seq flags (length opts) win, payload)"
      using deserialize_segment [OF data_offset_segment_header [OF opts_def], where rest = "[]"]
      by (simp add: seg_view_def add.assoc)
    then have "is_segment t seq flags payload ?d"
      using win by (auto simp: is_segment_def opts_def length_build_options)
    with udp payload show ?thesis
      by (auto simp: pass_to_udp_def err_sys_def w2_def same_but_sent_def Let_def split: if_splits)
  qed
qed

section \<open>Effects of the loop\<close>

text \<open>An invariant of the passes holds when the loop ends.\<close>

lemma output_loop_rule:
  assumes step: "\<And>force t w c n t' w'. I t w \<Longrightarrow>
      output_iter env (tcp_outflags (state t)) force t w = Inr (c, n, t', w') \<Longrightarrow> I t' w'"
    and init: "I t w"
  shows "ensures (output_loop env force k t w) (\<lambda>(_, t', w'). I t' w')"
  using init
proof (induction "window_room t" arbitrary: force k t w rule: less_induct)
  case less
  show ?case
  proof (cases "output_iter env (tcp_outflags (state t)) force t w")
    case (Inl e)
    then show ?thesis by (simp add: output_loop.simps [of env force k t w])
  next
    case (Inr x)
    obtain c n t' w' where x: "output_iter env (tcp_outflags (state t)) force t w = Inr (c, n, t', w')"
      using Inr by (cases x) auto
    have I: "I t' w'" by (rule step [OF less.prems x])
    show ?thesis
    proof (cases c)
      case True
      with x less.hyps [OF output_iter_room(2) I] show ?thesis
        by (simp add: output_loop.simps [of env force k t w])
    next
      case False
      with x I show ?thesis by (simp add: output_loop.simps [of env force k t w])
    qed
  qed
qed

text \<open>Fields of the control block that the send path may write.\<close>

definition same_but_output :: "tcb \<Rightarrow> tcb \<Rightarrow> bool" where
  "same_but_output t t' \<longleftrightarrow>
     t' = t\<lparr>t_flags := t_flags t', t_timer := t_timer t', t_rtt := t_rtt t', t_rtseq := t_rtseq t',
           snd_nxt := snd_nxt t', snd_max := snd_max t'\<rparr>"

lemma same_but_output_refl [simp]: "same_but_output t t"
  by (simp add: same_but_output_def)

lemma same_but_output_trans:
  "same_but_output a b \<Longrightarrow> same_but_output b c \<Longrightarrow> same_but_output a c"
  unfolding same_but_output_def by (erule ssubst, erule ssubst) simp

lemma same_but_output_simps:
  assumes "same_but_output t t'"
  shows "state t' = state t" "iss t' = iss t" "snd_una t' = snd_una t" "snd_wnd t' = snd_wnd t"
    "cwnd t' = cwnd t" "ssthresh t' = ssthresh t" "send_buf t' = send_buf t"
    "send_buf_head t' = send_buf_head t" "send_buf_tail t' = send_buf_tail t"
    "recv_buf t' = recv_buf t" "recv_buf_head t' = recv_buf_head t" "recv_buf_tail t' = recv_buf_tail t"
    "ooo_head t' = ooo_head t" "ooo_bytes t' = ooo_bytes t" "rcv_nxt t' = rcv_nxt t"
    "rcv_scale t' = rcv_scale t" "scale_enabled t' = scale_enabled t" "irs t' = irs t"
    "t_rxtcur t' = t_rxtcur t" "t_rxtshift t' = t_rxtshift t" "cc_ops t' = cc_ops t"
    "ca_state t' = ca_state t" "recover t' = recover t"
  by (insert assms, unfold same_but_output_def) (erule ssubst, simp)+

lemma same_but_output_parts [simp]:
  "same_but_output t (cancel_delack t)" "same_but_output t (advance_send n b t)"
  "same_but_output t (t\<lparr>t_flags := f\<rparr>)"
  by (simp_all add: same_but_output_def cancel_delack_def advance_send_def Let_def)

lemma is_segment_cancel_delack [simp]:
  "is_segment (cancel_delack t) seq flags payload d = is_segment t seq flags payload d"
  by (simp add: is_segment_def cancel_delack_def recv_free_space_def SET_SCALED_WIN_def segment_header_def)

lemma advance_send_0 [simp]: "advance_send 0 False t = t"
  by (simp add: advance_send_def)

lemma send_buf_cancel_delack [simp]: "send_buf (cancel_delack t) = send_buf t"
  by (simp add: cancel_delack_def)

text \<open>The outcomes of one pass.\<close>

lemma output_iter_cases:
  assumes "output_iter env flags force t w = Inr (c, n, t', w')"
  obtains (quiet) "t' = t" "w' = w" "\<not> c" "output_data_length t = 0" "\<not> force"
      "\<not> (has_flag flags (TH_SYN OR TH_FIN) \<and> snd_nxt t = snd_max t)"
    | (failed) r where "t' = cancel_delack t" "\<not> c" "same_but_sent w w'"
      "utcp_send_segment env (cancel_delack t) (snd_nxt t) flags (unat (output_data_length t)) w = Inr (r, w')"
      "r < 0" "sent w' = sent w \<or> (\<exists>d. sent w' = sent w @ [d] \<and> sendto env (length (sent w)) d < -1)"
    | (sent) d payload where
        "t' = advance_send (output_data_length t)
           (has_flag flags (TH_SYN OR TH_FIN) \<and> snd_nxt t = snd_max t) (cancel_delack t)"
        "c \<longleftrightarrow> output_data_length t \<noteq> 0" "same_but_sent w w'" "sent w' = sent w @ [d]"
        "is_segment t (snd_nxt t) flags payload d"
        "if output_data_length t = 0 then payload = []
         else ring_buf_read (send_buf t) SEND_BUF_SIZE (snd_nxt t - iss t - 1)
                (unat (output_data_length t)) = Inr payload"
proof -
  let ?new = "has_flag flags (TH_SYN OR TH_FIN) \<and> snd_nxt t = snd_max t"
  show ?thesis
  proof (cases "output_data_length t = 0 \<and> \<not> ?new \<and> \<not> force")
    case True
    with assms show ?thesis by (intro quiet) (auto simp: output_iter_def)
  next
    case False
    with assms obtain r where
      seg: "utcp_send_segment env (cancel_delack t) (snd_nxt t) flags (unat (output_data_length t)) w = Inr (r, w')"
      and r: "if r < 0 then \<not> c \<and> t' = cancel_delack t
        else c = (output_data_length t \<noteq> 0) \<and> t' = advance_send (output_data_length t) ?new (cancel_delack t)"
      by (auto simp: output_iter_def Let_def rbind_eq_Inr split: if_splits)
    note eff = send_segment_effect [OF seg]
    show ?thesis
    proof (cases "r < 0")
      case True
      with r eff seg show ?thesis by (intro failed) auto
    next
      case False
      with r eff show ?thesis by (auto simp: unat_eq_0 intro: sent split: if_splits)
    qed
  qed
qed

end
