(* ===== verification/Sender.thy ===== *)
theory Sender
  imports Output
begin

text \<open>
  What the send path guarantees: which fields and which part of the surroundings
  \<^verbatim>\<open>utcp_output\<close> may change, that it stays inside the send window and follows Nagle's rule,
  that it returns, that a forced acknowledgement goes out, and that every data segment carries
  the bytes of the application's stream that belong to its sequence number.
\<close>

section \<open>Frame\<close>

definition appended :: "world \<Rightarrow> world \<Rightarrow> dgram list" where
  "appended w w' = drop (length (sent w)) (sent w')"

definition extends :: "world \<Rightarrow> world \<Rightarrow> bool" where
  "extends w w' \<longleftrightarrow> same_but_sent w w' \<and> sent w' = sent w @ appended w w'"

lemma extends_refl [simp]: "extends w w"
  by (simp add: extends_def appended_def)

lemma appended_self [simp]: "appended w w = []"
  by (simp add: appended_def)

lemma extendsI: "same_but_sent w w' \<Longrightarrow> sent w' = sent w @ ds \<Longrightarrow> extends w w' \<and> appended w w' = ds"
  by (simp add: extends_def appended_def)

lemma extends_trans:
  assumes "extends a b" and "extends b c"
  shows "extends a c \<and> appended a c = appended a b @ appended b c"
  using assms by (intro extendsI) (auto simp: extends_def intro: same_but_sent_trans)

text \<open>The passes of the loop as one relation: what holds of every pass holds of the loop.\<close>

lemma output_loop_collect:
  assumes step: "\<And>force t w c n t' w'. J t \<Longrightarrow>
      output_iter env (tcp_outflags (state t)) force t w = Inr (c, n, t', w') \<Longrightarrow>
      J t' \<and> extends w w' \<and> (\<forall>d \<in> set (appended w w'). P d)"
    and init: "J t"
  shows "ensures (output_loop env force k t w)
      (\<lambda>(_, t', w'). J t' \<and> extends w w' \<and> (\<forall>d \<in> set (appended w w'). P d))"
proof (rule output_loop_rule [where I = "\<lambda>t' w'. J t' \<and> extends w w' \<and> (\<forall>d \<in> set (appended w w'). P d)"])
  show "J t \<and> extends w w \<and> (\<forall>d \<in> set (appended w w). P d)" using init by simp
next
  fix force t1 w1 c n t2 w2
  assume 1: "J t1 \<and> extends w w1 \<and> (\<forall>d \<in> set (appended w w1). P d)"
    and 2: "output_iter env (tcp_outflags (state t1)) force t1 w1 = Inr (c, n, t2, w2)"
  from 1 step [OF _ 2] have s: "J t2" "extends w1 w2" "\<forall>d \<in> set (appended w1 w2). P d" by blast+
  with 1 extends_trans [of w w1 w2] show "J t2 \<and> extends w w2 \<and> (\<forall>d \<in> set (appended w w2). P d)"
    by auto
qed

text \<open>Clearing the flag before the loop.\<close>

lemma clear_flag_absent:
  assumes "\<not> has_flag x f"
  shows "clear_flag x f = x"
proof -
  have "x AND f = 0" using assms by (simp add: has_flag_def)
  then show ?thesis
    unfolding clear_flag_def by (auto simp: bit_eq_iff bit_simps)
qed

lemma utcp_output_unfold:
  "utcp_output env t w =
     output_loop env (has_flag (t_flags t) TF_ACKNOW) 0 (t\<lparr>t_flags := clear_flag (t_flags t) TF_ACKNOW\<rparr>) w"
  by (simp add: utcp_output_def clear_flag_absent Let_def)

lemma utcp_output_collect:
  assumes step: "\<And>force t w c n t' w'. J t \<Longrightarrow>
      output_iter env (tcp_outflags (state t)) force t w = Inr (c, n, t', w') \<Longrightarrow>
      J t' \<and> extends w w' \<and> (\<forall>d \<in> set (appended w w'). P d)"
    and init: "J (t\<lparr>t_flags := clear_flag (t_flags t) TF_ACKNOW\<rparr>)"
  shows "ensures (utcp_output env t w)
      (\<lambda>(_, t', w'). J t' \<and> extends w w' \<and> (\<forall>d \<in> set (appended w w'). P d))"
  unfolding utcp_output_unfold by (rule output_loop_collect [where J = J and P = P, OF step init])

lemma output_iter_extends:
  assumes "output_iter env flags force t w = Inr (c, n, t', w')"
  shows "extends w w' \<and> same_but_output t t'"
  using assms
proof (cases rule: output_iter_cases)
  case quiet
  then show ?thesis by simp
next
  case (failed r)
  then show ?thesis using extendsI [of w w' "[]"] extendsI [of w w'] by auto
next
  case (sent d payload)
  then show ?thesis
    using extendsI [of w w' "[d]"] same_but_output_trans [OF same_but_output_parts(1,2)] by simp
qed

lemma utcp_output_frame:
  "ensures (utcp_output env t w) (\<lambda>(_, t', w'). same_but_output t t' \<and> extends w w')"
proof -
  have "ensures (utcp_output env t w)
      (\<lambda>(_, t', w'). same_but_output t t' \<and> extends w w' \<and> (\<forall>d \<in> set (appended w w'). True))"
    by (rule utcp_output_collect) (auto dest: output_iter_extends intro: same_but_output_trans)
  then show ?thesis by (rule ensures_mono) auto
qed

lemma call_output_frame:
  "ensures (call_output env (t, w)) (\<lambda>(t', w'). same_but_output t t' \<and> extends w w')"
  unfolding call_output_def
  by (rule ensures_rbind) (auto intro: ensures_mono [OF utcp_output_frame])

section \<open>Window and Nagle\<close>

lemma length_ring_buf_read: "ring_buf_read ring sz off n = Inr xs \<Longrightarrow> length xs = n"
  by (auto simp: ring_buf_read_def Let_def rbind_eq_Inr dest!: length_mem_read split: if_splits)

text \<open>
  A segment that the window of \<open>t\<close> admits: it acknowledges \<^verbatim>\<open>rcv_nxt\<close>, carries at most
  one MSS, ends inside the smaller of the two windows, and is short only where nothing is in
  flight.
\<close>

definition admitted :: "tcb \<Rightarrow> dgram \<Rightarrow> bool" where
  "admitted t d \<longleftrightarrow> returns (seg_view d) (\<lambda>(h, data).
     th_sport h = src_port t \<and> th_dport h = dst_port t \<and> th_ack h = rcv_nxt t \<and> th_flags h = TH_ACK \<and>
     length data \<le> MSS \<and>
     (data \<noteq> [] \<longrightarrow> unat (th_seq h - snd_una t) + length data \<le> unat (send_window t) \<and>
        (length data < MSS \<longrightarrow> th_seq h = snd_una t)))"

lemma is_segment_view:
  "is_segment t seq flags payload d \<Longrightarrow> returns (seg_view d) (\<lambda>(h, data).
     th_sport h = src_port t \<and> th_dport h = dst_port t \<and> th_seq h = seq \<and> th_ack h = rcv_nxt t \<and>
     th_flags h = flags \<and> data = payload)"
  by (auto simp: is_segment_def returns_def segment_header_def)

lemma sent_admitted:
  assumes "state t = TCP_ESTABLISHED"
    and "is_segment t (snd_nxt t) (tcp_outflags (state t)) payload d"
    and "if output_data_length t = 0 then payload = []
         else ring_buf_read (send_buf t) SEND_BUF_SIZE (snd_nxt t - iss t - 1)
                (unat (output_data_length t)) = Inr payload"
  shows "admitted t d"
proof (cases "output_data_length t = 0")
  case True
  with assms is_segment_view [OF assms(2)] show ?thesis
    by (auto simp: admitted_def returns_def)
next
  case False
  note fits = output_data_length_fits [OF False]
  have len: "length payload = unat (output_data_length t)"
    using assms(3) False by (simp add: length_ring_buf_read)
  have le: "unat (output_data_length t) \<le> MSS"
    using fits(4) by (simp add: word_le_nat_alt)
  have nagle: "unat (output_data_length t) < MSS \<Longrightarrow> snd_nxt t = snd_una t"
    using fits(5) by (simp add: word_less_nat_alt)
  from is_segment_view [OF assms(2)] show ?thesis
    using assms(1) fits(2) len le nagle by (auto simp: admitted_def returns_def)
qed

lemma send_window_cong: "same_but_output t t' \<Longrightarrow> send_window t' = send_window t"
  by (simp add: send_window_def same_but_output_simps)

lemma admitted_cong: "same_but_output t t' \<Longrightarrow> admitted t' d = admitted t d"
  unfolding admitted_def send_window_cong
  by (simp add: send_window_cong same_but_output_simps) (simp add: same_but_output_def, erule ssubst, simp)

lemma output_iter_admitted:
  assumes "state t = TCP_ESTABLISHED" and good: "\<And>k d. - 1 \<le> sendto env k d"
    and "output_iter env (tcp_outflags (state t)) force t w = Inr (c, n, t', w')"
  shows "\<forall>d \<in> set (appended w w'). admitted t d"
  using assms(3)
proof (cases rule: output_iter_cases)
  case quiet
  then show ?thesis by simp
next
  case (failed r)
  then have "sent w' = sent w" using good by (meson not_less)
  then show ?thesis by (simp add: appended_def)
next
  case (sent d payload)
  then have "appended w w' = [d]" using extendsI [of w w' "[d]"] by simp
  with sent sent_admitted [OF assms(1), of payload d] show ?thesis by simp
qed

lemma utcp_output_admitted:
  assumes est: "state t = TCP_ESTABLISHED" and good: "\<And>k d. - 1 \<le> sendto env k d"
  shows "ensures (utcp_output env t w) (\<lambda>(_, t', w'). \<forall>d \<in> set (appended w w'). admitted t d)"
proof -
  have "ensures (utcp_output env t w) (\<lambda>(_, t', w'). same_but_output t t' \<and> extends w w' \<and>
      (\<forall>d \<in> set (appended w w'). admitted t d))"
  proof (rule utcp_output_collect)
    fix force t1 w1 c n t2 w2
    assume J: "same_but_output t t1"
      and it: "output_iter env (tcp_outflags (state t1)) force t1 w1 = Inr (c, n, t2, w2)"
    have "state t1 = TCP_ESTABLISHED" using J est by (simp add: same_but_output_simps)
    from output_iter_admitted [OF this good it] output_iter_extends [OF it] J admitted_cong [OF J]
    show "same_but_output t t2 \<and> extends w1 w2 \<and> (\<forall>d \<in> set (appended w1 w2). admitted t d)"
      by (auto intro: same_but_output_trans)
  qed simp
  then show ?thesis by (rule ensures_mono) auto
qed

text \<open>Bytes in flight after the loop: never more than before, or than the send window.\<close>

definition in_flight :: "tcb \<Rightarrow> nat" where
  "in_flight t = unat (snd_nxt t - snd_una t)"

lemma output_iter_flight:
  assumes "state t = TCP_ESTABLISHED"
    and "output_iter env (tcp_outflags (state t)) force t w = Inr (c, n, t', w')"
  shows "in_flight t' \<le> max (in_flight t) (unat (send_window t))"
  using assms(2)
proof (cases rule: output_iter_cases)
  case quiet
  then show ?thesis by (simp add: in_flight_def)
next
  case (failed r)
  then show ?thesis by (simp add: in_flight_def)
next
  case (sent d payload)
  have t': "t' = advance_send (output_data_length t) False (cancel_delack t)"
    using sent(1) assms(1) by simp
  show ?thesis
  proof (cases "output_data_length t = 0")
    case True
    then show ?thesis by (simp add: t' in_flight_def)
  next
    case False
    with output_iter_room(1) [of env t force w n t' w'] assms sent(2) output_data_length_fits(2) [OF False]
    show ?thesis by (simp add: in_flight_def)
  qed
qed

lemma utcp_output_flight:
  assumes est: "state t = TCP_ESTABLISHED"
  shows "ensures (utcp_output env t w)
      (\<lambda>(_, t', w'). in_flight t' \<le> max (in_flight t) (unat (send_window t)))"
proof -
  let ?J = "\<lambda>t'. same_but_output t t' \<and> in_flight t' \<le> max (in_flight t) (unat (send_window t))"
  have "ensures (utcp_output env t w) (\<lambda>(_, t', w'). ?J t' \<and> extends w w' \<and>
      (\<forall>d \<in> set (appended w w'). True))"
  proof (rule utcp_output_collect)
    fix force t1 w1 c n t2 w2
    assume J: "?J t1"
      and it: "output_iter env (tcp_outflags (state t1)) force t1 w1 = Inr (c, n, t2, w2)"
    have "state t1 = TCP_ESTABLISHED" using same_but_output_simps(1) J est by metis
    from output_iter_flight [OF this it] output_iter_extends [OF it] J
    show "?J t2 \<and> extends w1 w2 \<and> (\<forall>d \<in> set (appended w1 w2). True)"
      by (auto simp: send_window_cong intro: same_but_output_trans)
  qed (simp add: in_flight_def)
  then show ?thesis by (rule ensures_mono) auto
qed

section \<open>The send path returns\<close>

definition can_send :: "tcb \<Rightarrow> bool" where
  "can_send t \<longleftrightarrow> length (send_buf t) = SEND_BUF_SIZE \<and> unat (rcv_scale t) < 32"

lemma can_send_cong: "same_but_output t t' \<Longrightarrow> can_send t' = can_send t"
  by (simp add: can_send_def same_but_output_simps)

lemma SET_SCALED_WIN_returns: "unat (rcv_scale t) < 32 \<Longrightarrow> \<exists>win. SET_SCALED_WIN t flags f = Inr win"
  by (simp add: SET_SCALED_WIN_def)

lemma ring_buf_read_returns:
  "length ring = 1048576 \<Longrightarrow> n \<le> 1048576 \<Longrightarrow> \<exists>xs. ring_buf_read ring 1048576 off n = Inr xs"
  using ring_buf_read_eq [of ring 1048576 n off] by simp

lemma utcp_send_segment_returns:
  assumes "good_env env" and "can_send t" and "n \<le> SEND_BUF_SIZE"
  shows "returns (utcp_send_segment env t seq flags n w) (\<lambda>(r, w'). 0 \<le> r)"
proof -
  obtain now where time: "utcp_get_time_us env w = Inr (now, w\<lparr>clock_reads := Suc (clock_reads w)\<rparr>)"
    using good_env_time [OF assms(1)] by blast
  obtain win where win: "SET_SCALED_WIN t flags (recv_free_space t) = Inr win"
    using assms(2) SET_SCALED_WIN_returns [of t] by (auto simp: can_send_def)
  obtain xs where xs: "(if n > 0 then ring_buf_read (send_buf t) 1048576 (seq - iss t - 1) n else Inr []) = Inr xs"
    using assms(2,3) ring_buf_read_returns [of "send_buf t" n "seq - iss t - 1"]
    by (cases "n > 0") (auto simp: can_send_def)
  show ?thesis
    using assms(1)
    by (simp add: utcp_send_segment_def time try_malloc_def win xs good_env_def pass_to_udp_def Let_def)
qed

lemma output_data_length_le: "output_data_length t \<le> MSS"
  using output_data_length_fits(4) [of t] by (cases "output_data_length t = 0") simp_all

lemma output_iter_returns:
  assumes "good_env env" and "can_send t"
  shows "returns (output_iter env flags force t w) (\<lambda>(c, n, t', w'). can_send t')"
proof -
  have "unat (output_data_length t) \<le> 1048576"
    using output_data_length_le [of t] by (simp add: word_le_nat_alt)
  moreover have "can_send (cancel_delack t)"
    using assms(2) can_send_cong [OF same_but_output_parts(1)] by simp
  ultimately have "returns (utcp_send_segment env (cancel_delack t) (snd_nxt t) flags
      (unat (output_data_length t)) w) (\<lambda>(r, w'). 0 \<le> r)"
    using utcp_send_segment_returns [OF assms(1)] by blast
  then have "\<exists>c n t' w'. output_iter env flags force t w = Inr (c, n, t', w')"
    by (auto simp: output_iter_def Let_def returns_def)
  then show ?thesis
    using output_iter_extends [of env flags force t w] assms(2) can_send_cong by (auto simp: returns_def)
qed

lemma output_loop_returns:
  assumes "good_env env"
  shows "can_send t \<Longrightarrow> returns (output_loop env force k t w) (\<lambda>_. True)"
proof (induction "window_room t" arbitrary: force k t w rule: less_induct)
  case less
  from output_iter_returns [OF assms less.prems, of "tcp_outflags (state t)" force w]
  obtain c n t' w' where it: "output_iter env (tcp_outflags (state t)) force t w = Inr (c, n, t', w')"
    and "can_send t'"
    by (auto simp: returns_def)
  with less.hyps [of t'] output_iter_room(2) [of env t force w n t' w'] show ?case
    by (cases c) (simp_all add: output_loop.simps [of env force k t w])
qed

lemma utcp_output_returns:
  assumes "good_env env" and "can_send t"
  shows "returns (utcp_output env t w) (\<lambda>_. True)"
  unfolding utcp_output_unfold
  using assms can_send_cong [OF same_but_output_parts(3)] by (intro output_loop_returns) simp_all

section \<open>Forced acknowledgements\<close>

definition opens_with :: "tcb \<Rightarrow> dgram \<Rightarrow> bool" where
  "opens_with t d \<longleftrightarrow> returns (seg_view d) (\<lambda>(h, _).
     th_seq h = snd_nxt t \<and> th_ack h = rcv_nxt t \<and> th_flags h = tcp_outflags (state t))"

lemma t_flags_iter:
  assumes "output_iter env flags force t w = Inr (c, n, t', w')"
  shows "t_flags t' = t_flags t \<or> t_flags t' = clear_flag (t_flags t) TF_DELACK"
  using assms by (cases rule: output_iter_cases) (auto simp: cancel_delack_def)

text \<open>Either the force flag or sendable data makes the first pass send a segment.\<close>

lemma sending_iter:
  assumes "good_env env" and "can_send t" and "force \<or> output_data_length t \<noteq> 0"
  obtains c n t' w' d where "output_iter env (tcp_outflags (state t)) force t w = Inr (c, n, t', w')"
    and "appended w w' = [d]" and "extends w w'" and "opens_with t d"
    and "returns (seg_view d) (\<lambda>(_, data). length data = unat (output_data_length t))"
    and "\<not> has_flag (t_flags t') TF_DELACK"
proof -
  have le: "unat (output_data_length t) \<le> 1048576"
    using output_data_length_le [of t] by (simp add: word_le_nat_alt)
  from output_iter_returns [OF assms(1,2), of "tcp_outflags (state t)" force w]
  obtain c n t' w' where it: "output_iter env (tcp_outflags (state t)) force t w = Inr (c, n, t', w')"
    by (auto simp: returns_def)
  from it show ?thesis
  proof (cases rule: output_iter_cases)
    case quiet
    then show ?thesis using assms(3) by simp
  next
    case (failed r)
    have "returns (utcp_send_segment env (cancel_delack t) (snd_nxt t) (tcp_outflags (state t))
        (unat (output_data_length t)) w) (\<lambda>(r, w'). 0 \<le> r)"
      using assms(1,2) le can_send_cong [OF same_but_output_parts(1), of t]
      by (intro utcp_send_segment_returns) simp_all
    with failed(4,5) have False by simp
    then show ?thesis ..
  next
    case (sent d payload)
    have "length payload = unat (output_data_length t)"
      using sent(6) le assms(2) by (auto simp: ring_buf_read_eq can_send_def split: if_splits)
    moreover have "opens_with t d" "returns (seg_view d) (\<lambda>(_, data). length data = length payload)"
      using is_segment_view [OF sent(5)] by (auto simp: opens_with_def returns_def)
    moreover have "appended w w' = [d]" "extends w w'" using extendsI [OF sent(3,4)] by simp_all
    moreover have "\<not> has_flag (t_flags t') TF_DELACK"
      unfolding sent(1) advance_send_frame by (rule cancel_delack_frame)
    ultimately show ?thesis using it by (intro that) auto
  qed
qed

lemma utcp_output_sends:
  assumes "good_env env" and "can_send t" and "has_flag (t_flags t) TF_ACKNOW \<or> output_data_length t \<noteq> 0"
  shows "returns (utcp_output env t w) (\<lambda>(_, t', w').
     \<not> has_flag (t_flags t') TF_ACKNOW \<and> \<not> has_flag (t_flags t') TF_DELACK \<and>
     (\<exists>d ds. appended w w' = d # ds \<and> opens_with t d \<and>
        returns (seg_view d) (\<lambda>(_, data). length data = unat (output_data_length t))))"
proof -
  define t0 where "t0 = t\<lparr>t_flags := clear_flag (t_flags t) TF_ACKNOW\<rparr>"
  define f where "f = has_flag (t_flags t) TF_ACKNOW"
  have "send_window t0 = send_window t" "buffered_data t0 = buffered_data t"
    by (simp_all add: t0_def send_window_def buffered_data_def Let_def)
  then have len: "output_data_length t0 = output_data_length t"
    by (simp add: output_data_length_def) (simp add: t0_def Let_def)
  have "can_send t0" "f \<or> output_data_length t0 \<noteq> 0" using assms(2,3) len by (simp_all add: t0_def can_send_def f_def)
  from sending_iter [OF assms(1) this] obtain c n t1 w1 d where
    it: "output_iter env (tcp_outflags (state t0)) f t0 w = Inr (c, n, t1, w1)" and
    d: "appended w w1 = [d]" "extends w w1" "opens_with t0 d"
      "returns (seg_view d) (\<lambda>(_, data). length data = unat (output_data_length t0))" and
    del: "\<not> has_flag (t_flags t1) TF_DELACK" by metis
  have now: "\<not> has_flag (t_flags t1) TF_ACKNOW"
    using t_flags_iter [OF it] by (auto simp: t0_def)
  let ?I = "\<lambda>t' w'. \<not> has_flag (t_flags t') TF_ACKNOW \<and> \<not> has_flag (t_flags t') TF_DELACK \<and>
     extends w w' \<and> (\<exists>ds. appended w w' = d # ds)"
  have I: "ensures (output_loop env False m t1 w1) (\<lambda>(_, t', w'). ?I t' w')" for m
  proof (rule output_loop_rule)
    show "?I t1 w1" using now del d by simp
  next
    fix force t2 w2 c2 n2 t3 w3
    assume "?I t2 w2" and it2: "output_iter env (tcp_outflags (state t2)) force t2 w2 = Inr (c2, n2, t3, w3)"
    with t_flags_iter [OF it2] output_iter_extends [OF it2] extends_trans [of w w2 w3]
    show "?I t3 w3" by auto
  qed
  have "opens_with t d" using d(3) by (simp add: opens_with_def t0_def)
  then have "ensures (utcp_output env t w) (\<lambda>(_, t', w').
     \<not> has_flag (t_flags t') TF_ACKNOW \<and> \<not> has_flag (t_flags t') TF_DELACK \<and>
     (\<exists>d ds. appended w w' = d # ds \<and> opens_with t d \<and>
        returns (seg_view d) (\<lambda>(_, data). length data = unat (output_data_length t))))"
    using it now del d I [of n] len
    by (auto simp: utcp_output_unfold output_loop.simps [of env f 0] ensures_def f_def [symmetric] simp flip: t0_def)
  with utcp_output_returns [OF assms(1,2), of w] show ?thesis
    by (auto simp: returns_def ensures_def)
qed

section \<open>The stream on the wire\<close>

text \<open>
  Positions in the application's stream: acknowledged, next to send, highest sent, written. The
  SYN takes the first sequence number, so stream position \<open>p\<close> has sequence number
  \<open>iss + 1 + p\<close>.
\<close>

definition seq_pos :: "tcb \<Rightarrow> u32 \<Rightarrow> nat" where
  "seq_pos t seq = unat (seq - iss t - 1)"

definition snd_written :: "tcb \<Rightarrow> nat" where
  "snd_written t = unat (send_buf_tail t)"

text \<open>
  The send buffer holds the stream \<open>S\<close> from the first unacknowledged byte on, and the counters
  agree with the sequence numbers. The initial sequence number is 0 on both sides. The bound on the bytes written is the range in which the code's
  count of bytes sent is right.
\<close>

definition snd_inv :: "(nat \<Rightarrow> u8) \<Rightarrow> tcb \<Rightarrow> bool" where
  "snd_inv S t \<longleftrightarrow>
     iss t = 0 \<and>
     length (send_buf t) = SEND_BUF_SIZE \<and>
     unat (send_buf_head t) = seq_pos t (snd_una t) \<and>
     seq_pos t (snd_una t) \<le> seq_pos t (snd_nxt t) \<and>
     seq_pos t (snd_nxt t) \<le> seq_pos t (snd_max t) \<and>
     seq_pos t (snd_max t) \<le> snd_written t \<and>
     snd_written t - seq_pos t (snd_una t) \<le> SEND_BUF_SIZE \<and>
     snd_written t < 2147483647 \<and>
     ring_contents (send_buf t) (send_buf_head t) (send_buf_tail t) =
       sub_stream S (seq_pos t (snd_una t)) (snd_written t - seq_pos t (snd_una t))"

definition carries :: "(nat \<Rightarrow> u8) \<Rightarrow> u32 \<Rightarrow> dgram \<Rightarrow> bool" where
  "carries S i d \<longleftrightarrow> returns (seg_view d) (\<lambda>(h, data).
     data = sub_stream S (unat (th_seq h - i - 1)) (length data))"

definition acks :: "u32 \<Rightarrow> dgram \<Rightarrow> bool" where
  "acks a d \<longleftrightarrow> returns (seg_view d) (\<lambda>(h, _). th_ack h = a)"

text \<open>A segment of the connection: stream bytes at their place, and the next byte expected.\<close>

definition conveys :: "(nat \<Rightarrow> u8) \<Rightarrow> tcb \<Rightarrow> dgram \<Rightarrow> bool" where
  "conveys S t d \<longleftrightarrow> carries S (iss t) d \<and> acks (rcv_nxt t) d"

lemma seq_pos_seq: "iss t + 1 + of_nat (seq_pos t q) = q"
  by (simp add: seq_pos_def)

lemma SEQ_GT_iss:
  assumes "seq_pos t q < 2147483647"
  shows "SEQ_GT q (iss t)"
proof -
  have "SEQ_GT (iss t + of_nat (Suc (seq_pos t q))) (iss t + of_nat 0)"
    using assms by (subst SEQ_offsets) auto
  then show ?thesis using seq_pos_seq [of t q] by (simp add: add.assoc)
qed

lemma snd_inv_buffered:
  assumes "snd_inv S t"
  shows "unat (buffered_data t) = snd_written t - seq_pos t (snd_nxt t)"
proof -
  have "SEQ_GT (snd_nxt t) (iss t)"
    using assms by (intro SEQ_GT_iss) (simp add: snd_inv_def)
  then show ?thesis
    by (auto simp: buffered_data_def snd_written_def seq_pos_def Let_def word_less_nat_alt
        unat_sub word_le_nat_alt)
qed

lemma snd_inv_read:
  assumes inv: "snd_inv S t" and lo: "seq_pos t (snd_una t) \<le> seq_pos t q"
    and hi: "seq_pos t q + n \<le> snd_written t"
  shows "ring_buf_read (send_buf t) SEND_BUF_SIZE (q - iss t - 1) n = Inr (sub_stream S (seq_pos t q) n)"
proof -
  define A where "A = seq_pos t (snd_una t)"
  define W where "W = snd_written t"
  have "unat (send_buf_head t) = A" using inv by (simp add: snd_inv_def A_def)
  then have head: "send_buf_head t = of_nat A" by auto
  have tail: "send_buf_tail t = of_nat W" by (simp add: W_def snd_written_def)
  have AW: "A \<le> W" "W - A \<le> 1048576" "W < 2147483647" and
    cont: "ring_contents (send_buf t) (send_buf_head t) (send_buf_tail t) = sub_stream S A (W - A)"
    using inv by (auto simp: snd_inv_def A_def W_def)
  have used: "unat (send_buf_tail t - send_buf_head t) = W - A"
    using AW by (simp add: head tail unat_of_nat32 flip: of_nat_diff)
  have off: "q - iss t - 1 = send_buf_head t + of_nat (seq_pos t q - A)"
    using lo by (simp add: head A_def seq_pos_def of_nat_diff)
  have "ring_buf_read (send_buf t) 1048576 (send_buf_head t + of_nat (seq_pos t q - A)) n =
      Inr (take n (drop (seq_pos t q - A) (sub_stream S A (W - A))))"
    using inv AW used hi lo
    by (subst ring_read_contents [where tail = "send_buf_tail t"]) (auto simp: cont snd_inv_def A_def W_def)
  also have "take n (drop (seq_pos t q - A) (sub_stream S A (W - A))) = sub_stream S (seq_pos t q) n"
    using lo hi by (simp add: drop_sub_stream take_sub_stream A_def W_def)
  finally show ?thesis by (simp only: off)
qed

lemma snd_inv_cong:
  assumes "same_but_output t t'" and "snd_nxt t' = snd_nxt t" and "snd_max t' = snd_max t"
  shows "snd_inv S t' = snd_inv S t"
  using assms by (simp add: snd_inv_def seq_pos_def snd_written_def same_but_output_simps [OF assms(1)])

lemma seq_pos_advance:
  assumes "seq_pos t q + unat n < 4294967296"
  shows "seq_pos t (q + n) = seq_pos t q + unat n"
proof -
  have "q + n - iss t - 1 = (q - iss t - 1) + n" by simp
  moreover have "unat ((q - iss t - 1) + n) = unat (q - iss t - 1) + unat n"
    using assms by (intro unat_add_small32) (simp add: seq_pos_def)
  ultimately show ?thesis by (simp only: seq_pos_def)
qed

lemma snd_inv_fits:
  assumes inv: "snd_inv S t" and n: "output_data_length t \<noteq> 0"
  shows "seq_pos t (snd_nxt t) + unat (output_data_length t) \<le> snd_written t"
proof -
  have "seq_pos t (snd_nxt t) \<le> snd_written t" using inv by (auto simp: snd_inv_def)
  moreover have "unat (output_data_length t) \<le> snd_written t - seq_pos t (snd_nxt t)"
    using output_data_length_fits(3) [OF n] snd_inv_buffered [OF inv] by (simp add: word_le_nat_alt)
  ultimately show ?thesis by simp
qed

lemma snd_inv_advance:
  assumes inv: "snd_inv S t" and n: "n = output_data_length t" "n \<noteq> 0"
  shows "snd_inv S (advance_send n False (cancel_delack t))"
proof -
  define t' where "t' = advance_send n False (cancel_delack t)"
  have same: "same_but_output t t'"
    using same_but_output_trans [OF same_but_output_parts(1,2)] by (simp add: t'_def)
  note eqs = same_but_output_simps [OF same]
  have nxt: "snd_nxt t' = snd_nxt t + n" by (simp add: t'_def snd_nxt_advance_send)
  have max: "snd_max t' = (if SEQ_GT (snd_nxt t + n) (snd_max t) then snd_nxt t + n else snd_max t)"
    using n(2) by (simp add: t'_def advance_send_def cancel_delack_def Let_def word_gt_0)
  let ?X = "seq_pos t (snd_nxt t)" and ?M = "seq_pos t (snd_max t)"
  have le: "?X + unat n \<le> snd_written t"
    using snd_inv_fits [OF inv] n by simp
  have W: "snd_written t < 2147483647" and XM: "?X \<le> ?M" "?M \<le> snd_written t"
    using inv by (simp_all add: snd_inv_def)
  have X': "seq_pos t (snd_nxt t + n) = ?X + unat n"
    using le W by (intro seq_pos_advance) simp
  have "SEQ_GT (snd_nxt t + n) (snd_max t) \<longleftrightarrow> ?X + unat n > ?M"
  proof -
    have "snd_nxt t + n = iss t + 1 + of_nat (?X + unat n)"
      using seq_pos_seq [of t "snd_nxt t + n"] X' by simp
    moreover have "snd_max t = iss t + 1 + of_nat ?M" using seq_pos_seq [of t "snd_max t"] by simp
    ultimately show ?thesis
      using le W XM SEQ_offsets(3) [of "?X + unat n" ?M "iss t + 1"] by (simp only:)
  qed
  then have "seq_pos t (snd_max t') = max ?M (?X + unat n)"
    by (auto simp: max X')
  moreover have "seq_pos t' = seq_pos t" "snd_written t' = snd_written t"
    by (simp_all add: fun_eq_iff seq_pos_def snd_written_def eqs)
  ultimately have "snd_inv S t'"
    using inv le X' XM by (simp add: snd_inv_def eqs nxt)
  then show ?thesis by (simp add: t'_def)
qed

lemma output_iter_stream:
  assumes inv: "snd_inv S t" and est: "state t = TCP_ESTABLISHED" and good: "\<And>k d. - 1 \<le> sendto env k d"
    and it: "output_iter env (tcp_outflags (state t)) force t w = Inr (c, n, t', w')"
  shows "snd_inv S t' \<and> (\<forall>d \<in> set (appended w w'). conveys S t d)"
  using it
proof (cases rule: output_iter_cases)
  case quiet
  then show ?thesis using inv by simp
next
  case (failed r)
  then have "sent w' = sent w" using good by (meson not_less)
  then show ?thesis
    using failed inv snd_inv_cong [OF same_but_output_parts(1)] by (simp add: appended_def)
next
  case (sent d payload)
  let ?n = "output_data_length t"
  have t': "t' = advance_send ?n False (cancel_delack t)" using sent(1) est by simp
  have app: "appended w w' = [d]" using extendsI [OF sent(3,4)] by simp
  show ?thesis
  proof (cases "?n = 0")
    case True
    with sent(5,6) is_segment_view [OF sent(5)] have "conveys S t d"
      by (auto simp: conveys_def carries_def acks_def returns_def)
    with True inv snd_inv_cong [OF same_but_output_parts(1)] show ?thesis by (simp add: app t')
  next
    case False
    have "payload = sub_stream S (seq_pos t (snd_nxt t)) (unat ?n)"
      using sent(6) False snd_inv_read [OF inv _ snd_inv_fits [OF inv False]] inv by (simp add: snd_inv_def)
    with is_segment_view [OF sent(5)] have "conveys S t d"
      by (auto simp: conveys_def carries_def acks_def returns_def seq_pos_def)
    with snd_inv_advance [OF inv refl False] show ?thesis by (simp add: app t')
  qed
qed

lemma utcp_output_stream:
  assumes inv: "snd_inv S t" and est: "state t = TCP_ESTABLISHED" and good: "\<And>k d. - 1 \<le> sendto env k d"
  shows "ensures (utcp_output env t w)
      (\<lambda>(_, t', w'). snd_inv S t' \<and> (\<forall>d \<in> set (appended w w'). conveys S t d))"
proof -
  let ?J = "\<lambda>t'. same_but_output t t' \<and> snd_inv S t'"
  have "ensures (utcp_output env t w) (\<lambda>(_, t', w'). ?J t' \<and> extends w w' \<and>
      (\<forall>d \<in> set (appended w w'). conveys S t d))"
  proof (rule utcp_output_collect)
    fix force t1 w1 c n t2 w2
    assume J: "?J t1"
      and it: "output_iter env (tcp_outflags (state t1)) force t1 w1 = Inr (c, n, t2, w2)"
    have st: "state t1 = TCP_ESTABLISHED" using same_but_output_simps(1) J est by metis
    have "conveys S t1 d = conveys S t d" for d
      using J by (simp add: conveys_def same_but_output_simps [of t t1])
    with output_iter_stream [OF _ st good it, of S] output_iter_extends [OF it] J
    show "?J t2 \<and> extends w1 w2 \<and> (\<forall>d \<in> set (appended w1 w2). conveys S t d)"
      by (auto intro: same_but_output_trans)
  next
    show "?J (t\<lparr>t_flags := clear_flag (t_flags t) TF_ACKNOW\<rparr>)"
      using inv snd_inv_cong [OF same_but_output_parts(3)] by simp
  qed
  then show ?thesis by (rule ensures_mono) auto
qed

section \<open>Retransmission of one segment\<close>

lemma utcp_retransmit_extends:
  "ensures (utcp_retransmit_segment env t q w) (\<lambda>(_, w'). extends w w')"
  using send_segment_effect [of env t q "tcp_outflags (state t)"] extendsI
  by (fastforce simp: utcp_retransmit_segment_def ensures_def Let_def)

lemma utcp_retransmit_returns:
  assumes "good_env env" and "can_send t"
  shows "returns (utcp_retransmit_segment env t q w) (\<lambda>_. True)"
proof -
  have "returns (utcp_send_segment env t q flags (unat (if b < (MSS :: u32) then b else MSS)) w) (\<lambda>_. True)"
    for b flags
    using utcp_send_segment_returns [OF assms, of "unat (if b < MSS then b else MSS)" q flags w]
    by (auto simp: word_less_nat_alt returns_def)
  then show ?thesis by (simp add: utcp_retransmit_segment_def Let_def)
qed

text \<open>
  The segment that is sent again starts at the requested byte and carries the stream from there:
  up to one MSS, or what has been written.
\<close>

definition resends :: "(nat \<Rightarrow> u8) \<Rightarrow> tcb \<Rightarrow> u32 \<Rightarrow> dgram \<Rightarrow> bool" where
  "resends S t q d \<longleftrightarrow> returns (seg_view d) (\<lambda>(h, data). th_seq h = q \<and> th_ack h = rcv_nxt t \<and>
     data = sub_stream S (seq_pos t q) (min MSS (snd_written t - seq_pos t q)))"

lemma resends_conveys: "resends S t q d \<Longrightarrow> conveys S t d"
  by (auto simp: resends_def conveys_def carries_def acks_def returns_def seq_pos_def)

lemma utcp_retransmit_stream:
  assumes inv: "snd_inv S t" and est: "state t = TCP_ESTABLISHED" and good: "\<And>k d. - 1 \<le> sendto env k d"
    and lo: "seq_pos t (snd_una t) \<le> seq_pos t q" and hi: "seq_pos t q \<le> snd_written t"
  shows "ensures (utcp_retransmit_segment env t q w) (\<lambda>(r, w'). \<forall>d \<in> set (appended w w'). resends S t q d)"
proof -
  let ?p = "seq_pos t q"
  define n where "n = unat (if send_buf_tail t > of_nat ?p
      then (if send_buf_tail t - of_nat ?p < MSS then send_buf_tail t - of_nat ?p else MSS) else 0)"
  have iss: "iss t = 0" and W: "snd_written t < 2147483647" using inv by (simp_all add: snd_inv_def)
  have q: "q = 1 + of_nat ?p" using seq_pos_seq [of t q] by (simp add: iss)
  have p: "unat (of_nat ?p :: u32) = ?p" using hi W by (simp add: unat_of_nat32)
  have "unat q = Suc ?p" using hi W by (subst q) (simp add: unat_add_small32 p)
  then have "q > 0" by (simp add: word_less_nat_alt)
  then have eq: "utcp_retransmit_segment env t q w = utcp_send_segment env t q (tcp_outflags (state t)) n w"
    using est by (simp add: utcp_retransmit_segment_def iss n_def seq_pos_def Let_def)
  have n: "n = min 1400 (snd_written t - ?p)"
    using hi p by (auto simp: n_def snd_written_def word_less_nat_alt unat_sub word_le_nat_alt min_def)
  have rd: "ring_buf_read (send_buf t) 1048576 (q - iss t - 1) n = Inr (sub_stream S ?p n)"
    using hi by (intro snd_inv_read [OF inv lo]) (simp add: n)
  show ?thesis
    unfolding eq ensures_def
  proof (safe)
    fix r w' d
    assume seg: "utcp_send_segment env t q (tcp_outflags (state t)) n w = Inr (r, w')"
      and d: "d \<in> set (appended w w')"
    from send_segment_effect [OF seg] d obtain payload where
      "is_segment t q (tcp_outflags (state t)) payload d" and
      "if n = 0 then payload = [] else ring_buf_read (send_buf t) 1048576 (q - iss t - 1) n = Inr payload"
      by (auto simp: appended_def)
    with rd is_segment_view [of t q "tcp_outflags (state t)" payload d] show "resends S t q d"
      by (auto simp: resends_def returns_def n split: if_splits)
  qed
qed

lemma utcp_retransmit_sends:
  assumes "good_env env" and "can_send t" and est: "state t = TCP_ESTABLISHED"
  shows "returns (utcp_retransmit_segment env t q w) (\<lambda>(_, w'). \<exists>d. appended w w' = [d])"
proof -
  define b where "b = (let sent_bytes = (if q > iss t then q - iss t - 1 else 0);
      buffered = (if send_buf_tail t > sent_bytes then send_buf_tail t - sent_bytes else 0)
    in if buffered < MSS then buffered else MSS)"
  have eq: "utcp_retransmit_segment env t q w = utcp_send_segment env t q (tcp_outflags (state t)) (unat b) w"
    by (simp add: utcp_retransmit_segment_def est b_def Let_def)
  have "unat b \<le> SEND_BUF_SIZE"
    by (auto simp: b_def Let_def word_less_nat_alt)
  from utcp_send_segment_returns [OF assms(1,2) this, of q "tcp_outflags (state t)" w]
  obtain r w' where seg: "utcp_send_segment env t q (tcp_outflags (state t)) (unat b) w = Inr (r, w')" and "0 \<le> r"
    by (auto simp: returns_def)
  then show ?thesis
    using send_segment_effect [OF seg] by (auto simp: eq appended_def)
qed

section \<open>A connection in the middle of a transfer\<close>

text \<open>
  Three full segments of zero bytes written and sent, none acknowledged: the state concrete runs
  start from.
\<close>

definition sample_tcb :: tcb where
  "sample_tcb = (calloc_tcb utcp_new_reno)\<lparr>state := TCP_ESTABLISHED, snd_una := 1, snd_nxt := 4201,
     snd_max := 4201, rcv_nxt := 1, snd_wnd := 1048576, cwnd := 4200, ssthresh := 0xFFFFFFFF,
     t_rxtcur := 100, send_buf_tail := 4200, rcv_scale := 5\<rparr>"

lemma zero_ring_contents:
  "ring_contents (zero_bytes n) head tail = sub_stream (\<lambda>_. 0) p (unat (tail - head))"
  if "0 < n"
  using that by (auto simp: ring_contents_def sub_stream_def zero_bytes_def)

lemma sample_inv: "snd_inv (\<lambda>_. 0) sample_tcb"
  using zero_ring_contents [of 1048576 0 4200 0]
  by (simp add: snd_inv_def sample_tcb_def seq_pos_def snd_written_def)

lemma sample_simps [simp]:
  "state sample_tcb = TCP_ESTABLISHED" "unat (rcv_scale sample_tcb) < 32" "can_send sample_tcb"
  "snd_una sample_tcb = 1" "snd_nxt sample_tcb = 4201" "snd_max sample_tcb = 4201" "iss sample_tcb = 0"
  "recover sample_tcb = 0" "cwnd sample_tcb = 4200" "ssthresh sample_tcb = 0xFFFFFFFF"
  by (simp_all add: sample_tcb_def can_send_def)

section \<open>Properties\<close>

text \<open>
  C10: The output routine of an established connection puts only admissible segments on the wire: each carries the
  current acknowledgement number and ports, at most one MSS, fits entirely in the send window
  (the smaller of peer window and congestion window), and by Nagle's rule a
  partial segment goes out only when nothing is in flight.
\<close>

theorem output_respects_window:
  assumes "state t = TCP_ESTABLISHED" and "\<And>k d. - 1 \<le> sendto env k d"
  shows "ensures (utcp_output env t w) (\<lambda>(_, t', w'). \<forall>d \<in> set (appended w w'). returns (seg_view d) (\<lambda>(h, data).
     th_sport h = src_port t \<and> th_dport h = dst_port t \<and> th_ack h = rcv_nxt t \<and> th_flags h = TH_ACK \<and>
     length data \<le> MSS \<and>
     (data \<noteq> [] \<longrightarrow> unat (th_seq h - snd_una t) + length data \<le> min (unat (snd_wnd t)) (unat (cwnd t)) \<and>
        (length data < MSS \<longrightarrow> th_seq h = snd_una t))))"
proof -
  have "unat (send_window t) = min (unat (snd_wnd t)) (unat (cwnd t))"
    by (auto simp: send_window_def word_less_nat_alt)
  then show ?thesis using utcp_output_admitted [OF assms, of w] by (simp only: admitted_def)
qed

theorem output_respects_window_witness:
  "ensures (utcp_output env0 sample_tcb world0) (\<lambda>(_, t', w'). \<forall>d \<in> set (appended world0 w').
     returns (seg_view d) (\<lambda>(h, data). th_ack h = 1 \<and> length data \<le> MSS))"
proof -
  have "- 1 \<le> sendto env0 k d" for k d by (simp add: env0_def)
  from output_respects_window [OF sample_simps(1) this, of world0] show ?thesis
    by (auto simp: ensures_def sample_tcb_def elim!: returns_mono)
qed

text \<open>
  C9: Every datagram of the output routine carries the application's bytes at their sequence
  numbers and the acknowledgement of the next byte expected, and the send buffer stays in step with the stream.
\<close>

theorem output_sends_stream:
  assumes "snd_inv S t" and "state t = TCP_ESTABLISHED" and "\<And>k d. - 1 \<le> sendto env k d"
  shows "ensures (utcp_output env t w) (\<lambda>(_, t', w'). snd_inv S t' \<and>
     (\<forall>d \<in> set (appended w w'). conveys S t d) \<and>
     in_flight t' \<le> max (in_flight t) (min (unat (snd_wnd t)) (unat (cwnd t))))"
proof -
  have "unat (send_window t) = min (unat (snd_wnd t)) (unat (cwnd t))"
    by (auto simp: send_window_def word_less_nat_alt)
  then show ?thesis
    using utcp_output_stream [OF assms, of w] utcp_output_flight [OF assms(2), of env w]
    by (auto simp: ensures_def)
qed

theorem output_sends_stream_witness:
  "ensures (utcp_output env0 sample_tcb world0) (\<lambda>(_, t', w'). snd_inv (\<lambda>_. 0) t' \<and>
     (\<forall>d \<in> set (appended world0 w'). carries (\<lambda>_. 0) 0 d \<and> acks 1 d) \<and> in_flight t' \<le> 4200)"
proof -
  have "- 1 \<le> sendto env0 k d" for k d by (simp add: env0_def)
  from output_sends_stream [OF sample_inv sample_simps(1) this, of world0] show ?thesis
    by (auto simp: ensures_def in_flight_def sample_tcb_def conveys_def)
qed

text \<open>
  C11: The output loop always ends; with a working clock, allocator and socket it also succeeds, and
  if an acknowledgement was demanded (\<^verbatim>\<open>TF_ACKNOW\<close>) or data may be sent, a segment with the current sequence and
  acknowledgement numbers goes out first and nothing stays pending.
\<close>

theorem output_acknowledges:
  assumes "good_env env" and "can_send t" and "has_flag (t_flags t) TF_ACKNOW \<or> output_data_length t \<noteq> 0"
  shows "returns (utcp_output env t w) (\<lambda>(_, t', w').
     \<not> has_flag (t_flags t') TF_ACKNOW \<and> \<not> has_flag (t_flags t') TF_DELACK \<and>
     (\<exists>d ds. appended w w' = d # ds \<and> returns (seg_view d) (\<lambda>(h, data).
        th_seq h = snd_nxt t \<and> th_ack h = rcv_nxt t \<and> th_flags h = tcp_outflags (state t) \<and>
        length data = unat (output_data_length t))))"
  by (rule returns_mono [OF utcp_output_sends [OF assms]]) (auto simp: opens_with_def returns_def)

theorem output_acknowledges_witness:
  "returns (utcp_output env0 (sample_tcb\<lparr>t_flags := TF_ACKNOW\<rparr>) world0) (\<lambda>(_, t', w').
     \<not> has_flag (t_flags t') TF_ACKNOW \<and>
     (\<exists>d ds. appended world0 w' = d # ds \<and> returns (seg_view d) (\<lambda>(h, _). th_seq h = 4201 \<and> th_ack h = 1)))"
  using output_acknowledges [OF good_env0, of "sample_tcb\<lparr>t_flags := TF_ACKNOW\<rparr>" world0]
  by (auto simp: can_send_def sample_tcb_def returns_def has_flag_def [of 1])

text \<open>
  A retransmission sends exactly one segment, from the requested byte on: the stream from there,
  up to one MSS or what has been written.
\<close>

theorem retransmit_resends:
  assumes "good_env env" and "snd_inv S t" and "state t = TCP_ESTABLISHED" and "unat (rcv_scale t) < 32"
    and "seq_pos t (snd_una t) \<le> seq_pos t q" and "seq_pos t q \<le> snd_written t"
  shows "returns (utcp_retransmit_segment env t q w) (\<lambda>(_, w'). \<exists>d. appended w w' = [d] \<and>
     returns (seg_view d) (\<lambda>(h, data). th_seq h = q \<and> th_ack h = rcv_nxt t \<and>
       data = sub_stream S (seq_pos t q) (min MSS (snd_written t - seq_pos t q))))"
proof -
  have "can_send t" using assms(2,4) by (simp add: can_send_def snd_inv_def)
  moreover have "- 1 \<le> sendto env k d" for k d using assms(1) by (simp add: good_env_def)
  ultimately show ?thesis
    using utcp_retransmit_sends [OF assms(1) _ assms(3), of q w] utcp_retransmit_stream [OF assms(2,3) _ assms(5,6), of env w]
    by (auto simp: resends_def returns_def ensures_def)
qed

theorem retransmit_resends_witness:
  "returns (utcp_retransmit_segment env0 sample_tcb 1401 world0) (\<lambda>(_, w'). \<exists>d. appended world0 w' = [d] \<and>
     returns (seg_view d) (\<lambda>(h, data). th_seq h = 1401 \<and> th_ack h = 1 \<and> data = sub_stream (\<lambda>_. 0) 1400 MSS))"
  using retransmit_resends [OF good_env0 sample_inv sample_simps(1,2), of 1401 world0]
  by (simp add: seq_pos_def snd_written_def sample_tcb_def)

end
