(* ===== verification/Logger.thy ===== *)
theory Logger
  imports Utcp_World
begin

text \<open>
  The LSTM side channel: \<^verbatim>\<open>src/utcp/cc/lstm_client.c\<close> (the socket to the inference server and the
  flag it raises) and \<^verbatim>\<open>src/utcp/cc/logger.c\<close> (one row of features per congestion event). The
  lemmas show that logging leaves the protocol alone, and what the flag and the features are.
\<close>

section \<open>Client of the inference server\<close>

text \<open>
  The outcomes of \<^verbatim>\<open>socket\<close>, \<^verbatim>\<open>connect\<close> and the two \<^verbatim>\<open>fcntl\<close> calls are arguments.
\<close>

definition lstm_client_init :: "int \<Rightarrow> int \<Rightarrow> int \<Rightarrow> int \<Rightarrow> world \<Rightarrow> int \<times> world" where
  "lstm_client_init sock conn getfl setfl w =
     (let w = w\<lparr>g_sock := sock\<rparr> in
      if g_sock w < 0 then (-1, w)
      else if conn < 0 then (-1, w\<lparr>g_sock := -1\<rparr>)
      else if getfl < 0 \<or> setfl < 0 then (-1, w\<lparr>g_sock := -1\<rparr>)
      else (0, w))"

text \<open>The loop over \<^verbatim>\<open>recv\<close>: each pending byte overwrites the flag.\<close>

fun drain_fired :: "u8 list \<Rightarrow> bool \<Rightarrow> bool" where
  "drain_fired [] fired = fired"
| "drain_fired (b # bs) fired = drain_fired bs (b \<noteq> 0)"

definition lstm_client_send_row :: "env \<Rightarrow> lstm_row \<Rightarrow> world \<Rightarrow> world" where
  "lstm_client_send_row env row w =
     (if g_sock w < 0 then w
      else w\<lparr>g_fired := drain_fired (lstm_recv env (lstm_drains w)) (g_fired w),
             lstm_drains := Suc (lstm_drains w),
             lstm_sent := lstm_sent w @ [row]\<rparr>)"

definition lstm_client_fired :: "world \<Rightarrow> bool" where
  "lstm_client_fired w = g_fired w"

definition lstm_client_close :: "world \<Rightarrow> world" where
  "lstm_client_close w = (if g_sock w \<ge> 0 then w\<lparr>g_sock := -1\<rparr> else w)"

section \<open>Feature rows\<close>

definition SSTHRESH_CAP :: u32 where
  "SSTHRESH_CAP = 1050000"

definition rtt_delta :: "tcb \<Rightarrow> u32 \<Rightarrow> i32" where
  "rtt_delta tcb rtt_us =
     (if rtt_us > 0 \<and> lstm_prev_rtt_us tcb > 0 then rtt_us - lstm_prev_rtt_us tcb else 0)"

definition rto_in_us :: "tcb \<Rightarrow> u32" where
  "rto_in_us tcb = t_rxtcur tcb * TCP_TICK_MS * 1000"

text \<open>The features of an event, from the block as it is before the tracking fields advance.\<close>

definition lstm_features :: "tcb \<Rightarrow> u64 \<Rightarrow> u32 \<Rightarrow> u32 \<Rightarrow> bool \<Rightarrow> bool \<Rightarrow> lstm_row" where
  "lstm_features tcb now_us rtt_us newly_acked is_dup_ack is_timeout =
     \<lparr>row_ts_us = now_us,
      row_rtt_us = rtt_us,
      row_srtt_us = drop_bit 3 (t_srtt tcb) * TCP_TICK_MS * 1000,
      row_rttvar_us = drop_bit 2 (t_rttvar tcb) * TCP_TICK_MS * 1000,
      row_rto_us = rto_in_us tcb,
      row_min_rtt_us = min_rtt_seen_us tcb,
      row_queue_delay_us =
        (if rtt_us > 0 \<and> min_rtt_seen_us tcb > 0 \<and> ucast rtt_us > min_rtt_seen_us tcb
         then ucast rtt_us - min_rtt_seen_us tcb else 0),
      row_rtt_delta_us = rtt_delta tcb rtt_us,
      row_rtt_accel_us = rtt_delta tcb rtt_us - lstm_prev_rtt_delta_us tcb,
      row_rto_delta_us = rto_in_us tcb - lstm_prev_rto_us tcb,
      row_cwnd = cwnd tcb,
      row_ssthresh = (if ssthresh tcb > SSTHRESH_CAP then SSTHRESH_CAP else ssthresh tcb),
      row_snd_wnd = snd_wnd tcb,
      row_flight_size = snd_nxt tcb - snd_una tcb,
      row_newly_acked = newly_acked,
      row_inter_ack_us = (if lstm_last_ts_us tcb > 0 then now_us - lstm_last_ts_us tcb else 0),
      row_ca_state = ca_state tcb,
      row_t_dupacks = t_dupacks tcb,
      row_t_rxtshift = t_rxtshift tcb,
      row_is_dup_ack = is_dup_ack,
      row_is_timeout = is_timeout\<rparr>"

definition lstm_track :: "tcb \<Rightarrow> u64 \<Rightarrow> u32 \<Rightarrow> tcb" where
  "lstm_track tcb now_us rtt_us =
     (let d = rtt_delta tcb rtt_us;
          tcb = tcb\<lparr>lstm_last_ts_us := now_us\<rparr>;
          tcb = (if rtt_us > 0 then tcb\<lparr>lstm_prev_rtt_delta_us := d, lstm_prev_rtt_us := rtt_us\<rparr> else tcb)
      in tcb\<lparr>lstm_prev_rto_us := rto_in_us tcb\<rparr>)"

definition log_lstm_event :: "env \<Rightarrow> tcb \<Rightarrow> u32 \<Rightarrow> u32 \<Rightarrow> bool \<Rightarrow> bool \<Rightarrow> world \<Rightarrow> st res" where
  "log_lstm_event env tcb rtt_us newly_acked is_dup_ack is_timeout w =
     (if \<not> lstm_logger w then Inr (tcb, w)
      else rbind (utcp_get_time_us env w) (\<lambda>(now_us, w).
        let row = lstm_features tcb now_us rtt_us newly_acked is_dup_ack is_timeout;
            tcb = lstm_track tcb now_us rtt_us;
            w = lstm_client_send_row env row (w\<lparr>lstm_rows := lstm_rows w @ [row]\<rparr>)
        in Inr (tcb\<lparr>lstm_prev_fired := (if lstm_client_fired w then 1 else 0)\<rparr>, w)))"

section \<open>What logging leaves alone\<close>

definition same_but_lstm :: "tcb \<Rightarrow> tcb \<Rightarrow> bool" where
  "same_but_lstm t t' \<longleftrightarrow>
     t' = t\<lparr>lstm_last_ts_us := lstm_last_ts_us t', lstm_prev_rtt_us := lstm_prev_rtt_us t',
           lstm_prev_rto_us := lstm_prev_rto_us t', lstm_prev_rtt_delta_us := lstm_prev_rtt_delta_us t',
           lstm_prev_fired := lstm_prev_fired t'\<rparr>"

definition same_but_rows :: "world \<Rightarrow> world \<Rightarrow> bool" where
  "same_but_rows w w' \<longleftrightarrow>
     w' = w\<lparr>clock_reads := clock_reads w', lstm_rows := lstm_rows w', g_fired := g_fired w',
           lstm_drains := lstm_drains w', lstm_sent := lstm_sent w'\<rparr>"

lemma same_but_lstm_simps:
  assumes "same_but_lstm t t'"
  shows "state t' = state t" "iss t' = iss t" "irs t' = irs t" "snd_una t' = snd_una t" "snd_nxt t' = snd_nxt t"
    "snd_max t' = snd_max t" "snd_wnd t' = snd_wnd t" "cwnd t' = cwnd t" "ssthresh t' = ssthresh t"
    "ca_state t' = ca_state t" "cc_ops t' = cc_ops t" "t_timer t' = t_timer t" "t_rxtshift t' = t_rxtshift t"
    "t_rxtcur t' = t_rxtcur t" "t_flags t' = t_flags t" "t_dupacks t' = t_dupacks t" "recover t' = recover t"
    "t_rtt t' = t_rtt t" "t_srtt t' = t_srtt t" "t_rttvar t' = t_rttvar t"
    "send_buf t' = send_buf t" "send_buf_head t' = send_buf_head t" "send_buf_tail t' = send_buf_tail t"
    "recv_buf t' = recv_buf t" "recv_buf_head t' = recv_buf_head t" "recv_buf_tail t' = recv_buf_tail t"
    "ooo_head t' = ooo_head t" "ooo_bytes t' = ooo_bytes t" "rcv_nxt t' = rcv_nxt t" "rcv_scale t' = rcv_scale t"
    "snd_scale t' = snd_scale t" "scale_enabled t' = scale_enabled t"
    "src_port t' = src_port t" "dst_port t' = dst_port t" "dst_ip t' = dst_ip t" "src_ip t' = src_ip t"
  by (insert assms, unfold same_but_lstm_def) (erule ssubst, simp)+

lemma lstm_track_frame: "same_but_lstm t ((lstm_track t now rtt)\<lparr>lstm_prev_fired := b\<rparr>)"
  by (simp add: same_but_lstm_def lstm_track_def Let_def)

lemma send_row_frame: "same_but_rows w (lstm_client_send_row env row (w\<lparr>clock_reads := k, lstm_rows := rs\<rparr>))"
  by (simp add: same_but_rows_def lstm_client_send_row_def)

lemma log_lstm_event_frame:
  "ensures (log_lstm_event env t rtt acked dup to w) (\<lambda>(t', w'). same_but_lstm t t' \<and> same_but_rows w w')"
proof (cases "lstm_logger w")
  case False
  then show ?thesis by (simp add: log_lstm_event_def same_but_lstm_def same_but_rows_def)
next
  case True
  then show ?thesis
    by (auto simp: log_lstm_event_def ensures_def rbind_eq_Inr Let_def lstm_track_frame send_row_frame
        dest!: utcp_get_time_us_frame)
qed

lemma same_but_rows_simps:
  assumes "same_but_rows w w'"
  shows "sent w' = sent w" "mallocs w' = mallocs w" "wakeups w' = wakeups w" "timeout_counter w' = timeout_counter w"
    "lstm_logger w' = lstm_logger w" "g_sock w' = g_sock w"
  by (insert assms, unfold same_but_rows_def) (erule ssubst, simp)+

lemma log_lstm_event_returns:
  "good_env env \<Longrightarrow> returns (log_lstm_event env t rtt acked dup to w) (\<lambda>_. True)"
  using good_env_time [of env w] by (auto simp: log_lstm_event_def Let_def)

lemma drain_fired_last: "drain_fired bs f = (if bs = [] then f else last bs \<noteq> 0)"
  by (induction bs f rule: drain_fired.induct) auto

lemma send_row_fields [simp]:
  "lstm_rows (lstm_client_send_row env row w) = lstm_rows w"
  "g_fired (lstm_client_send_row env row w) =
     (if g_sock w < 0 then g_fired w else drain_fired (lstm_recv env (lstm_drains w)) (g_fired w))"
  "lstm_sent (lstm_client_send_row env row w) = lstm_sent w @ (if g_sock w < 0 then [] else [row])"
  by (simp_all add: lstm_client_send_row_def)

lemma log_lstm_event_on:
  assumes "log_lstm_event env t rtt acked dup to w = Inr (t', w')" and "lstm_logger w"
  obtains now where
    "w' = lstm_client_send_row env (lstm_features t now rtt acked dup to)
       (w\<lparr>clock_reads := Suc (clock_reads w), lstm_rows := lstm_rows w @ [lstm_features t now rtt acked dup to]\<rparr>)"
    "t' = (lstm_track t now rtt)\<lparr>lstm_prev_fired := (if g_fired w' then 1 else 0)\<rparr>"
proof -
  from assms obtain now where time: "utcp_get_time_us env w = Inr (now, w\<lparr>clock_reads := Suc (clock_reads w)\<rparr>)"
    by (auto simp: log_lstm_event_def rbind_eq_Inr dest: utcp_get_time_us_frame)
  show thesis
    by (rule that [of now]) (use assms time in \<open>auto simp: log_lstm_event_def lstm_client_fired_def Let_def\<close>)
qed

text \<open>
  C40: Logging an event never disturbs the connection: of the block only the logger's own tracking
  fields change, and of the surroundings only the clock and the prediction channel; with the logger
  switched off nothing happens at all. With it on, one row is logged and, when the server is connected, sent; it carries
  the state before the event's tracking update. The prediction flag becomes that of the last byte
  pending, or stays as it is when none was. This contradicts the comment in the loop (\<^verbatim>\<open>lstm_client.c\<close>, line 66),
  by which any 1 in the batch means that the model fired: each byte overwrites the flag, and the batch
  1, 0 leaves it down, as the last conjunct says. The header's description, the most recent inference, is what the code does.
\<close>

theorem log_lstm_event_effect:
  "ensures (log_lstm_event env t rtt acked dup to w) (\<lambda>(t', w').
     same_but_lstm t t' \<and> same_but_rows w w' \<and>
     (if lstm_logger w
      then \<exists>now. lstm_rows w' = lstm_rows w @ [lstm_features t now rtt acked dup to] \<and>
        lstm_sent w' = lstm_sent w @ (if g_sock w < 0 then [] else [lstm_features t now rtt acked dup to]) \<and>
        g_fired w' = (let bs = lstm_recv env (lstm_drains w) in
          if g_sock w < 0 \<or> bs = [] then g_fired w else last bs \<noteq> 0) \<and>
        lstm_prev_fired t' = (if g_fired w' then 1 else 0) \<and>
        (0 \<le> g_sock w \<and> lstm_recv env (lstm_drains w) = [1, 0] \<longrightarrow> \<not> g_fired w')
      else t' = t \<and> w' = w))"
proof (cases "lstm_logger w")
  case False
  then show ?thesis by (simp add: log_lstm_event_def same_but_lstm_def same_but_rows_def)
next
  case True
  show ?thesis
    unfolding ensures_def
  proof (intro allI impI, clarify)
    fix t' w'
    assume ev: "log_lstm_event env t rtt acked dup to w = Inr (t', w')"
    have frame: "same_but_lstm t t'" "same_but_rows w w'"
      using log_lstm_event_frame [of env t rtt acked dup to w] ev by simp_all
    from log_lstm_event_on [OF ev True] obtain now where
      w': "w' = lstm_client_send_row env (lstm_features t now rtt acked dup to)
         (w\<lparr>clock_reads := Suc (clock_reads w), lstm_rows := lstm_rows w @ [lstm_features t now rtt acked dup to]\<rparr>)" and
      t': "t' = (lstm_track t now rtt)\<lparr>lstm_prev_fired := (if g_fired w' then 1 else 0)\<rparr>" .
    have "lstm_prev_fired t' = (if g_fired w' then 1 else 0)" by (simp add: t')
    moreover have "lstm_rows w' = lstm_rows w @ [lstm_features t now rtt acked dup to]"
      and "lstm_sent w' = lstm_sent w @ (if g_sock w < 0 then [] else [lstm_features t now rtt acked dup to])"
      and "g_fired w' = (if g_sock w < 0 \<or> lstm_recv env (lstm_drains w) = [] then g_fired w else last (lstm_recv env (lstm_drains w)) \<noteq> 0)"
      by (simp_all add: w' drain_fired_last)
    ultimately show "same_but_lstm t t' \<and> same_but_rows w w' \<and> (if lstm_logger w
      then \<exists>now. lstm_rows w' = lstm_rows w @ [lstm_features t now rtt acked dup to] \<and>
        lstm_sent w' = lstm_sent w @ (if g_sock w < 0 then [] else [lstm_features t now rtt acked dup to]) \<and>
        g_fired w' = (let bs = lstm_recv env (lstm_drains w) in
          if g_sock w < 0 \<or> bs = [] then g_fired w else last bs \<noteq> 0) \<and>
        lstm_prev_fired t' = (if g_fired w' then 1 else 0) \<and>
        (0 \<le> g_sock w \<and> lstm_recv env (lstm_drains w) = [1, 0] \<longrightarrow> \<not> g_fired w')
      else t' = t \<and> w' = w)"
      using True frame by auto
  qed
qed

theorem log_lstm_event_effect_witness:
  "ensures (log_lstm_event (env0\<lparr>lstm_recv := \<lambda>_. [1, 0]\<rparr>) (calloc_tcb utcp_lstm_reno) 7 0 False False
      (world0\<lparr>lstm_logger := True, g_sock := 5\<rparr>)) (\<lambda>(t', w'). length (lstm_sent w') = 1 \<and> \<not> g_fired w')"
  using log_lstm_event_effect [of "env0\<lparr>lstm_recv := \<lambda>_. [1, 0]\<rparr>" "calloc_tcb utcp_lstm_reno" 7 0 False False
      "world0\<lparr>lstm_logger := True, g_sock := 5\<rparr>"]
  by (auto simp: world0_def elim!: ensures_mono)

end
