(* ===== verification/Congestion.thy ===== *)
theory Congestion
  imports Sender Logger
begin

text \<open>
  Congestion control: the shared primitives of \<^verbatim>\<open>src/utcp/cc/core.c\<close> and the four
  algorithms behind \<^verbatim>\<open>struct tcp_congestion_ops\<close> (Tahoe, Reno, NewReno, LSTM-Reno). The
  locale \<open>cc_algorithm\<close> is the contract of the function pointer \<^verbatim>\<open>cong_control\<close>: which fields a
  call may write, the floor of the slow-start threshold that keeps the division in
  \<^verbatim>\<open>cc_aimd\<close> defined, and that the stream on the wire stays intact. Each algorithm is an
  interpretation.
\<close>

section \<open>Primitives\<close>

definition cc_init :: "tcb \<Rightarrow> tcb" where
  "cc_init tcb = tcb\<lparr>cwnd := MSS * IW, ssthresh := 0xFFFFFFFF, ca_state := TCP_CA_OPEN\<rparr>"

definition cc_aimd :: "u32 \<Rightarrow> tcb \<Rightarrow> tcb res" where
  "cc_aimd acked tcb =
     (let tcb = (if ca_state tcb = TCP_CA_LOSS then tcb\<lparr>ca_state := TCP_CA_OPEN\<rparr> else tcb) in
      if cwnd tcb < ssthresh tcb
      then Inr (tcb\<lparr>cwnd := cwnd tcb + min acked MSS\<rparr>)
      else let effective_acked = min acked (cwnd tcb) in
        if cwnd tcb = 0 then Inl Div_by_zero
        else Inr (tcb\<lparr>cwnd := cwnd tcb + of_nat (max ((unat effective_acked * MSS) div unat (cwnd tcb)) 1)\<rparr>))"

definition cc_halve_ssthresh :: "u32 \<Rightarrow> u32" where
  "cc_halve_ssthresh flight_size =
     (let half_flight = flight_size div 2 in if half_flight > 2 * MSS then half_flight else 2 * MSS)"

definition cc_timeout :: "u32 \<Rightarrow> tcb \<Rightarrow> tcb" where
  "cc_timeout flight_size tcb =
     (let effective_flight = min flight_size (cwnd tcb);
          new_ssthresh = cc_halve_ssthresh effective_flight;
          new_ssthresh =
            (if (ca_state tcb = TCP_CA_RECOVERY \<or> ca_state tcb = TCP_CA_LOSS) \<and> new_ssthresh > ssthresh tcb
             then ssthresh tcb else new_ssthresh)
      in tcb\<lparr>ssthresh := new_ssthresh, cwnd := MSS, ca_state := TCP_CA_LOSS\<rparr>)"

section \<open>Algorithms\<close>

definition aimd_step :: "u32 \<Rightarrow> st \<Rightarrow> st res" where
  "aimd_step acked s = rbind (cc_aimd acked (fst s)) (\<lambda>tcb. Inr (tcb, snd s))"

definition retransmit_step :: "env \<Rightarrow> st \<Rightarrow> st res" where
  "retransmit_step env s =
     rbind (utcp_retransmit_segment env (fst s) (snd_una (fst s)) (snd s)) (\<lambda>(_, w). Inr (fst s, w))"

fun tahoe_cong_control :: "env \<Rightarrow> cc_event_args \<Rightarrow> st \<Rightarrow> st res" where
  "tahoe_cong_control env TCP_CC_EVENT_INIT (tcb, w) = Inr (cc_init tcb, w)"
| "tahoe_cong_control env (TCP_CC_EVENT_ACK acked rtt) (tcb, w) =
     aimd_step acked (tcb\<lparr>ca_state := TCP_CA_OPEN\<rparr>, w)"
| "tahoe_cong_control env (TCP_CC_EVENT_DUP_ACK dups) (tcb, w) =
     (if dups = 3
      then let flight_size = snd_nxt tcb - snd_una tcb
           in retransmit_step env (tcb\<lparr>ssthresh := cc_halve_ssthresh flight_size, cwnd := MSS\<rparr>, w)
      else Inr (tcb, w))"
| "tahoe_cong_control env (TCP_CC_EVENT_TIMEOUT flight) (tcb, w) = Inr (cc_timeout flight tcb, w)"

fun reno_cong_control :: "env \<Rightarrow> cc_event_args \<Rightarrow> st \<Rightarrow> st res" where
  "reno_cong_control env TCP_CC_EVENT_INIT (tcb, w) = Inr (cc_init tcb, w)"
| "reno_cong_control env (TCP_CC_EVENT_ACK acked rtt) (tcb, w) =
     (if ca_state tcb = TCP_CA_RECOVERY
      then Inr (tcb\<lparr>cwnd := ssthresh tcb, ca_state := TCP_CA_OPEN\<rparr>, w)
      else aimd_step acked (tcb, w))"
| "reno_cong_control env (TCP_CC_EVENT_DUP_ACK dups) (tcb, w) =
     (if dups = 3
      then let flight_size = snd_nxt tcb - snd_una tcb;
               half_flight = flight_size div 2
           in rbind (retransmit_step env
                (tcb\<lparr>ssthresh := (if half_flight > 2 * MSS then half_flight else 2 * MSS)\<rparr>, w)) (\<lambda>(tcb, w).
              Inr (tcb\<lparr>ca_state := TCP_CA_RECOVERY, cwnd := ssthresh tcb + 3 * MSS\<rparr>, w))
      else if dups > 3 then call_output env (tcb\<lparr>cwnd := cwnd tcb + MSS\<rparr>, w)
      else Inr (tcb, w))"
| "reno_cong_control env (TCP_CC_EVENT_TIMEOUT flight) (tcb, w) =
     Inr (cc_timeout flight tcb, w\<lparr>timeout_counter := timeout_counter w + 1\<rparr>)"

definition new_reno_ack :: "env \<Rightarrow> u32 \<Rightarrow> st \<Rightarrow> st res" where
  "new_reno_ack env acked s = (case s of (tcb, w) \<Rightarrow>
     if ca_state tcb = TCP_CA_RECOVERY then
       (if SEQ_GEQ (snd_una tcb) (recover tcb)
        then Inr (tcb\<lparr>cwnd := ssthresh tcb, ca_state := TCP_CA_OPEN\<rparr>, w)
        else rbind (retransmit_step env (tcb, w)) (\<lambda>(tcb, w).
             Inr (tcb\<lparr>t_rtt := 0,
                     cwnd := (if acked \<ge> cwnd tcb then MSS else cwnd tcb - acked) + MSS,
                     t_dupacks := 0\<rparr>, w)))
     else aimd_step acked (tcb, w))"

definition new_reno_dup_ack :: "env \<Rightarrow> u32 \<Rightarrow> st \<Rightarrow> st res" where
  "new_reno_dup_ack env dups s = (case s of (tcb, w) \<Rightarrow>
     if dups = 3 then
       (if SEQ_GT (snd_una tcb) (recover tcb)
        then let flight_size = snd_nxt tcb - snd_una tcb
             in rbind (retransmit_step env
                  (tcb\<lparr>ssthresh := cc_halve_ssthresh flight_size, recover := snd_max tcb\<rparr>, w)) (\<lambda>(tcb, w).
                Inr (tcb\<lparr>t_rtt := 0, ca_state := TCP_CA_RECOVERY, cwnd := ssthresh tcb + 3 * MSS\<rparr>, w))
        else Inr (tcb, w))
     else if dups > 3 \<and> ca_state tcb = TCP_CA_RECOVERY
     then call_output env (tcb\<lparr>cwnd := cwnd tcb + MSS\<rparr>, w)
     else Inr (tcb, w))"

fun new_reno_cong_control :: "env \<Rightarrow> cc_event_args \<Rightarrow> st \<Rightarrow> st res" where
  "new_reno_cong_control env TCP_CC_EVENT_INIT (tcb, w) = Inr ((cc_init tcb)\<lparr>recover := iss tcb\<rparr>, w)"
| "new_reno_cong_control env (TCP_CC_EVENT_ACK acked rtt) (tcb, w) = new_reno_ack env acked (tcb, w)"
| "new_reno_cong_control env (TCP_CC_EVENT_DUP_ACK dups) (tcb, w) = new_reno_dup_ack env dups (tcb, w)"
| "new_reno_cong_control env (TCP_CC_EVENT_TIMEOUT flight) (tcb, w) =
     Inr (cc_timeout flight (tcb\<lparr>recover := snd_max tcb\<rparr>), w)"

definition lstm_reno_ack :: "env \<Rightarrow> u32 \<Rightarrow> st \<Rightarrow> st res" where
  "lstm_reno_ack env acked s = (case s of (tcb, w) \<Rightarrow>
     if ca_state tcb = TCP_CA_RECOVERY then
       (if SEQ_GEQ (snd_una tcb) (recover tcb)
        then Inr (tcb\<lparr>cwnd := ssthresh tcb, ca_state := TCP_CA_OPEN\<rparr>, w)
        else rbind (retransmit_step env (tcb, w)) (\<lambda>(tcb, w).
             Inr (tcb\<lparr>t_rtt := 0,
                     cwnd := (if acked \<ge> cwnd tcb then MSS else cwnd tcb - acked) + MSS,
                     t_dupacks := 0\<rparr>, w)))
     else if lstm_client_fired w then
       let flight_size = snd_nxt tcb - snd_una tcb;
           new_ssthresh = cc_halve_ssthresh flight_size
       in if new_ssthresh < ssthresh tcb then aimd_step acked (tcb\<lparr>ssthresh := new_ssthresh\<rparr>, w)
          else aimd_step acked (tcb, w)
     else aimd_step acked (tcb, w))"

definition lstm_reno_dup_ack :: "env \<Rightarrow> u32 \<Rightarrow> st \<Rightarrow> st res" where
  "lstm_reno_dup_ack env dups s = (case s of (tcb, w) \<Rightarrow>
     if dups = 3 then
       (if SEQ_GT (snd_una tcb) (recover tcb)
        then let flight_size = snd_nxt tcb - snd_una tcb
             in rbind (retransmit_step env
                  (tcb\<lparr>ssthresh := cc_halve_ssthresh flight_size, recover := snd_max tcb\<rparr>, w)) (\<lambda>(tcb, w).
                Inr (tcb\<lparr>t_rtt := 0, ca_state := TCP_CA_RECOVERY, cwnd := ssthresh tcb + 3 * MSS\<rparr>, w))
        else Inr (tcb, w))
     else if dups > 3 \<and> ca_state tcb = TCP_CA_RECOVERY
     then call_output env (tcb\<lparr>cwnd := cwnd tcb + MSS\<rparr>, w)
     else Inr (tcb, w))"

fun lstm_reno_cong_control :: "env \<Rightarrow> cc_event_args \<Rightarrow> st \<Rightarrow> st res" where
  "lstm_reno_cong_control env TCP_CC_EVENT_INIT (tcb, w) = Inr ((cc_init tcb)\<lparr>recover := iss tcb\<rparr>, w)"
| "lstm_reno_cong_control env (TCP_CC_EVENT_ACK acked rtt) (tcb, w) = lstm_reno_ack env acked (tcb, w)"
| "lstm_reno_cong_control env (TCP_CC_EVENT_DUP_ACK dups) (tcb, w) = lstm_reno_dup_ack env dups (tcb, w)"
| "lstm_reno_cong_control env (TCP_CC_EVENT_TIMEOUT flight) (tcb, w) =
     Inr (cc_timeout flight (tcb\<lparr>recover := snd_max tcb\<rparr>), w)"

fun cong_control :: "tcp_congestion_ops \<Rightarrow> env \<Rightarrow> cc_event_args \<Rightarrow> st \<Rightarrow> st res" where
  "cong_control utcp_tahoe = tahoe_cong_control"
| "cong_control utcp_reno = reno_cong_control"
| "cong_control utcp_new_reno = new_reno_cong_control"
| "cong_control utcp_lstm_reno = lstm_reno_cong_control"

section \<open>The contract of \<^verbatim>\<open>cong_control\<close>\<close>

text \<open>Fields of the block, and parts of the surroundings, that an algorithm may write.\<close>

definition same_but_cc :: "tcb \<Rightarrow> tcb \<Rightarrow> bool" where
  "same_but_cc t t' \<longleftrightarrow>
     t' = t\<lparr>cwnd := cwnd t', ssthresh := ssthresh t', ca_state := ca_state t', recover := recover t',
           t_dupacks := t_dupacks t', t_rtt := t_rtt t', t_flags := t_flags t', t_timer := t_timer t',
           t_rtseq := t_rtseq t', snd_nxt := snd_nxt t', snd_max := snd_max t'\<rparr>"

lemma same_but_cc_simps:
  assumes "same_but_cc t t'"
  shows "state t' = state t" "iss t' = iss t" "snd_una t' = snd_una t" "snd_wnd t' = snd_wnd t"
    "send_buf t' = send_buf t" "send_buf_head t' = send_buf_head t" "send_buf_tail t' = send_buf_tail t"
    "recv_buf t' = recv_buf t" "recv_buf_head t' = recv_buf_head t" "recv_buf_tail t' = recv_buf_tail t"
    "ooo_head t' = ooo_head t" "ooo_bytes t' = ooo_bytes t" "rcv_nxt t' = rcv_nxt t"
    "rcv_scale t' = rcv_scale t" "scale_enabled t' = scale_enabled t" "irs t' = irs t"
    "t_rxtcur t' = t_rxtcur t" "t_rxtshift t' = t_rxtshift t" "cc_ops t' = cc_ops t"
    "t_srtt t' = t_srtt t" "t_rttvar t' = t_rttvar t" "snd_scale t' = snd_scale t"
    "src_port t' = src_port t" "dst_port t' = dst_port t" "dst_ip t' = dst_ip t" "src_ip t' = src_ip t"
  by (insert assms, unfold same_but_cc_def) (erule ssubst, simp)+

lemma same_but_cc_refl [simp]: "same_but_cc t t"
  by (simp add: same_but_cc_def)

lemma same_but_cc_trans:
  assumes "same_but_cc a b" and "same_but_cc b c"
  shows "same_but_cc a c"
  unfolding same_but_cc_def
  by (subst assms(2) [unfolded same_but_cc_def], subst assms(1) [unfolded same_but_cc_def]) simp

lemma same_but_output_cc: "same_but_output t t' \<Longrightarrow> same_but_cc t t'"
  unfolding same_but_output_def same_but_cc_def by (erule ssubst) simp

lemma can_send_cc: "same_but_cc t t' \<Longrightarrow> can_send t' = can_send t"
  by (simp add: can_send_def same_but_cc_simps)

definition cc_world :: "world \<Rightarrow> world \<Rightarrow> bool" where
  "cc_world w w' \<longleftrightarrow>
     w' = w\<lparr>clock_reads := clock_reads w', mallocs := mallocs w', sent := sent w',
           timeout_counter := timeout_counter w'\<rparr> \<and> sent w' = sent w @ appended w w'"

text \<open>The floor of the slow-start threshold.\<close>

definition ssthresh_floor :: "tcb \<Rightarrow> bool" where
  "ssthresh_floor t \<longleftrightarrow> 2 * MSS \<le> ssthresh t"

definition good_socket :: "env \<Rightarrow> bool" where
  "good_socket env \<longleftrightarrow> (\<forall>k d. - 1 \<le> sendto env k d)"

locale cc_algorithm =
  fixes cong :: "env \<Rightarrow> cc_event_args \<Rightarrow> st \<Rightarrow> st res"
  assumes frame: "ensures (cong env ev (t, w)) (\<lambda>(t', w'). same_but_cc t t' \<and> cc_world w w')"
    and init: "returns (cong env TCP_CC_EVENT_INIT (t, w)) (\<lambda>(t', w').
        cwnd t' = 4200 \<and> ssthresh t' = 0xFFFFFFFF \<and> ca_state t' = TCP_CA_OPEN \<and> w' = w)"
    and timeout: "returns (cong env (TCP_CC_EVENT_TIMEOUT f) (t, w)) (\<lambda>(t', w').
        cwnd t' = MSS \<and> ca_state t' = TCP_CA_LOSS \<and> ssthresh t' \<le> max (2 * MSS) (f div 2) \<and>
        snd_nxt t' = snd_nxt t \<and> snd_max t' = snd_max t \<and> t_timer t' = t_timer t \<and>
        t_flags t' = t_flags t \<and> sent w' = sent w)"
    and floor: "ssthresh_floor t \<Longrightarrow> ensures (cong env ev (t, w)) (\<lambda>(t', w'). ssthresh_floor t')"
    and returns: "good_env env \<Longrightarrow> can_send t \<Longrightarrow> ssthresh_floor t \<Longrightarrow>
        returns (cong env ev (t, w)) (\<lambda>_. True)"
    and stream: "snd_inv S t \<Longrightarrow> state t = TCP_ESTABLISHED \<Longrightarrow> good_socket env \<Longrightarrow>
        ensures (cong env ev (t, w)) (\<lambda>(t', w').
          snd_inv S t' \<and> (\<forall>d \<in> set (appended w w'). conveys S t d))"
begin

text \<open>Any sequence of events on an initialised connection runs through, and keeps the floor.\<close>

fun feed :: "env \<Rightarrow> cc_event_args list \<Rightarrow> st \<Rightarrow> st res" where
  "feed env [] s = Inr s"
| "feed env (ev # evs) s = rbind (cong env ev s) (feed env evs)"

lemma feed_returns:
  assumes "good_env env"
  shows "can_send t \<Longrightarrow> ssthresh_floor t \<Longrightarrow>
    returns (feed env evs (t, w)) (\<lambda>(t', w'). can_send t' \<and> ssthresh_floor t')"
proof (induction evs arbitrary: t w)
  case Nil
  then show ?case by simp
next
  case (Cons ev evs)
  from returns [OF assms Cons.prems, of ev w] obtain t' w' where step: "cong env ev (t, w) = Inr (t', w')"
    by (auto simp: returns_def)
  have "ssthresh_floor t'" using floor [OF Cons.prems(2), of env ev w] step by simp
  moreover have "same_but_cc t t'" using frame [of env ev t w] step by simp
  then have "can_send t'"
    using Cons.prems(1) by (simp add: can_send_cc)
  ultimately show ?case using Cons.IH step by simp
qed

lemma start_returns:
  assumes "good_env env" and "can_send t"
  shows "returns (feed env (TCP_CC_EVENT_INIT # evs) (t, w)) (\<lambda>(t', w'). ssthresh_floor t')"
proof -
  from init [of env t w] obtain t1 where step: "cong env TCP_CC_EVENT_INIT (t, w) = Inr (t1, w)"
    and "ssthresh_floor t1"
    by (auto simp: returns_def ssthresh_floor_def)
  moreover have "same_but_cc t t1" using frame [of env TCP_CC_EVENT_INIT t w] step by simp
  then have "can_send t1"
    using assms(2) by (simp add: can_send_cc)
  ultimately show ?thesis
    using feed_returns [OF assms(1), of t1 evs w] by (auto elim: returns_mono)
qed

end

section \<open>The algorithms meet the contract\<close>

text \<open>Updates of congestion variables only, and the three ways an algorithm uses them.\<close>

definition cc_pure :: "tcb \<Rightarrow> tcb \<Rightarrow> bool" where
  "cc_pure t t' \<longleftrightarrow> same_but_cc t t' \<and> snd_nxt t' = snd_nxt t \<and> snd_max t' = snd_max t \<and>
     (ssthresh_floor t \<longrightarrow> ssthresh_floor t')"

definition cc_safe :: "env \<Rightarrow> tcb \<Rightarrow> world \<Rightarrow> st res \<Rightarrow> bool" where
  "cc_safe env t w r \<longleftrightarrow> ensures r (\<lambda>(t', w'). same_but_cc t t' \<and> cc_world w w' \<and>
     (ssthresh_floor t \<longrightarrow> ssthresh_floor t') \<and>
     (\<forall>S. snd_inv S t \<and> state t = TCP_ESTABLISHED \<and> good_socket env \<longrightarrow>
        snd_inv S t' \<and> (\<forall>d \<in> set (appended w w'). conveys S t d)))"

lemma snd_inv_cc:
  assumes "cc_pure t t'"
  shows "snd_inv S t' = snd_inv S t"
  using assms
  by (simp add: cc_pure_def snd_inv_def seq_pos_def snd_written_def same_but_cc_simps [of t t'])

lemma cc_pure_trans: "cc_pure a b \<Longrightarrow> cc_pure b c \<Longrightarrow> cc_pure a c"
  by (auto simp: cc_pure_def intro: same_but_cc_trans)

lemma extends_cc_world:
  assumes "extends w w'"
  shows "cc_world w w'"
proof -
  have e: "w' = w\<lparr>clock_reads := clock_reads w', mallocs := mallocs w', sent := sent w'\<rparr>"
    using assms unfolding extends_def same_but_sent_def by blast
  have tc: "timeout_counter w' = timeout_counter w" by (subst e) simp
  have "w' = w\<lparr>clock_reads := clock_reads w', mallocs := mallocs w', sent := sent w',
      timeout_counter := timeout_counter w'\<rparr>"
    unfolding tc by (subst e) simp
  then show ?thesis
    using assms unfolding cc_world_def extends_def by blast
qed

lemma cc_pure_simps:
  assumes "cc_pure t t'"
  shows "state t' = state t" and "iss t' = iss t" and "can_send t' = can_send t" and "rcv_nxt t' = rcv_nxt t"
  using assms by (simp_all add: cc_pure_def same_but_cc_simps [of t t'] can_send_cc [of t t'])

lemma cc_safe_pure:
  assumes "cc_pure t t1" and "w1 = w\<lparr>timeout_counter := k\<rparr>"
  shows "cc_safe env t w (Inr (t1, w1))"
proof -
  have a: "appended w w1 = []" by (simp add: appended_def assms(2))
  have "cc_world w w1" unfolding cc_world_def a by (simp add: assms(2))
  with assms(1) a snd_inv_cc [OF assms(1)] show ?thesis
    by (auto simp: cc_safe_def cc_pure_def)
qed

lemma cc_safe_quiet: "cc_pure t t1 \<Longrightarrow> cc_safe env t w (Inr (t1, w))"
  by (rule cc_safe_pure [where k = "timeout_counter w"]) simp_all

lemma retransmit_step_eq:
  assumes "retransmit_step env (t, w) = Inr (t', w')"
  shows "t' = t" and "extends w w'"
    and "snd_inv S t \<Longrightarrow> state t = TCP_ESTABLISHED \<Longrightarrow> good_socket env \<Longrightarrow> d \<in> set (appended w w') \<Longrightarrow>
      resends S t (snd_una t) d"
proof -
  from assms obtain r where seg: "utcp_retransmit_segment env t (snd_una t) w = Inr (r, w')" and t: "t' = t"
    by (cases "utcp_retransmit_segment env t (snd_una t) w") (auto simp: retransmit_step_def)
  show "t' = t" by (rule t)
  show "extends w w'" using utcp_retransmit_extends [of env t "snd_una t" w] seg by simp
  show "resends S t (snd_una t) d"
    if "snd_inv S t" "state t = TCP_ESTABLISHED" "good_socket env" "d \<in> set (appended w w')"
    using utcp_retransmit_stream [OF that(1,2), of env "snd_una t" w] that seg
    by (auto simp: good_socket_def snd_inv_def)
qed

lemma cc_safe_retransmit:
  assumes "cc_pure t t1" and "cc_pure t (f t1)"
  shows "cc_safe env t w (rbind (retransmit_step env (t1, w)) (\<lambda>(t2, w2). Inr (f t2, w2)))"
  unfolding cc_safe_def ensures_def
proof (safe)
  fix t' w'
  assume "rbind (retransmit_step env (t1, w)) (\<lambda>(t2, w2). Inr (f t2, w2)) = Inr (t', w')"
  then obtain t2 where step: "retransmit_step env (t1, w) = Inr (t2, w')" and "t' = f t2"
    by (auto simp: rbind_eq_Inr)
  note eq = retransmit_step_eq [OF step]
  have t': "t' = f t1" using eq(1) \<open>t' = f t2\<close> by simp
  show "same_but_cc t t'" and "ssthresh_floor t \<Longrightarrow> ssthresh_floor t'"
    using assms(2) by (simp_all add: t' cc_pure_def)
  show "cc_world w w'" using eq(2) by (rule extends_cc_world)
  fix S
  assume S: "snd_inv S t" "state t = TCP_ESTABLISHED" "good_socket env"
  show "snd_inv S t'" using S snd_inv_cc [OF assms(2)] by (simp add: t')
  note st = cc_pure_simps [OF assms(1)]
  show "conveys S t d" if "d \<in> set (appended w w')" for d
    using resends_conveys [OF eq(3) [OF _ _ S(3) that]] S snd_inv_cc [OF assms(1)] st by (simp add: conveys_def)
qed

lemma cc_safe_output:
  assumes "cc_pure t t1"
  shows "cc_safe env t w (call_output env (t1, w))"
  unfolding cc_safe_def ensures_def
proof (safe)
  fix t' w'
  assume "call_output env (t1, w) = Inr (t', w')"
  then obtain n where out: "utcp_output env t1 w = Inr (n, t', w')"
    by (auto simp: call_output_def rbind_eq_Inr)
  have fr: "same_but_output t1 t'" "extends w w'"
    using utcp_output_frame [of env t1 w] out by simp_all
  show "same_but_cc t t'"
    using assms same_but_cc_trans [OF _ same_but_output_cc [OF fr(1)]] by (simp add: cc_pure_def)
  show "cc_world w w'" using fr(2) by (rule extends_cc_world)
  show "ssthresh_floor t'" if "ssthresh_floor t"
    using that assms by (simp add: cc_pure_def ssthresh_floor_def same_but_output_simps [OF fr(1)])
  fix S
  assume S: "snd_inv S t" "state t = TCP_ESTABLISHED" "good_socket env"
  have st: "state t1 = TCP_ESTABLISHED" "conveys S t1 d = conveys S t d" "snd_inv S t1" for d
    using S snd_inv_cc [OF assms] cc_pure_simps [OF assms] by (simp_all add: conveys_def)
  have "snd_inv S t' \<and> (\<forall>d \<in> set (appended w w'). conveys S t d)"
    using utcp_output_stream [OF st(3,1), of env w] S(3) out st(2) by (auto simp: good_socket_def)
  then show "snd_inv S t'" and "\<And>d. d \<in> set (appended w w') \<Longrightarrow> conveys S t d" by blast+
qed

lemma cc_aimd_pure: "cc_aimd acked t = Inr t' \<Longrightarrow> cc_pure t t'"
  by (auto simp: cc_aimd_def cc_pure_def same_but_cc_def ssthresh_floor_def Let_def split: if_splits)

lemma cc_safe_aimd:
  assumes "cc_pure t t1"
  shows "cc_safe env t w (aimd_step acked (t1, w))"
proof (cases "cc_aimd acked t1")
  case (Inl e)
  then show ?thesis by (simp add: aimd_step_def cc_safe_def)
next
  case (Inr t2)
  then show ?thesis
    using cc_safe_quiet [OF cc_pure_trans [OF assms cc_aimd_pure], of acked t2] by (simp add: aimd_step_def)
qed

lemma cc_aimd_returns: "ssthresh t \<noteq> 0 \<Longrightarrow> \<exists>t'. cc_aimd acked t = Inr t'"
  by (auto simp: cc_aimd_def Let_def word_gt_0)

lemma aimd_step_returns: "ssthresh_floor t \<Longrightarrow> returns (aimd_step acked (t, w)) (\<lambda>_. True)"
proof -
  assume "ssthresh_floor t"
  then have "ssthresh t \<noteq> 0" by (auto simp: ssthresh_floor_def)
  from cc_aimd_returns [OF this, of acked] show ?thesis by (auto simp: aimd_step_def returns_def)
qed

lemma retransmit_step_returns:
  "good_env env \<Longrightarrow> can_send t \<Longrightarrow> returns (retransmit_step env (t, w)) (\<lambda>_. True)"
  using utcp_retransmit_returns [of env t "snd_una t" w] by (auto simp: retransmit_step_def returns_def)

lemma call_output_returns:
  "good_env env \<Longrightarrow> can_send t \<Longrightarrow> returns (call_output env (t, w)) (\<lambda>_. True)"
  using utcp_output_returns [of env t w] by (auto simp: call_output_def returns_def)

lemma cc_halve_ssthresh_floor: "2 * MSS \<le> cc_halve_ssthresh f"
  by (auto simp: cc_halve_ssthresh_def Let_def)

lemma cc_timeout_pure: "cc_pure t (cc_timeout f t)"
  using cc_halve_ssthresh_floor [of "min f (cwnd t)"]
  by (auto simp: cc_timeout_def cc_pure_def same_but_cc_def ssthresh_floor_def Let_def)

lemma cc_pure_refl [simp]: "cc_pure t t"
  by (simp add: cc_pure_def)

lemma cc_pure_updates [simp]:
  "cc_pure t x \<Longrightarrow> cc_pure t (x\<lparr>cwnd := v\<rparr>)"
  "cc_pure t x \<Longrightarrow> cc_pure t (x\<lparr>ca_state := c\<rparr>)"
  "cc_pure t x \<Longrightarrow> cc_pure t (x\<lparr>recover := v\<rparr>)"
  "cc_pure t x \<Longrightarrow> cc_pure t (x\<lparr>t_rtt := i\<rparr>)"
  "cc_pure t x \<Longrightarrow> cc_pure t (x\<lparr>t_dupacks := k\<rparr>)"
  "cc_pure t x \<Longrightarrow> 2 * MSS \<le> v \<Longrightarrow> cc_pure t (x\<lparr>ssthresh := v\<rparr>)"
  by (erule cc_pure_trans, simp add: cc_pure_def same_but_cc_def ssthresh_floor_def)+

lemma cc_init_pure [simp]: "cc_pure t (cc_init t)"
  by (simp add: cc_init_def)

lemma cc_timeout_recover_pure: "cc_pure t (cc_timeout f (t\<lparr>recover := r\<rparr>))"
  by (rule cc_pure_trans [OF _ cc_timeout_pure]) simp

lemma cc_safe_resend: "cc_pure t t1 \<Longrightarrow> cc_safe env t w (retransmit_step env (t1, w))"
  using cc_safe_retransmit [of t t1 "\<lambda>x. x" env w] by simp

text \<open>A proof that an algorithm is safe is a walk through its branches.\<close>

lemmas cc_safe_branches = cc_safe_quiet cc_safe_aimd cc_safe_resend cc_safe_output cc_safe_retransmit
  cc_timeout_pure cc_timeout_recover_pure cc_halve_ssthresh_floor [simplified] Let_def

lemma tahoe_safe: "cc_safe env t w (tahoe_cong_control env ev (t, w))"
  by (cases ev) (simp_all add: cc_safe_branches)

lemma reno_safe: "cc_safe env t w (reno_cong_control env ev (t, w))"
proof (cases ev)
  case (TCP_CC_EVENT_TIMEOUT f)
  then show ?thesis using cc_safe_pure [OF cc_timeout_pure refl, of env t w f] by simp
qed (simp_all add: cc_safe_branches cc_safe_branches [unfolded cc_halve_ssthresh_def])

lemma new_reno_safe: "cc_safe env t w (new_reno_cong_control env ev (t, w))"
  by (cases ev) (simp_all add: new_reno_ack_def new_reno_dup_ack_def cc_safe_branches)

lemma lstm_reno_safe: "cc_safe env t w (lstm_reno_cong_control env ev (t, w))"
  by (cases ev) (simp_all add: lstm_reno_ack_def lstm_reno_dup_ack_def cc_safe_branches)

text \<open>The laws of the contract follow from safety, up to those of single events.\<close>

lemma cc_safe_laws:
  assumes "\<And>env ev t w. cc_safe env t w (cong env ev (t, w))"
  shows "ensures (cong env ev (t, w)) (\<lambda>(t', w'). same_but_cc t t' \<and> cc_world w w')"
    and "ssthresh_floor t \<Longrightarrow> ensures (cong env ev (t, w)) (\<lambda>(t', w'). ssthresh_floor t')"
    and "snd_inv S t \<Longrightarrow> state t = TCP_ESTABLISHED \<Longrightarrow> good_socket env \<Longrightarrow>
        ensures (cong env ev (t, w)) (\<lambda>(t', w').
          snd_inv S t' \<and> (\<forall>d \<in> set (appended w w'). conveys S t d))"
  using assms [of env t w ev] by (auto simp: cc_safe_def elim!: ensures_mono)

lemma cc_halve_ssthresh_le: "g \<le> f \<Longrightarrow> cc_halve_ssthresh g \<le> max (2 * MSS) (f div 2)"
  by (auto simp: cc_halve_ssthresh_def Let_def max_def word_le_nat_alt word_less_nat_alt unat_div div_le_mono
      intro: order_trans)

lemma cc_timeout_fields:
  "cwnd (cc_timeout f t) = MSS" "ca_state (cc_timeout f t) = TCP_CA_LOSS"
  "ssthresh (cc_timeout f t) \<le> max (2 * MSS) (f div 2)"
  "snd_nxt (cc_timeout f t) = snd_nxt t" "snd_max (cc_timeout f t) = snd_max t"
  "t_timer (cc_timeout f t) = t_timer t" "t_flags (cc_timeout f t) = t_flags t"
  using cc_halve_ssthresh_le [of "min f (cwnd t)" f]
  by (auto simp: cc_timeout_def Let_def)

lemma tahoe_returns:
  "good_env env \<Longrightarrow> can_send t \<Longrightarrow> ssthresh_floor t \<Longrightarrow> returns (tahoe_cong_control env ev (t, w)) (\<lambda>_. True)"
  by (cases ev)
    (simp_all add: Let_def aimd_step_returns retransmit_step_returns ssthresh_floor_def can_send_def)

lemma reno_returns:
  "good_env env \<Longrightarrow> can_send t \<Longrightarrow> ssthresh_floor t \<Longrightarrow> returns (reno_cong_control env ev (t, w)) (\<lambda>_. True)"
  by (cases ev)
    (auto simp: Let_def aimd_step_returns call_output_returns can_send_def
      intro!: returns_rbind [OF retransmit_step_returns])

lemma new_reno_returns:
  "good_env env \<Longrightarrow> can_send t \<Longrightarrow> ssthresh_floor t \<Longrightarrow> returns (new_reno_cong_control env ev (t, w)) (\<lambda>_. True)"
  by (cases ev)
    (auto simp: Let_def aimd_step_returns call_output_returns can_send_def new_reno_ack_def new_reno_dup_ack_def
      intro!: returns_rbind [OF retransmit_step_returns])

lemma lstm_reno_returns:
  "good_env env \<Longrightarrow> can_send t \<Longrightarrow> ssthresh_floor t \<Longrightarrow> returns (lstm_reno_cong_control env ev (t, w)) (\<lambda>_. True)"
  using cc_halve_ssthresh_floor [of "snd_nxt t - snd_una t"]
  by (cases ev)
    (auto simp: Let_def aimd_step_returns call_output_returns can_send_def lstm_reno_ack_def lstm_reno_dup_ack_def
      ssthresh_floor_def intro!: returns_rbind [OF retransmit_step_returns])

lemmas cc_single_events = cc_init_def cc_timeout_fields [simplified] IW_def IW_CALC_def

interpretation tahoe: cc_algorithm tahoe_cong_control
  by unfold_locales (auto simp: cc_single_events tahoe_returns
      intro: cc_safe_laws [OF tahoe_safe, THEN ensures_mono])

interpretation reno: cc_algorithm reno_cong_control
  by unfold_locales (auto simp: cc_single_events reno_returns
      intro: cc_safe_laws [OF reno_safe, THEN ensures_mono])

interpretation new_reno: cc_algorithm new_reno_cong_control
  by unfold_locales (auto simp: cc_single_events new_reno_returns
      intro: cc_safe_laws [OF new_reno_safe, THEN ensures_mono])

interpretation lstm_reno: cc_algorithm lstm_reno_cong_control
  by unfold_locales (auto simp: cc_single_events lstm_reno_returns
      intro: cc_safe_laws [OF lstm_reno_safe, THEN ensures_mono])

interpretation cc: cc_algorithm "cong_control ops" for ops
  by (cases ops)
    (simp_all add: tahoe.cc_algorithm_axioms reno.cc_algorithm_axioms new_reno.cc_algorithm_axioms
      lstm_reno.cc_algorithm_axioms)

section \<open>Properties of the algorithms\<close>

lemma retransmit_step_sends:
  assumes "good_env env" and "snd_inv S t" and "state t = TCP_ESTABLISHED" and "unat (rcv_scale t) < 32"
  shows "returns (retransmit_step env (t, w)) (\<lambda>(t', w'). t' = t \<and> extends w w' \<and>
     (\<exists>d. appended w w' = [d] \<and> resends S t (snd_una t) d))"
proof -
  have cs: "can_send t" using assms(2,4) by (simp add: can_send_def snd_inv_def)
  have gs: "good_socket env" using assms(1) by (simp add: good_env_def good_socket_def)
  from utcp_retransmit_sends [OF assms(1) cs assms(3), of "snd_una t" w]
  obtain r w' d where seg: "utcp_retransmit_segment env t (snd_una t) w = Inr (r, w')" and d: "appended w w' = [d]"
    by (auto simp: returns_def)
  then have step: "retransmit_step env (t, w) = Inr (t, w')" by (simp add: retransmit_step_def)
  show ?thesis
    using retransmit_step_eq [OF step] d assms(2,3) gs by (simp add: step)
qed

lemma cc_halve_ssthresh_max: "cc_halve_ssthresh f = max (2 * MSS) (f div 2)"
  by (auto simp: cc_halve_ssthresh_def Let_def max_def)

lemma resends_cc_pure:
  assumes "cc_pure t t'"
  shows "resends S t' q d = resends S t q d"
proof -
  have "same_but_cc t t'" using assms by (simp add: cc_pure_def)
  then show ?thesis by (simp add: resends_def seq_pos_def snd_written_def same_but_cc_simps)
qed

text \<open>
  C25: From the initialisation event on, every sequence of congestion events runs to the end under
  each of the four algorithms: no division by zero, no failed assertion, and the slow-start
  threshold never falls below two segments.
\<close>

theorem cc_events_run:
  assumes "good_env env" and "can_send t"
  shows "returns (foldl (\<lambda>r ev. rbind r (cong_control ops env ev)) (cong_control ops env TCP_CC_EVENT_INIT (t, w)) evs)
    (\<lambda>(t', w'). 2 * MSS \<le> ssthresh t')"
proof -
  have "foldl (\<lambda>r ev. rbind r (cong_control ops env ev)) r evs = rbind r (cc.feed ops env evs)" for r
  proof (induction evs arbitrary: r)
    case Nil
    then show ?case by (cases r) simp_all
  next
    case (Cons ev evs)
    then show ?case by (cases r) (simp_all add: rbind_assoc)
  qed
  then show ?thesis
    using cc.start_returns [OF assms, of ops evs w] by (simp add: ssthresh_floor_def)
qed

theorem cc_events_run_witness:
  "returns (foldl (\<lambda>r ev. rbind r (cong_control utcp_new_reno env0 ev))
      (cong_control utcp_new_reno env0 TCP_CC_EVENT_INIT (calloc_tcb utcp_new_reno, world0))
      [TCP_CC_EVENT_TIMEOUT 0, TCP_CC_EVENT_ACK 1400 0, TCP_CC_EVENT_DUP_ACK 3])
    (\<lambda>(t', w'). 2 * MSS \<le> ssthresh t')"
  by (rule cc_events_run [OF good_env0]) (simp add: can_send_def)

text \<open>
  C26: The third duplicate acknowledgement under NewReno, outside the previous recovery window,
  is a fast retransmit: exactly one datagram, the segment at the first unacknowledged byte; the
  threshold is half the flight but at least two segments; the window is the threshold plus three segments,
  and recovery lasts up to the highest byte sent.
\<close>

theorem new_reno_fast_retransmit:
  assumes "good_env env" and "snd_inv S t" and "state t = TCP_ESTABLISHED" and "unat (rcv_scale t) < 32"
    and "SEQ_GT (snd_una t) (recover t)"
  shows "returns (new_reno_cong_control env (TCP_CC_EVENT_DUP_ACK 3) (t, w)) (\<lambda>(t', w').
     (\<exists>d. appended w w' = [d] \<and> resends S t (snd_una t) d) \<and>
     ssthresh t' = max (2 * MSS) ((snd_nxt t - snd_una t) div 2) \<and> cwnd t' = ssthresh t' + 3 * MSS \<and>
     ca_state t' = TCP_CA_RECOVERY \<and> recover t' = snd_max t \<and> t_rtt t' = 0 \<and> snd_nxt t' = snd_nxt t)"
proof -
  let ?t1 = "t\<lparr>ssthresh := cc_halve_ssthresh (snd_nxt t - snd_una t), recover := snd_max t\<rparr>"
  have pure: "cc_pure t ?t1" by (simp add: cc_halve_ssthresh_floor [simplified])
  from retransmit_step_sends [OF assms(1), of S ?t1 w] assms(2,3,4) snd_inv_cc [OF pure]
  obtain w' d where "retransmit_step env (?t1, w) = Inr (?t1, w')" and "appended w w' = [d]"
    and "resends S ?t1 (snd_una t) d"
    by (auto simp: returns_def)
  then show ?thesis
    using assms(5) resends_cc_pure [OF pure]
    by (simp add: new_reno_dup_ack_def cc_halve_ssthresh_max)
qed

theorem new_reno_fast_retransmit_witness:
  "returns (new_reno_cong_control env0 (TCP_CC_EVENT_DUP_ACK 3) (sample_tcb, world0)) (\<lambda>(t', w').
     (\<exists>d. appended world0 w' = [d] \<and> resends (\<lambda>_. 0) sample_tcb 1 d) \<and>
     ssthresh t' = 2800 \<and> cwnd t' = 7000 \<and> recover t' = 4201)"
  using new_reno_fast_retransmit [OF good_env0 sample_inv, of world0]
  by (auto simp: SEQ_GT_def elim!: returns_mono)


text \<open>
  C27: An acknowledgement during NewReno recovery. One that covers the recovery point ends recovery
  with the window back at the threshold, and sends nothing; a partial one
  resends exactly the segment at the new first unacknowledged byte and stays in recovery.
\<close>

theorem new_reno_recovery_ack:
  assumes "good_env env" and "snd_inv S t" and "state t = TCP_ESTABLISHED" and "unat (rcv_scale t) < 32"
    and "ca_state t = TCP_CA_RECOVERY"
  shows "returns (new_reno_cong_control env (TCP_CC_EVENT_ACK acked rtt) (t, w)) (\<lambda>(t', w').
     if SEQ_GEQ (snd_una t) (recover t)
     then t' = t\<lparr>cwnd := ssthresh t, ca_state := TCP_CA_OPEN\<rparr> \<and> w' = w
     else ca_state t' = TCP_CA_RECOVERY \<and> t_dupacks t' = 0 \<and> t_rtt t' = 0 \<and> recover t' = recover t \<and>
       cwnd t' = (if acked < cwnd t then cwnd t - acked else MSS) + MSS \<and>
       (\<exists>d. appended w w' = [d] \<and> resends S t (snd_una t) d))"
proof (cases "SEQ_GEQ (snd_una t) (recover t)")
  case True
  then show ?thesis using assms(5) by (simp add: new_reno_ack_def)
next
  case False
  from retransmit_step_sends [OF assms(1,2,3,4), of w]
  obtain w' d where "retransmit_step env (t, w) = Inr (t, w')" and "appended w w' = [d]"
    and "resends S t (snd_una t) d"
    by (auto simp: returns_def)
  then show ?thesis using assms(5) False by (auto simp: new_reno_ack_def)
qed

theorem new_reno_recovery_ack_witness:
  "returns (new_reno_cong_control env0 (TCP_CC_EVENT_ACK 1400 0)
      (sample_tcb\<lparr>ca_state := TCP_CA_RECOVERY, recover := 4201\<rparr>, world0)) (\<lambda>(t', w').
     ca_state t' = TCP_CA_RECOVERY \<and> cwnd t' = 4200 \<and> (\<exists>d. appended world0 w' = [d]))"
  using new_reno_recovery_ack [OF good_env0,
      of "\<lambda>_. 0" "sample_tcb\<lparr>ca_state := TCP_CA_RECOVERY, recover := 4201\<rparr>" 1400 0 world0]
    snd_inv_cc [of sample_tcb "sample_tcb\<lparr>ca_state := TCP_CA_RECOVERY, recover := 4201\<rparr>" "\<lambda>_. 0"] sample_inv
  by (auto simp: SEQ_GEQ_def elim!: returns_mono)

text \<open>
  C28: The LSTM variant is NewReno as long as the predictor has not fired. Once it has, an
  acknowledgement in any state but recovery first lowers the threshold to half the flight, never raising it.
  This is not what the comment of \<^verbatim>\<open>lstm_reno.c\<close> at line 56 announces, \<^emph>\<open>only act in CA_OPEN\<close>: the code tests
  for recovery only, and the second equation shows it acting after a timeout, in the loss state.
\<close>

theorem lstm_reno_refines_new_reno:
  "(lstm_reno_cong_control env ev (t, w) =
    (if g_fired w \<and> ca_state t \<noteq> TCP_CA_RECOVERY
     then (case ev of TCP_CC_EVENT_ACK acked rtt \<Rightarrow>
             new_reno_cong_control env ev
               (t\<lparr>ssthresh := min (ssthresh t) (max (2 * MSS) ((snd_nxt t - snd_una t) div 2))\<rparr>, w)
           | _ \<Rightarrow> new_reno_cong_control env ev (t, w))
     else new_reno_cong_control env ev (t, w))) \<and>
   lstm_reno_cong_control env (TCP_CC_EVENT_ACK acked rtt) (t\<lparr>ca_state := TCP_CA_LOSS\<rparr>, w\<lparr>g_fired := True\<rparr>) =
     new_reno_cong_control env (TCP_CC_EVENT_ACK acked rtt)
       (t\<lparr>ca_state := TCP_CA_LOSS, ssthresh := min (ssthresh t) (max (2 * MSS) ((snd_nxt t - snd_una t) div 2))\<rparr>,
        w\<lparr>g_fired := True\<rparr>)"
proof -
  have "min (ssthresh t) m = (if m < ssthresh t then m else ssthresh t)" for m by (auto simp: min_def)
  then show ?thesis
    by (cases ev)
      (auto simp: lstm_reno_ack_def new_reno_ack_def lstm_reno_dup_ack_def new_reno_dup_ack_def
        lstm_client_fired_def cc_halve_ssthresh_max Let_def)
qed

text \<open>
  After a timeout under NewReno the three duplicate acknowledgements that follow do not start a fast
  retransmit, as long as the data in flight at the timeout is not acknowledged beyond what had been sent.
\<close>

theorem new_reno_timeout_blocks_fast_retransmit:
  assumes "new_reno_cong_control env (TCP_CC_EVENT_TIMEOUT f) (t, w) = Inr (t1, w1)"
    and "snd_una t2 = snd_una t1" and "recover t2 = recover t1" and "SEQ_LEQ (snd_una t) (snd_max t)"
  shows "new_reno_cong_control env (TCP_CC_EVENT_DUP_ACK 3) (t2, w2) = Inr (t2, w2)"
proof -
  have "recover t1 = snd_max t" and "snd_una t1 = snd_una t"
    using assms(1) by (auto simp: cc_timeout_def Let_def)
  then show ?thesis
    using assms(2-4) by (simp add: new_reno_dup_ack_def SEQ_GT_not_LEQ)
qed

theorem new_reno_timeout_blocks_fast_retransmit_witness:
  "new_reno_cong_control env0 (TCP_CC_EVENT_DUP_ACK 3)
     (cc_timeout 4200 (sample_tcb\<lparr>recover := 4201\<rparr>), world0) =
   Inr (cc_timeout 4200 (sample_tcb\<lparr>recover := 4201\<rparr>), world0)"
  using new_reno_timeout_blocks_fast_retransmit [of env0 4200 sample_tcb world0
      "cc_timeout 4200 (sample_tcb\<lparr>recover := 4201\<rparr>)" world0 "cc_timeout 4200 (sample_tcb\<lparr>recover := 4201\<rparr>)" world0]
  by (simp add: SEQ_LEQ_def del: sample_simps(7))

text \<open>One acknowledgement moves the congestion window by at most one segment.\<close>

lemma cc_aimd_increment:
  assumes "cc_aimd acked t = Inr t'"
  shows "unat (cwnd t' - cwnd t) \<le> MSS"
    and "acked \<noteq> 0 \<Longrightarrow> 1 \<le> unat (cwnd t' - cwnd t)"
proof -
  let ?q = "unat (min acked (cwnd t)) * MSS div unat (cwnd t)"
  have "unat (min acked (cwnd t)) * MSS \<le> unat (cwnd t) * MSS"
    by (simp add: min_def word_le_nat_alt)
  then have q: "?q \<le> MSS"
    by (metis div_le_mono div_mult_self1_is_m div_by_0 zero_le gr_zeroI)
  have m: "unat (min acked MSS) \<le> MSS" "acked \<noteq> 0 \<Longrightarrow> 1 \<le> unat (min acked MSS)"
    by (auto simp: min_def word_le_nat_alt unat_gt_0 Suc_le_eq)
  have c: "unat (of_nat (max ?q 1) :: u32) = max ?q 1"
    using q by (intro unat_of_nat32) auto
  show "unat (cwnd t' - cwnd t) \<le> MSS" "acked \<noteq> 0 \<Longrightarrow> 1 \<le> unat (cwnd t' - cwnd t)"
    using assms m q c by (auto simp: cc_aimd_def Let_def split: if_splits)
qed

text \<open>
  One acknowledgement opens the congestion window by at least one byte and at most one segment,
  in slow start and in congestion avoidance alike.
\<close>

theorem cc_aimd_growth:
  assumes "cc_aimd acked t = Inr t'" and "acked \<noteq> 0"
  shows "1 \<le> unat (cwnd t' - cwnd t) \<and> unat (cwnd t' - cwnd t) \<le> MSS \<and>
    ssthresh t' = ssthresh t \<and> ca_state t' \<noteq> TCP_CA_LOSS"
  using cc_aimd_increment [OF assms(1)] assms
  by (auto simp: cc_aimd_def Let_def split: if_splits)

text \<open>
  Whatever the event and the algorithm, every datagram that congestion control puts on the wire
  carries bytes of the application's stream at their place and the current acknowledgement, and the send buffer keeps agreeing with
  the stream.
\<close>

theorem cc_stream_integrity:
  assumes "snd_inv S t" and "state t = TCP_ESTABLISHED" and "good_socket env"
  shows "ensures (cong_control ops env ev (t, w)) (\<lambda>(t', w').
     snd_inv S t' \<and> (\<forall>d \<in> set (appended w w'). conveys S t d))"
  using assms by (rule cc.stream)

end
