(* ===== verification/Timer.thy ===== *)
theory Timer
  imports Congestion
begin

text \<open>
  Timers: \<^verbatim>\<open>src/utcp/net/timer.c\<close>. The expiry handlers, one tick of the slow-timer thread over a
  block and over the descriptor table, the pacing of the thread, and the round-trip estimator. The
  lemmas show what a timeout does to the connection, that the estimator is the integer form of
  RFC 6298, and that the retransmission timeout stays between 200 ms and 64 s.
\<close>

section \<open>Expiry\<close>

definition tcp_backoff :: "u32 list" where
  "tcp_backoff = [1, 2, 4, 8, 16, 32, 64, 64, 64, 64, 64, 64, 64]"

definition get_current_time_ms :: "env \<Rightarrow> world \<Rightarrow> (u64 \<times> world) res" where
  "get_current_time_ms env w =
     (case clock_gettime env (clock_reads w) of
        None \<Rightarrow> err_sys ''Can not get current time''
      | Some (tv_sec, tv_nsec) \<Rightarrow>
          Inr (tv_sec * 1000 + tv_nsec div 1000000, w\<lparr>clock_reads := Suc (clock_reads w)\<rparr>))"

text \<open>
  The products are computed in \<^verbatim>\<open>int\<close> and stored in a \<^verbatim>\<open>short\<close>.
\<close>

definition backed_off_rto :: "u32 \<Rightarrow> u32 \<Rightarrow> u32" where
  "backed_off_rto base_rto backoff =
     (let new_timer = base_rto * backoff
      in if sint new_timer > int TCPTV_REXMTMAX then of_nat TCPTV_REXMTMAX else new_timer)"

definition utcp_timers_rexmt :: "env \<Rightarrow> st \<Rightarrow> st res" where
  "utcp_timers_rexmt env s = (case s of (tcb, w) \<Rightarrow>
     let tcb = tcb\<lparr>t_rxtshift := t_rxtshift tcb + 1\<rparr> in
     rbind (arr_get tcp_backoff (unat (t_rxtshift tcb))) (\<lambda>backoff_multiplier.
     let base_rto = (if t_rxtcur tcb > 0 then t_rxtcur tcb else of_nat TCPTV_SRTTDFLT);
         new_timer = backed_off_rto base_rto backoff_multiplier;
         tcb = set_timer TCPT_REXMT (ucast new_timer) tcb;
         args = TCP_CC_EVENT_TIMEOUT (snd_nxt tcb - snd_una tcb)
     in rbind (log_lstm_event env tcb 0 0 False True w) (\<lambda>(tcb, w).
        rbind (cong_control (cc_ops tcb) env args (tcb\<lparr>snd_nxt := snd_una tcb, t_rtt := 0\<rparr>, w))
          (call_output env))))"

definition utcp_timers :: "env \<Rightarrow> nat \<Rightarrow> st \<Rightarrow> st res" where
  "utcp_timers env timer s =
     (if timer = TCPT_REXMT then utcp_timers_rexmt env s
      else if timer = TCPT_PERSIST \<or> timer = TCPT_KEEP \<or> timer = TCPT_2MSL then Inr s
      else if timer = TCPT_DELACK
      then call_output env ((fst s)\<lparr>t_flags := set_flag (clear_flag (t_flags (fst s)) TF_DELACK) TF_ACKNOW\<rparr>, snd s)
      else err_sys ''Unknown timer index expired'')"

section \<open>The slow-timer thread\<close>

definition tick_timer :: "env \<Rightarrow> nat \<Rightarrow> st \<Rightarrow> st res" where
  "tick_timer env timer s = (case s of (tcb, w) \<Rightarrow>
     if sint (t_timer tcb timer) > 0
     then let tcb = set_timer timer (t_timer tcb timer - 1) tcb
          in if t_timer tcb timer = 0 then utcp_timers env timer (tcb, w) else Inr (tcb, w)
     else Inr (tcb, w))"

fun tick_timers :: "env \<Rightarrow> nat list \<Rightarrow> st \<Rightarrow> st res" where
  "tick_timers env [] s = Inr s"
| "tick_timers env (timer # timers) s = rbind (tick_timer env timer s) (tick_timers env timers)"

definition slowtimo_tcb :: "env \<Rightarrow> st \<Rightarrow> st res" where
  "slowtimo_tcb env s = (case s of (tcb, w) \<Rightarrow>
     if state tcb = TCP_CLOSED then Inr (tcb, w)
     else let tcb = tcb\<lparr>t_idle := t_idle tcb + 1\<rparr>;
              tcb = (if t_rtt tcb > 0 then tcb\<lparr>t_rtt := t_rtt tcb + 1\<rparr> else tcb)
          in tick_timers env [0, 1, 2, 3, 4] (tcb, w))"

text \<open>One round over the descriptor table, then how long the thread sleeps.\<close>

fun slowtimo_table :: "env \<Rightarrow> tcb option list \<Rightarrow> world \<Rightarrow> (tcb option list \<times> world) res" where
  "slowtimo_table env [] w = Inr ([], w)"
| "slowtimo_table env (None # rest) w =
     rbind (slowtimo_table env rest w) (\<lambda>(rest, w). Inr (None # rest, w))"
| "slowtimo_table env (Some tcb # rest) w =
     rbind (slowtimo_tcb env (tcb, w)) (\<lambda>(tcb, w).
     rbind (slowtimo_table env rest w) (\<lambda>(rest, w). Inr (Some tcb # rest, w)))"

definition slowtimo_sleep :: "u64 \<Rightarrow> u64 \<Rightarrow> u64 option \<times> u64" where
  "slowtimo_sleep now next_tick_time =
     (if now < next_tick_time then Some ((next_tick_time - now) * 1000) else None, next_tick_time + TCP_TICK_MS)"

definition utcp_slowtimo_round ::
  "env \<Rightarrow> tcb option list \<Rightarrow> u64 \<Rightarrow> world \<Rightarrow> (tcb option list \<times> u64 option \<times> u64 \<times> world) res" where
  "utcp_slowtimo_round env utcp_fd_table next_tick_time w =
     rbind (slowtimo_table env utcp_fd_table w) (\<lambda>(tbl, w).
     rbind (get_current_time_ms env w) (\<lambda>(now, w).
     case slowtimo_sleep now next_tick_time of (sleep, next) \<Rightarrow> Inr (tbl, sleep, next, w)))"

section \<open>The round-trip estimator\<close>

definition clamp_rto :: "u32 \<Rightarrow> u32" where
  "clamp_rto rto =
     (if rto < of_nat TCPTV_MIN then of_nat TCPTV_MIN
      else if rto > of_nat TCPTV_REXMTMAX then of_nat TCPTV_REXMTMAX else rto)"

definition utcp_xmit_timer :: "u32 \<Rightarrow> tcb \<Rightarrow> tcb" where
  "utcp_xmit_timer rtt_us tcb =
     (let rtt_ticks = rtt_us div (TCP_TICK_MS * 1000);
          rtt_ticks = (if sint rtt_ticks < 1 then 1 else rtt_ticks);
          tcb = (if t_srtt tcb = 0
                 then tcb\<lparr>t_srtt := push_bit 3 rtt_ticks, t_rttvar := push_bit 1 rtt_ticks\<rparr>
                 else let delta = rtt_ticks - drop_bit 3 (t_srtt tcb);
                          tcb = tcb\<lparr>t_srtt := t_srtt tcb + delta\<rparr>;
                          delta = (if sint delta < 0 then - delta else delta);
                          delta = delta - drop_bit 2 (t_rttvar tcb)
                      in tcb\<lparr>t_rttvar := t_rttvar tcb + delta\<rparr>);
          tcb = tcb\<lparr>t_rxtcur := clamp_rto (drop_bit 3 (t_srtt tcb) + t_rttvar tcb)\<rparr>
      in if min_rtt_seen_us tcb = 0 \<or> ucast rtt_us < min_rtt_seen_us tcb
         then tcb\<lparr>min_rtt_seen_us := ucast rtt_us\<rparr> else tcb)"

section \<open>Arithmetic of the estimator\<close>

definition rtt_ticks_of :: "u32 \<Rightarrow> nat" where
  "rtt_ticks_of rtt_us = max 1 (unat rtt_us div 10000)"

definition rtt_bounds :: "tcb \<Rightarrow> bool" where
  "rtt_bounds t \<longleftrightarrow> unat (t_srtt t) \<le> 8 * 429496 \<and> unat (t_rttvar t) \<le> 4 * 429496"

lemma sint_small32: "unat (x :: u32) < 2147483648 \<Longrightarrow> sint x = int (unat x)"
  using sint_unat32 [of x "unat x"] by simp

lemma unat_drop_bit_div: "unat (drop_bit k (x :: u32)) = unat x div 2 ^ k"
  unfolding unat_drop_bit_eq by (simp add: drop_bit_eq_div)

lemma rtt_ticks_word:
  "(if sint (rtt_us div 10000 :: u32) < 1 then 1 else rtt_us div 10000) = of_nat (rtt_ticks_of rtt_us)"
  "rtt_ticks_of rtt_us \<le> 429496"
proof -
  have u: "unat (rtt_us div 10000) = unat rtt_us div 10000" by (simp add: unat_div)
  have lt: "unat rtt_us div 10000 \<le> 429496" using unat_lt_pow32 [of rtt_us] by simp
  show "rtt_ticks_of rtt_us \<le> 429496" using lt by (simp add: rtt_ticks_of_def)
  have s: "sint (rtt_us div 10000) = int (unat rtt_us div 10000)" using sint_small32 [of "rtt_us div 10000"] u lt by simp
  show "(if sint (rtt_us div 10000 :: u32) < 1 then 1 else rtt_us div 10000) = of_nat (rtt_ticks_of rtt_us)"
  proof (cases "unat rtt_us div 10000 < 1")
    case True
    then show ?thesis using s by (simp add: rtt_ticks_of_def)
  next
    case False
    then have "rtt_ticks_of rtt_us = unat (rtt_us div 10000)" using u by (simp add: rtt_ticks_of_def)
    then show ?thesis using s False by simp
  qed
qed

lemma ewma_step:
  fixes x :: u32
  assumes "unat x \<le> 2 ^ k * 429496" and "r \<le> 429496" and "k = 2 \<or> k = 3"
  shows "unat (x + (of_nat r - drop_bit k x)) = unat x - unat x div 2 ^ k + r"
    and "unat x - unat x div 2 ^ k + r \<le> 2 ^ k * 429496"
proof -
  note d = unat_drop_bit_div [of k x]
  have le: "drop_bit k x \<le> x" by (simp add: word_le_nat_alt d)
  have sub: "unat (x - drop_bit k x) = unat x - unat x div 2 ^ k"
    using le by (simp add: unat_sub d)
  show b: "unat x - unat x div 2 ^ k + r \<le> 2 ^ k * 429496"
    using assms by auto
  have r: "unat (of_nat r :: u32) = r" using assms(2) by (intro unat_of_nat32) simp
  have "(2 :: nat) ^ k \<le> 8" using assms(3) by auto
  then have "unat (x - drop_bit k x) + unat (of_nat r :: u32) < 4294967296" using b sub r
    by (simp only: sub r)
  from unat_add_small32 [OF this] sub r
  show "unat (x + (of_nat r - drop_bit k x)) = unat x - unat x div 2 ^ k + r"
    by (simp add: algebra_simps)
qed


text \<open>The estimator in plain numbers: SRTT scaled by 8, RTTVAR by 4, as in RFC 6298.\<close>

lemma abs_delta:
  fixes x :: u32
  assumes "unat x \<le> 3435968" and "r \<le> 429496"
  defines "d \<equiv> of_nat r - drop_bit 3 x"
  shows "(if sint d < 0 then - d else d) = of_nat (if r < unat x div 8 then unat x div 8 - r else r - unat x div 8)"
proof -
  define q where "q = unat x div 8"
  have q: "drop_bit 3 x = of_nat q"
    using arg_cong [OF unat_drop_bit_div [of 3 x], of "of_nat :: nat \<Rightarrow> u32"] by (simp add: q_def)
  have le: "q \<le> 429496" using assms(1) by (simp add: q_def)
  have "sint d = int r - int q"
    using sint_seq_diff [of r q 0] le assms(2) by (simp add: d_def q)
  then show ?thesis
    by (auto simp: d_def q of_nat_diff simp flip: q_def)
qed

lemma unat_clamp_rto: "unat (clamp_rto x) = min 6400 (max 20 (unat x))"
  by (auto simp: clamp_rto_def word_less_nat_alt)

definition srtt_next :: "nat \<Rightarrow> nat \<Rightarrow> nat" where
  "srtt_next s r = (if s = 0 then 8 * r else s - s div 8 + r)"

definition rttvar_next :: "nat \<Rightarrow> nat \<Rightarrow> nat \<Rightarrow> nat" where
  "rttvar_next s v r = (if s = 0 then 2 * r
     else v - v div 4 + (if r < s div 8 then s div 8 - r else r - s div 8))"

lemma utcp_xmit_timer_values:
  fixes rtt_us :: u32 and t :: tcb
  assumes "rtt_bounds t"
  defines "t' \<equiv> utcp_xmit_timer rtt_us t" and "r \<equiv> rtt_ticks_of rtt_us"
  shows "unat (t_srtt t') = srtt_next (unat (t_srtt t)) r"
    and "unat (t_rttvar t') = rttvar_next (unat (t_srtt t)) (unat (t_rttvar t)) r"
    and "t_rxtcur t' = clamp_rto (drop_bit 3 (t_srtt t') + t_rttvar t')"
    and "rtt_bounds t'"
proof -
  note R = rtt_ticks_word [of rtt_us, folded r_def]
  have r: "unat (of_nat r * 8 :: u32) = 8 * r" "unat (of_nat r * 2 :: u32) = 2 * r"
    using unat_of_nat32 [of "r * 8"] unat_of_nat32 [of "r * 2"] R(2) by simp_all
  have b: "unat (t_srtt t) \<le> 3435968" "unat (t_rttvar t) \<le> 1717984" using assms(1) by (simp_all add: rtt_bounds_def)
  define m where "m = (if r < unat (t_srtt t) div 8 then unat (t_srtt t) div 8 - r else r - unat (t_srtt t) div 8)"
  have m: "m \<le> 429496" using b(1) R(2) by (auto simp: m_def)
  note S = ewma_step [of "t_srtt t" 3 r] and V = ewma_step [of "t_rttvar t" 2 m]
  note D = abs_delta [OF b(1) R(2), folded m_def]
  show s: "unat (t_srtt t') = srtt_next (unat (t_srtt t)) r"
    using S b R(2) r
    by (auto simp: t'_def utcp_xmit_timer_def R(1) Let_def srtt_next_def unat_eq_0 push_bit_eq_mult)
  show v: "unat (t_rttvar t') = rttvar_next (unat (t_srtt t)) (unat (t_rttvar t)) r"
    using V b m r D
    by (auto simp: t'_def utcp_xmit_timer_def R(1) Let_def rttvar_next_def unat_eq_0 push_bit_eq_mult m_def [symmetric])
  show "rtt_bounds t'"
    using S(2) V(2) b m R(2) by (auto simp: rtt_bounds_def s v srtt_next_def rttvar_next_def m_def [symmetric])
  show "t_rxtcur t' = clamp_rto (drop_bit 3 (t_srtt t') + t_rttvar t')"
    by (simp add: t'_def utcp_xmit_timer_def Let_def)
qed

text \<open>
  C19: The round-trip estimator computes the integer form of RFC 6298 without any wrap-around:
  SRTT (scaled by 8) moves by an eighth of the error, RTTVAR (scaled by 4) by a quarter of the
  deviation, the first sample sets R and R/2, and the timeout is SRTT + 4 RTTVAR
  clamped to 200 ms and 64 s. The bounds it needs hold of a fresh connection and are kept.
\<close>

theorem utcp_xmit_timer_rfc6298:
  assumes "rtt_bounds t"
  shows "let t' = utcp_xmit_timer rtt_us t; r = max 1 (unat rtt_us div 10000) in
     unat (t_srtt t') = srtt_next (unat (t_srtt t)) r \<and>
     unat (t_rttvar t') = rttvar_next (unat (t_srtt t)) (unat (t_rttvar t)) r \<and>
     unat (t_rxtcur t') = min 6400 (max 20 (unat (t_srtt t') div 8 + unat (t_rttvar t'))) \<and>
     0 < unat (t_srtt t') \<and> rtt_bounds t'"
proof -
  define t' where "t' = utcp_xmit_timer rtt_us t"
  note v = utcp_xmit_timer_values [OF assms, of rtt_us, folded t'_def, unfolded rtt_ticks_of_def]
  have "unat (drop_bit 3 (t_srtt t')) + unat (t_rttvar t') < 4294967296"
    using v(4) unat_drop_bit_div [of 3 "t_srtt t'"] by (auto simp: rtt_bounds_def)
  from unat_add_small32 [OF this]
  have "unat (t_rxtcur t') = min 6400 (max 20 (unat (t_srtt t') div 8 + unat (t_rttvar t')))"
    using v(3) unat_drop_bit_div [of 3 "t_srtt t'"] by (simp add: unat_clamp_rto)
  moreover have "0 < unat (t_srtt t')" using v(1) by (auto simp: srtt_next_def max_def)
  ultimately show ?thesis
    unfolding Let_def t'_def [symmetric] using v(1,2,4) by (intro conjI)
qed

theorem utcp_xmit_timer_rfc6298_witness:
  "let t' = utcp_xmit_timer 250000 (calloc_tcb utcp_new_reno); r = max 1 (unat (250000 :: u32) div 10000) in
     unat (t_srtt t') = srtt_next 0 r \<and> unat (t_rttvar t') = rttvar_next 0 0 r \<and>
     unat (t_rxtcur t') = min 6400 (max 20 (unat (t_srtt t') div 8 + unat (t_rttvar t'))) \<and>
     0 < unat (t_srtt t') \<and> rtt_bounds t'"
  using utcp_xmit_timer_rfc6298 [of "calloc_tcb utcp_new_reno" 250000] by (simp add: rtt_bounds_def)

section \<open>Timeouts\<close>

text \<open>The parts of a block that timers, output and congestion control leave alone.\<close>

definition same_conn :: "tcb \<Rightarrow> tcb \<Rightarrow> bool" where
  "same_conn t t' \<longleftrightarrow> state t' = state t \<and> iss t' = iss t \<and> irs t' = irs t \<and> rcv_nxt t' = rcv_nxt t \<and>
     recv_buf t' = recv_buf t \<and> recv_buf_head t' = recv_buf_head t \<and> recv_buf_tail t' = recv_buf_tail t \<and>
     ooo_head t' = ooo_head t \<and> ooo_bytes t' = ooo_bytes t \<and> rcv_scale t' = rcv_scale t \<and>
     send_buf t' = send_buf t \<and> send_buf_head t' = send_buf_head t \<and> send_buf_tail t' = send_buf_tail t \<and>
     snd_una t' = snd_una t \<and> cc_ops t' = cc_ops t"

lemma same_conn_refl [simp]: "same_conn t t"
  by (simp add: same_conn_def)

lemma same_conn_trans: "same_conn a b \<Longrightarrow> same_conn b c \<Longrightarrow> same_conn a c"
  by (simp add: same_conn_def)

lemma same_conn_cc: "same_but_cc t t' \<Longrightarrow> same_conn t t'"
  by (simp add: same_conn_def same_but_cc_simps)

lemma same_conn_output: "same_but_output t t' \<Longrightarrow> same_conn t t'"
  by (simp add: same_conn_def same_but_output_simps)

lemma same_conn_lstm: "same_but_lstm t t' \<Longrightarrow> same_conn t t'"
  by (simp add: same_conn_def same_but_lstm_simps)

lemma same_conn_updates [simp]:
  "same_conn t (x\<lparr>t_rxtshift := s\<rparr>) = same_conn t x"
  "same_conn t (x\<lparr>t_timer := f\<rparr>) = same_conn t x"
  "same_conn t (x\<lparr>t_flags := fl\<rparr>) = same_conn t x"
  "same_conn t (x\<lparr>t_rtt := r\<rparr>) = same_conn t x"
  "same_conn t (x\<lparr>t_idle := r\<rparr>) = same_conn t x"
  "same_conn t (x\<lparr>snd_nxt := r\<rparr>) = same_conn t x"
  by (simp_all add: same_conn_def)

lemma same_conn_nxt: "same_conn t t' \<Longrightarrow> rcv_nxt t' = rcv_nxt t"
  by (simp add: same_conn_def)

lemma same_conn_can_send: "same_conn t t' \<Longrightarrow> can_send t' = can_send t"
  by (simp add: same_conn_def can_send_def)

lemma rexmt_kept:
  "t_timer (cancel_delack t) 0 = t_timer t 0"
  "t_timer t 0 \<noteq> 0 \<Longrightarrow> t_timer (advance_send n b t) 0 = t_timer t 0"
  by (simp_all add: cancel_delack_def advance_send_def Let_def)

lemma utcp_output_rexmt:
  assumes "t_timer t 0 \<noteq> 0"
  shows "ensures (utcp_output env t w) (\<lambda>(_, t', w'). t_timer t' 0 = t_timer t 0)"
  unfolding utcp_output_unfold
proof (rule output_loop_rule [where I = "\<lambda>t' w'. t_timer t' 0 = t_timer t 0"])
  fix force t1 w1 c n t2 w2
  assume I: "t_timer t1 0 = t_timer t 0"
    and it: "output_iter env (tcp_outflags (state t1)) force t1 w1 = Inr (c, n, t2, w2)"
  from it show "t_timer t2 0 = t_timer t 0"
    by (cases rule: output_iter_cases) (simp_all add: I assms rexmt_kept)
qed simp

text \<open>The state handed to congestion control and to the output loop when the timer expires.\<close>

definition rexmt_armed :: "u32 \<Rightarrow> tcb \<Rightarrow> tcb" where
  "rexmt_armed mult t =
     set_timer 0 (ucast (backed_off_rto (if t_rxtcur t > 0 then t_rxtcur t else of_nat TCPTV_SRTTDFLT) mult))
       (t\<lparr>t_rxtshift := t_rxtshift t + 1\<rparr>)"

lemma utcp_timers_rexmt_eq:
  assumes "arr_get tcp_backoff (unat (t_rxtshift t + 1)) = Inr mult"
  shows "utcp_timers_rexmt env (t, w) =
    rbind (log_lstm_event env (rexmt_armed mult t) 0 0 False True w) (\<lambda>(t1, w1).
    rbind (cong_control (cc_ops t1) env (TCP_CC_EVENT_TIMEOUT (snd_nxt t - snd_una t))
        (t1\<lparr>snd_nxt := snd_una t1, t_rtt := 0\<rparr>, w1)) (call_output env))"
  using assms by (simp add: utcp_timers_rexmt_def rexmt_armed_def Let_def)

lemma tcp_backoff_get:
  "i < 13 \<Longrightarrow> arr_get tcp_backoff i = Inr (of_nat (min 64 (2 ^ i)))"
  "13 \<le> i \<Longrightarrow> arr_get tcp_backoff i = Inl Out_of_bounds"
proof -
  show "13 \<le> i \<Longrightarrow> arr_get tcp_backoff i = Inl Out_of_bounds"
    by (simp add: arr_get_def tcp_backoff_def)
  assume "i < 13"
  then have "i \<in> {0, 1, 2, 3, 4, 5, 6, 7, 8, 9, 10, 11, 12}"
    by (simp only: insert_iff empty_iff) presburger
  then show "arr_get tcp_backoff i = Inr (of_nat (min 64 (2 ^ i)))"
    by (auto simp: arr_get_def tcp_backoff_def)
qed

section \<open>Composing safe steps\<close>

text \<open>
  A step from \<open>(t, w)\<close> is safe for the sender when it keeps the parts of the block named by \<open>R\<close>,
  only appends to what was sent, keeps the send invariant of an established connection, and sends
  nothing but the stream, acknowledging the next byte expected before or after the step.
\<close>

definition grows :: "world \<Rightarrow> world \<Rightarrow> bool" where
  "grows w w' \<longleftrightarrow> sent w' = sent w @ appended w w'"

definition acks_either :: "tcb \<Rightarrow> tcb \<Rightarrow> dgram \<Rightarrow> bool" where
  "acks_either t t' d \<longleftrightarrow> acks (rcv_nxt t) d \<or> acks (rcv_nxt t') d"

definition safe_step :: "(tcb \<Rightarrow> tcb \<Rightarrow> bool) \<Rightarrow> env \<Rightarrow> tcb \<Rightarrow> world \<Rightarrow> st res \<Rightarrow> bool" where
  "safe_step R env t w r \<longleftrightarrow> ensures r (\<lambda>(t', w'). R t t' \<and> state t' = state t \<and> iss t' = iss t \<and> grows w w' \<and>
     (\<forall>S. snd_inv S t \<and> state t = TCP_ESTABLISHED \<and> good_socket env \<longrightarrow>
        snd_inv S t' \<and> (\<forall>d \<in> set (appended w w'). carries S (iss t) d \<and> acks_either t t' d)))"

lemma grows_refl [simp]: "grows w w"
  by (simp add: grows_def)

lemma grows_trans:
  assumes "grows a b" and "grows b c"
  shows "grows a c" "appended a c = appended a b @ appended b c"
proof -
  obtain x y where "sent b = sent a @ x" and "sent c = sent b @ y" using assms unfolding grows_def by blast
  then show "grows a c" "appended a c = appended a b @ appended b c" by (simp_all add: grows_def appended_def)
qed

lemma safe_step_seq:
  assumes "safe_step R env t w m" and "\<And>t' w'. R t t' \<Longrightarrow> m = Inr (t', w') \<Longrightarrow> safe_step Q env t' w' (f (t', w'))"
    and nxt: "\<And>t'. R t t' \<Longrightarrow> rcv_nxt t' = rcv_nxt t" and "\<And>b c. R t b \<Longrightarrow> Q b c \<Longrightarrow> P t c"
  shows "safe_step P env t w (rbind m f)"
proof -
  have "safe_step P env t w (f (t1, w1))" if m: "m = Inr (t1, w1)" for t1 w1
    unfolding safe_step_def ensures_def
  proof (intro allI impI, clarify)
    fix t2 w2
    assume f: "f (t1, w1) = Inr (t2, w2)"
    have 1: "R t t1" "state t1 = state t" "iss t1 = iss t" "grows w w1"
      "\<And>S. snd_inv S t \<Longrightarrow> state t = TCP_ESTABLISHED \<Longrightarrow> good_socket env \<Longrightarrow>
        snd_inv S t1 \<and> (\<forall>d \<in> set (appended w w1). carries S (iss t) d \<and> acks_either t t1 d)"
      using assms(1) m by (auto simp: safe_step_def)
    have 2: "Q t1 t2" "state t2 = state t1" "iss t2 = iss t1" "grows w1 w2"
      "\<And>S. snd_inv S t1 \<Longrightarrow> state t1 = TCP_ESTABLISHED \<Longrightarrow> good_socket env \<Longrightarrow>
        snd_inv S t2 \<and> (\<forall>d \<in> set (appended w1 w2). carries S (iss t1) d \<and> acks_either t1 t2 d)"
      using assms(2) [OF 1(1) m] f by (auto simp: safe_step_def)
    have either: "acks_either t t1 d \<Longrightarrow> acks_either t t2 d" "acks_either t1 t2 d \<Longrightarrow> acks_either t t2 d" for d
      using nxt [OF 1(1)] by (auto simp: acks_either_def)
    have "snd_inv S t2 \<and> (\<forall>d \<in> set (appended w w2). carries S (iss t) d \<and> acks_either t t2 d)"
      if "snd_inv S t" "state t = TCP_ESTABLISHED" "good_socket env" for S
      using 1(2,3) 1(5) [OF that] 2(5) [of S] that grows_trans [OF 1(4) 2(4)] by (auto intro: either)
    then show "P t t2 \<and> state t2 = state t \<and> iss t2 = iss t \<and> grows w w2 \<and>
      (\<forall>S. snd_inv S t \<and> state t = TCP_ESTABLISHED \<and> good_socket env \<longrightarrow>
        snd_inv S t2 \<and> (\<forall>d \<in> set (appended w w2). carries S (iss t) d \<and> acks_either t t2 d))"
      using 1(2,3) 2(2,3) grows_trans(1) [OF 1(4) 2(4)] assms(4) [OF 1(1) 2(1)] by metis
  qed
  then show ?thesis
    by (cases m) (auto simp: safe_step_def)
qed

lemma safe_step_rbind:
  assumes "safe_step R env t w m" and "\<And>t' w'. R t t' \<Longrightarrow> m = Inr (t', w') \<Longrightarrow> safe_step R env t' w' (f (t', w'))"
    and "\<And>a b c. R a b \<Longrightarrow> R b c \<Longrightarrow> R a c" and "\<And>a b. R a b \<Longrightarrow> rcv_nxt b = rcv_nxt a"
  shows "safe_step R env t w (rbind m f)"
  by (rule safe_step_seq [OF assms(1,2)]) (auto intro: assms(3,4))

lemma snd_inv_rollback:
  assumes "snd_inv S t" and "iss t' = iss t" "send_buf t' = send_buf t" "send_buf_head t' = send_buf_head t"
    "send_buf_tail t' = send_buf_tail t" "snd_una t' = snd_una t" "snd_max t' = snd_max t"
    "snd_nxt t' = snd_nxt t \<or> snd_nxt t' = snd_una t"
  shows "snd_inv S t'"
  using assms by (auto simp: snd_inv_def seq_pos_def snd_written_def)

lemma safe_step_pure:
  assumes "R t t'" and "state t' = state t" "iss t' = iss t" "send_buf t' = send_buf t"
    "send_buf_head t' = send_buf_head t" "send_buf_tail t' = send_buf_tail t" "snd_una t' = snd_una t"
    "snd_max t' = snd_max t" "snd_nxt t' = snd_nxt t \<or> snd_nxt t' = snd_una t" and "sent w' = sent w"
  shows "safe_step R env t w (Inr (t', w'))"
proof -
  have "appended w w' = []" using assms(10) by (simp add: appended_def)
  then show ?thesis
    using assms snd_inv_rollback [of _ t t'] by (auto simp: safe_step_def grows_def)
qed

lemma safe_step_from:
  assumes "safe_step R env t1 w m" and "R t t1" "state t1 = state t" "iss t1 = iss t" "send_buf t1 = send_buf t"
    "send_buf_head t1 = send_buf_head t" "send_buf_tail t1 = send_buf_tail t" "snd_una t1 = snd_una t"
    "snd_max t1 = snd_max t" "snd_nxt t1 = snd_nxt t \<or> snd_nxt t1 = snd_una t"
    and "\<And>a b c. R a b \<Longrightarrow> R b c \<Longrightarrow> R a c" and "\<And>a b. R a b \<Longrightarrow> rcv_nxt b = rcv_nxt a"
  shows "safe_step R env t w m"
  using safe_step_rbind [of R env t w "Inr (t1, w)" "\<lambda>_. m"] safe_step_pure [of R t t1 w w env] assms by auto

lemma cc_world_grows: "cc_world w w' \<Longrightarrow> grows w w'"
  by (simp add: cc_world_def grows_def)

lemma safe_step_cong_control: "safe_step same_conn env t w (cong_control ops env ev (t, w))"
proof -
  have "ensures (cong_control ops env ev (t, w)) (\<lambda>(t', w'). same_but_cc t t' \<and> cc_world w w')" by (rule cc.frame)
  moreover have "ensures (cong_control ops env ev (t, w)) (\<lambda>(t', w').
      \<forall>S. snd_inv S t \<and> state t = TCP_ESTABLISHED \<and> good_socket env \<longrightarrow>
        snd_inv S t' \<and> (\<forall>d \<in> set (appended w w'). conveys S t d))"
    using cc.stream [of _ t env ops ev w] by (fastforce simp: ensures_def)
  ultimately show ?thesis
    by (auto simp: safe_step_def ensures_def same_conn_cc cc_world_grows same_but_cc_simps conveys_def acks_either_def)
qed

lemma safe_step_call_output: "safe_step same_conn env t w (call_output env (t, w))"
proof -
  have "cc_safe env t w (call_output env (t, w))" by (rule cc_safe_output) simp
  then show ?thesis
    by (auto simp: cc_safe_def safe_step_def ensures_def same_conn_cc cc_world_grows same_but_cc_simps conveys_def acks_either_def)
qed

lemma safe_step_log: "safe_step same_conn env t w (log_lstm_event env t rtt acked dup to w)"
proof (cases "log_lstm_event env t rtt acked dup to w")
  case (Inl e)
  then show ?thesis by (simp add: safe_step_def)
next
  case (Inr x)
  then have "same_but_lstm t (fst x)" "same_but_rows w (snd x)"
    using log_lstm_event_frame [of env t rtt acked dup to w] by (auto split: prod.splits)
  then show ?thesis
    using safe_step_pure [of same_conn t "fst x" "snd x" w env]
    by (simp add: Inr same_conn_lstm same_but_lstm_simps same_but_rows_simps)
qed

section \<open>Safety of the timers\<close>

lemma safe_step_rexmt: "safe_step same_conn env t w (utcp_timers_rexmt env (t, w))"
proof (cases "arr_get tcp_backoff (unat (t_rxtshift t + 1))")
  case (Inl e)
  then show ?thesis by (simp add: utcp_timers_rexmt_def safe_step_def Let_def)
next
  case (Inr mult)
  let ?t0 = "rexmt_armed mult t"
  show ?thesis
    unfolding utcp_timers_rexmt_eq [OF Inr]
  proof (rule safe_step_from [of same_conn env ?t0])
    show "safe_step same_conn env ?t0 w (rbind (log_lstm_event env ?t0 0 0 False True w) (\<lambda>(t1, w1).
      rbind (cong_control (cc_ops t1) env (TCP_CC_EVENT_TIMEOUT (snd_nxt t - snd_una t))
        (t1\<lparr>snd_nxt := snd_una t1, t_rtt := 0\<rparr>, w1)) (call_output env)))"
    proof (rule safe_step_rbind [OF safe_step_log _ same_conn_trans same_conn_nxt])
      fix t1 :: tcb and w1 :: world
      let ?t2 = "t1\<lparr>snd_nxt := snd_una t1, t_rtt := 0\<rparr>"
      have "safe_step same_conn env ?t2 w1
        (rbind (cong_control (cc_ops t1) env (TCP_CC_EVENT_TIMEOUT (snd_nxt t - snd_una t)) (?t2, w1)) (call_output env))"
        by (rule safe_step_rbind [OF safe_step_cong_control safe_step_call_output same_conn_trans same_conn_nxt])
      then show "safe_step same_conn env t1 w1 (case (t1, w1) of (t1, w1) \<Rightarrow>
        rbind (cong_control (cc_ops t1) env (TCP_CC_EVENT_TIMEOUT (snd_nxt t - snd_una t))
          (t1\<lparr>snd_nxt := snd_una t1, t_rtt := 0\<rparr>, w1)) (call_output env))"
        using safe_step_from [of same_conn env ?t2] same_conn_trans same_conn_nxt by simp
    qed
  qed (auto simp: rexmt_armed_def intro: same_conn_trans same_conn_nxt)
qed

lemma safe_step_timers: "safe_step same_conn env t w (utcp_timers env timer (t, w))"
proof -
  let ?t1 = "t\<lparr>t_flags := set_flag (clear_flag (t_flags t) TF_DELACK) TF_ACKNOW\<rparr>"
  have "safe_step same_conn env t w (call_output env (?t1, w))"
    by (rule safe_step_from [OF safe_step_call_output]) (auto intro: same_conn_trans same_conn_nxt)
  then show ?thesis
    by (auto simp: utcp_timers_def err_sys_def safe_step_rexmt safe_step_def [of _ _ _ _ "Inl _"]
        intro: safe_step_pure)
qed

lemma safe_step_tick: "safe_step same_conn env t w (tick_timer env timer (t, w))"
proof -
  let ?t1 = "t\<lparr>t_timer := (t_timer t)(timer := t_timer t timer - 1)\<rparr>"
  have "safe_step same_conn env t w (utcp_timers env timer (?t1, w))"
    by (rule safe_step_from [OF safe_step_timers]) (auto intro: same_conn_trans same_conn_nxt)
  then show ?thesis
    by (auto simp: tick_timer_def Let_def intro: safe_step_pure)
qed

lemma safe_step_ticks: "safe_step same_conn env t w (tick_timers env timers (t, w))"
proof (induction timers arbitrary: t w)
  case Nil
  then show ?case by (auto intro: safe_step_pure)
next
  case (Cons timer timers)
  show ?case
    unfolding tick_timers.simps by (rule safe_step_rbind [OF safe_step_tick Cons.IH same_conn_trans same_conn_nxt])
qed

lemma safe_step_slowtimo: "safe_step same_conn env t w (slowtimo_tcb env (t, w))"
proof (cases "state t = TCP_CLOSED")
  case True
  then show ?thesis by (auto simp: slowtimo_tcb_def intro: safe_step_pure)
next
  case False
  let ?t1 = "t\<lparr>t_idle := t_idle t + 1\<rparr>"
  let ?t2 = "if t_rtt t > 0 then ?t1\<lparr>t_rtt := t_rtt t + 1\<rparr> else ?t1"
  have "safe_step same_conn env t w (tick_timers env [0, 1, 2, 3, 4] (?t2, w))"
    by (rule safe_step_from [OF safe_step_ticks]) (auto intro: same_conn_trans same_conn_nxt)
  then show ?thesis using False by (cases "t_rtt t > 0") (simp_all add: slowtimo_tcb_def Let_def)
qed

section \<open>What a timeout does\<close>

text \<open>With nothing in flight the next segment holds what window, buffer and MSS allow.\<close>

lemma output_data_length_idle:
  assumes "snd_inv S t" and "state t = TCP_ESTABLISHED" and "snd_nxt t = snd_una t"
  shows "unat (output_data_length t) =
    min MSS (min (unat (send_window t)) (snd_written t - seq_pos t (snd_una t)))"
proof -
  have "unat (buffered_data t) = snd_written t - seq_pos t (snd_una t)"
    using snd_inv_buffered [OF assms(1)] assms(3) by simp
  then show ?thesis
    using assms(2,3) by (auto simp: output_data_length_def Let_def min_def word_less_nat_alt)
qed

lemma output_first_segment:
  assumes env: "good_env env" and inv: "snd_inv S t" and est: "state t = TCP_ESTABLISHED"
    and sc: "unat (rcv_scale t) < 32" and nxt: "snd_nxt t = snd_una t" and n: "output_data_length t \<noteq> 0"
  shows "returns (utcp_output env t w) (\<lambda>(_, t', w'). snd_inv S t' \<and> same_but_output t t' \<and>
     (\<exists>d ds. appended w w' = d # ds \<and> returns (seg_view d) (\<lambda>(h, data). th_seq h = snd_una t \<and>
        data = sub_stream S (seq_pos t (snd_una t)) (unat (output_data_length t)))))"
proof -
  have cs: "can_send t" using inv sc by (simp add: can_send_def snd_inv_def)
  from utcp_output_sends [OF env cs disjI2 [OF n], of w] obtain k t' w' d ds where
    out: "utcp_output env t w = Inr (k, t', w')" and d: "appended w w' = d # ds" and "opens_with t d"
    and "returns (seg_view d) (\<lambda>(_, data). length data = unat (output_data_length t))"
    by (auto simp: returns_def)
  moreover have "snd_inv S t'" "carries S (iss t) d" "same_but_output t t'"
    using utcp_output_stream [OF inv est, of env w] utcp_output_frame [of env t w] env out d
    by (auto simp: good_env_def conveys_def)
  ultimately show ?thesis
    using nxt by (auto simp: opens_with_def carries_def returns_def seq_pos_def)
qed

lemma backed_off_rto_value:
  assumes "unat rto \<le> 6400" and "m \<le> 64"
  shows "unat (ucast (backed_off_rto rto (of_nat m)) :: i16) = min 6400 (unat rto * m)"
proof -
  define n where "n = unat rto * m"
  have n: "n \<le> 6400 * 64" unfolding n_def using assms by (intro mult_le_mono)
  then have p: "unat (rto * of_nat m) = n"
    using unat_of_nat32 [of n] by (simp add: n_def)
  then have "sint (rto * of_nat m) = int n"
    using n sint_small32 [of "rto * of_nat m"] by simp
  then show ?thesis
    using p by (auto simp: backed_off_rto_def Let_def unsigned_ucast_eq take_bit_eq_mod min_def simp flip: n_def)
qed

lemma rexmt_armed_simps [simp]:
  "state (rexmt_armed m t) = state t" "rcv_scale (rexmt_armed m t) = rcv_scale t" "snd_wnd (rexmt_armed m t) = snd_wnd t"
  "t_rxtshift (rexmt_armed m t) = t_rxtshift t + 1" "t_rxtcur (rexmt_armed m t) = t_rxtcur t"
  "snd_una (rexmt_armed m t) = snd_una t" "snd_nxt (rexmt_armed m t) = snd_nxt t" "cc_ops (rexmt_armed m t) = cc_ops t"
  "seq_pos (rexmt_armed m t) q = seq_pos t q" "snd_written (rexmt_armed m t) = snd_written t"
  "snd_inv S (rexmt_armed m t) = snd_inv S t" "can_send (rexmt_armed m t) = can_send t"
  by (simp_all add: rexmt_armed_def snd_inv_def seq_pos_def snd_written_def can_send_def)

text \<open>From the expiry to the call of the output loop, on a good run.\<close>

lemma rexmt_prepare:
  assumes env: "good_env env" and shift: "unat (t_rxtshift t) < 12"
  defines "m \<equiv> min 64 (2 ^ Suc (unat (t_rxtshift t)))"
  obtains t2 w2 where "utcp_timers_rexmt env (t, w) = call_output env (t2, w2)"
    and "same_conn t t2" and "appended w w2 = []" and "grows w w2"
    and "snd_nxt t2 = snd_una t" and "snd_max t2 = snd_max t" and "snd_wnd t2 = snd_wnd t"
    and "cwnd t2 = MSS" and "ca_state t2 = TCP_CA_LOSS"
    and "t_rxtshift t2 = t_rxtshift t + 1" and "t_timer t2 0 = t_timer (rexmt_armed (of_nat m) t) 0" and "t_flags t2 = t_flags t"
proof -
  let ?t0 = "rexmt_armed (of_nat m) t"
  have "unat (t_rxtshift t + 1) = Suc (unat (t_rxtshift t))"
    using shift by (simp add: unat_word_ariths)
  then have "arr_get tcp_backoff (unat (t_rxtshift t + 1)) = Inr (of_nat m)"
    using shift tcp_backoff_get(1) [of "Suc (unat (t_rxtshift t))"] by (simp add: m_def)
  note eq = utcp_timers_rexmt_eq [OF this, of env w]
  from log_lstm_event_returns [OF env, of ?t0 0 0 False True w] log_lstm_event_frame [of env ?t0 0 0 False True w]
  obtain t1 w1 where log: "log_lstm_event env ?t0 0 0 False True w = Inr (t1, w1)"
    and l: "same_but_lstm ?t0 t1" "same_but_rows w w1"
    by (auto simp: returns_def)
  let ?f = "snd_nxt t - snd_una t" and ?t1 = "t1\<lparr>snd_nxt := snd_una t1, t_rtt := 0\<rparr>"
  from cc.timeout [of "cc_ops t1" env ?f ?t1 w1] cc.frame [of "cc_ops t1" env "TCP_CC_EVENT_TIMEOUT ?f" ?t1 w1]
  obtain t2 w2 where cc: "cong_control (cc_ops t1) env (TCP_CC_EVENT_TIMEOUT ?f) (?t1, w1) = Inr (t2, w2)"
    and c: "same_but_cc ?t1 t2" "cwnd t2 = MSS" "ca_state t2 = TCP_CA_LOSS" "snd_nxt t2 = snd_nxt ?t1"
      "snd_max t2 = snd_max ?t1" "t_timer t2 = t_timer ?t1" "sent w2 = sent w1" "t_flags t2 = t_flags ?t1"
    by (auto simp: returns_def)
  note ls = same_but_lstm_simps [OF l(1)] and cs = same_but_cc_simps [OF c(1)]
  show thesis
  proof (rule that [of t2 w2])
    show "utcp_timers_rexmt env (t, w) = call_output env (t2, w2)" by (simp add: eq log cc)
    show "same_conn t t2"
      using same_conn_lstm [OF l(1)] same_conn_cc [OF c(1)] by (simp add: same_conn_def rexmt_armed_def)
    have "sent w2 = sent w" using c(7) same_but_rows_simps [OF l(2)] by simp
    then show "appended w w2 = []" and "grows w w2" by (simp_all add: appended_def grows_def)
  qed (use c ls cs in \<open>simp_all add: rexmt_armed_def\<close>)
qed

lemma rexmt_rolls_back:
  assumes env: "good_env env" and inv: "snd_inv S t" and est: "state t = TCP_ESTABLISHED"
    and sc: "unat (rcv_scale t) < 32" and shift: "unat (t_rxtshift t) < 12" and rto: "unat (t_rxtcur t) \<le> 6400"
    and unacked: "seq_pos t (snd_una t) < snd_written t" and wnd: "snd_wnd t \<noteq> 0"
  obtains t2 w2 where "utcp_timers_rexmt env (t, w) = call_output env (t2, w2)" and "appended w w2 = []" "grows w w2"
    and "snd_inv S t2" "state t2 = TCP_ESTABLISHED" "unat (rcv_scale t2) < 32" "snd_nxt t2 = snd_una t2" "snd_una t2 = snd_una t"
      "seq_pos t2 (snd_una t2) = seq_pos t (snd_una t)"
    and "unat (output_data_length t2) = min MSS (min (unat (snd_wnd t)) (snd_written t - seq_pos t (snd_una t)))" "output_data_length t2 \<noteq> 0"
    and "cwnd t2 = MSS" "ca_state t2 = TCP_CA_LOSS" "t_rxtshift t2 = t_rxtshift t + 1"
    and "unat (t_timer t2 0) = min 6400 ((if t_rxtcur t = 0 then 100 else unat (t_rxtcur t)) * min 64 (2 ^ Suc (unat (t_rxtshift t))))" "t_timer t2 0 \<noteq> 0"
proof -
  define m where "m = min 64 (2 ^ Suc (unat (t_rxtshift t)) :: nat)"
  define base where "base = (if t_rxtcur t > 0 then t_rxtcur t else 100)"
  from rexmt_prepare [OF env shift, of w] obtain t2 w2 where
    eq: "utcp_timers_rexmt env (t, w) = call_output env (t2, w2)" and conn: "same_conn t t2" and
    w2: "appended w w2 = []" "grows w w2" and nxt: "snd_nxt t2 = snd_una t" and mx: "snd_max t2 = snd_max t" and
    f: "snd_wnd t2 = snd_wnd t" "cwnd t2 = MSS" "ca_state t2 = TCP_CA_LOSS" "t_rxtshift t2 = t_rxtshift t + 1" and
    tm: "t_timer t2 0 = t_timer (rexmt_armed (of_nat m) t) 0" unfolding m_def by metis
  note c = conn [unfolded same_conn_def]
  have inv2: "snd_inv S t2" by (rule snd_inv_rollback [OF inv]) (use c nxt mx in auto)
  have est2: "state t2 = TCP_ESTABLISHED" and sc2: "unat (rcv_scale t2) < 32" and nxt2: "snd_nxt t2 = snd_una t2"
    using c est sc nxt by simp_all
  have pos: "seq_pos t2 (snd_una t2) = seq_pos t (snd_una t)" "snd_written t2 = snd_written t"
    using c by (simp_all add: seq_pos_def snd_written_def)
  have win: "min MSS (unat (send_window t2)) = min MSS (unat (snd_wnd t))"
    by (auto simp: send_window_def f word_less_nat_alt min_def)
  have len: "unat (output_data_length t2) = min MSS (min (unat (snd_wnd t)) (snd_written t - seq_pos t (snd_una t)))"
    using output_data_length_idle [OF inv2 est2 nxt2] win pos by (simp add: min.assoc [symmetric])
  moreover have "0 < unat (snd_wnd t)" using wnd by (simp add: unat_gt_0)
  ultimately have n: "output_data_length t2 \<noteq> 0" using unacked by auto
  have armed_at: "t_timer t2 0 = ucast (backed_off_rto base (of_nat m))"
    by (simp add: tm rexmt_armed_def base_def)
  have "unat base \<le> 6400" "m \<le> 64" using rto by (simp_all add: base_def m_def)
  then have timer: "unat (t_timer t2 0) = min 6400 (unat base * m)"
    unfolding armed_at by (rule backed_off_rto_value)
  have "0 < unat base" and "0 < m" by (simp_all add: base_def m_def word_gt_0 unat_gt_0)
  then have "0 < min 6400 (unat base * m)" by simp
  then have armed: "t_timer t2 0 \<noteq> 0" unfolding timer [symmetric] by (simp add: unat_gt_0)
  have "(if t_rxtcur t = 0 then 100 else unat (t_rxtcur t)) = unat base" by (simp add: base_def word_gt_0)
  then show thesis
    using timer m_def by (intro that [OF eq w2 inv2 est2 sc2 nxt2 _ pos(1) len n f(2-4) _ armed]) (simp_all add: nxt nxt2 [symmetric])
qed

lemma rexmt_goes_back:
  assumes env: "good_env env" and inv: "snd_inv S t" and est: "state t = TCP_ESTABLISHED"
    and sc: "unat (rcv_scale t) < 32" and shift: "unat (t_rxtshift t) < 12" and rto: "unat (t_rxtcur t) \<le> 6400"
    and unacked: "seq_pos t (snd_una t) < snd_written t" and wnd: "snd_wnd t \<noteq> 0"
  shows "returns (utcp_timers env TCPT_REXMT (t, w)) (\<lambda>(t', w'). snd_inv S t' \<and>
     cwnd t' = MSS \<and> ca_state t' = TCP_CA_LOSS \<and> t_rxtshift t' = t_rxtshift t + 1 \<and>
     unat (t_timer t' TCPT_REXMT) =
       min 6400 ((if t_rxtcur t = 0 then 100 else unat (t_rxtcur t)) * min 64 (2 ^ Suc (unat (t_rxtshift t)))) \<and>
     (\<exists>d ds. appended w w' = d # ds \<and> returns (seg_view d) (\<lambda>(h, data). th_seq h = snd_una t \<and>
        data = sub_stream S (seq_pos t (snd_una t))
          (min MSS (min (unat (snd_wnd t)) (snd_written t - seq_pos t (snd_una t)))))))"
proof -
  obtain t2 w2 where eq: "utcp_timers_rexmt env (t, w) = call_output env (t2, w2)" and w2: "appended w w2 = []" "grows w w2"
    and t2: "snd_inv S t2" "state t2 = TCP_ESTABLISHED" "unat (rcv_scale t2) < 32" "snd_nxt t2 = snd_una t2" and una: "snd_una t2 = snd_una t"
      "seq_pos t2 (snd_una t2) = seq_pos t (snd_una t)"
    and len: "unat (output_data_length t2) = min MSS (min (unat (snd_wnd t)) (snd_written t - seq_pos t (snd_una t)))" and n: "output_data_length t2 \<noteq> 0"
    and f: "cwnd t2 = MSS" "ca_state t2 = TCP_CA_LOSS" "t_rxtshift t2 = t_rxtshift t + 1"
    and timer: "unat (t_timer t2 0) = min 6400 ((if t_rxtcur t = 0 then 100 else unat (t_rxtcur t)) * min 64 (2 ^ Suc (unat (t_rxtshift t))))"
    and armed: "t_timer t2 0 \<noteq> 0"
    by (rule rexmt_rolls_back [OF assms])
  from output_first_segment [OF env t2 n, of w2] utcp_output_rexmt [OF armed, of env w2] utcp_output_frame [of env t2 w2]
  obtain k t' w' d ds where out: "utcp_output env t2 w2 = Inr (k, t', w')" and
    o: "snd_inv S t'" "same_but_output t2 t'" "appended w2 w' = d # ds" "t_timer t' 0 = t_timer t2 0" "extends w2 w'" and
    seg: "returns (seg_view d) (\<lambda>(h, data). th_seq h = snd_una t2 \<and>
       data = sub_stream S (seq_pos t2 (snd_una t2)) (unat (output_data_length t2)))"
    by (auto simp: returns_def)
  have "appended w w' = d # ds"
    using grows_trans(2) [OF w2(2), of w'] w2(1) o(3,5) by (simp add: grows_def extends_def)
  then show ?thesis
    using out o seg f timer len una by (auto simp: utcp_timers_def eq call_output_def same_but_output_simps)
qed

text \<open>
  C18: A retransmission timeout of an established connection with unacknowledged data and an open
  peer window goes back to the first unacknowledged byte: the first datagram that goes out starts
  there and carries the stream, as much as window, buffer and MSS allow; the window collapses to one segment, the next timeout is
  the current one times the backoff factor, capped at 64 s, and the send invariant holds.
\<close>

theorem rexmt_timeout:
  assumes env: "good_env env" and inv: "snd_inv S t" and est: "state t = TCP_ESTABLISHED"
    and sc: "unat (rcv_scale t) < 32" and shift: "unat (t_rxtshift t) < 12" and rto: "unat (t_rxtcur t) \<le> 6400"
    and unacked: "seq_pos t (snd_una t) < snd_written t" and wnd: "snd_wnd t \<noteq> 0"
  shows "returns (utcp_timers env TCPT_REXMT (t, w)) (\<lambda>(t', w'). snd_inv S t' \<and>
     cwnd t' = MSS \<and> ca_state t' = TCP_CA_LOSS \<and> t_rxtshift t' = t_rxtshift t + 1 \<and>
     unat (t_timer t' TCPT_REXMT) =
       min 6400 ((if t_rxtcur t = 0 then 100 else unat (t_rxtcur t)) * min 64 (2 ^ Suc (unat (t_rxtshift t)))) \<and>
     (\<exists>d ds. appended w w' = d # ds \<and> returns (seg_view d) (\<lambda>(h, data). th_seq h = snd_una t \<and>
        data = sub_stream S (seq_pos t (snd_una t))
          (min MSS (min (unat (snd_wnd t)) (snd_written t - seq_pos t (snd_una t)))))))"
  by (rule rexmt_goes_back [OF assms])

theorem rexmt_timeout_witness:
  "returns (utcp_timers env0 TCPT_REXMT (sample_tcb, world0)) (\<lambda>(t', w'). snd_inv (\<lambda>_. 0) t' \<and>
     cwnd t' = MSS \<and> unat (t_timer t' TCPT_REXMT) = 200 \<and>
     (\<exists>d ds. appended world0 w' = d # ds \<and> returns (seg_view d) (\<lambda>(h, data). th_seq h = 1 \<and>
        data = sub_stream (\<lambda>_. 0) 0 MSS)))"
  using rexmt_timeout [OF good_env0 sample_inv, of world0]
  by (simp add: sample_tcb_def seq_pos_def snd_written_def returns_def) (elim exE conjE, auto)

text \<open>
  Nothing bounds the number of consecutive timeouts: at the thirteenth the backoff table is
  read past its end.
\<close>

theorem rexmt_thirteenth_timeout:
  assumes "t_rxtshift t = 12"
  shows "utcp_timers env TCPT_REXMT (t, w) = Inl Out_of_bounds"
  using assms by (simp add: utcp_timers_def utcp_timers_rexmt_def tcp_backoff_get(2))

theorem rexmt_thirteenth_timeout_witness:
  "utcp_timers env0 TCPT_REXMT (sample_tcb\<lparr>t_rxtshift := 12\<rparr>, world0) = Inl Out_of_bounds"
  by (rule rexmt_thirteenth_timeout) simp

text \<open>
  One tick of the slow timer leaves the receiving side, the state and the acknowledged prefix
  alone, keeps the send invariant, and puts nothing on the wire but the stream, whichever
  timers expire in it and whatever the socket answers.
\<close>

theorem slowtimo_keeps_stream:
  assumes "snd_inv S t" and "state t = TCP_ESTABLISHED" and "good_socket env"
  shows "ensures (slowtimo_tcb env (t, w)) (\<lambda>(t', w'). same_conn t t' \<and> snd_inv S t' \<and>
     sent w' = sent w @ appended w w' \<and> (\<forall>d \<in> set (appended w w'). conveys S t d))"
  unfolding grows_def [symmetric]
  using safe_step_slowtimo [of env t w] assms
  by (fastforce simp: safe_step_def ensures_def conveys_def acks_either_def same_conn_def)

theorem slowtimo_keeps_stream_witness:
  "ensures (slowtimo_tcb env0 (sample_tcb, world0)) (\<lambda>(t', w'). same_conn sample_tcb t' \<and> snd_inv (\<lambda>_. 0) t' \<and>
     sent w' = sent world0 @ appended world0 w' \<and> (\<forall>d \<in> set (appended world0 w'). conveys (\<lambda>_. 0) sample_tcb d))"
  using slowtimo_keeps_stream [OF sample_inv, of env0 world0] by (simp add: good_socket_def env0_def)

text \<open>
  When the delayed-acknowledgement timer expires, a segment that acknowledges everything
  received in order goes out, and no acknowledgement is left pending.
\<close>

theorem delack_expiry_acknowledges:
  assumes "good_env env" and "can_send t"
  shows "returns (utcp_timers env TCPT_DELACK (t, w)) (\<lambda>(t', w').
     \<not> has_flag (t_flags t') TF_ACKNOW \<and> \<not> has_flag (t_flags t') TF_DELACK \<and>
     (\<exists>d ds. appended w w' = d # ds \<and> opens_with t d))"
proof -
  let ?t = "t\<lparr>t_flags := set_flag (clear_flag (t_flags t) TF_DELACK) TF_ACKNOW\<rparr>"
  have "can_send ?t" using assms(2) by (simp add: can_send_def)
  moreover have "opens_with ?t = opens_with t" by (simp add: opens_with_def fun_eq_iff)
  ultimately show ?thesis
    using utcp_output_sends [OF assms(1), of ?t w]
    by (auto simp: utcp_timers_def call_output_def returns_def)
qed

end
