(* ===== verification/Reassembly.thy ===== *)
theory Reassembly
  imports Sequence Ring_Buffer Utcp_World
begin

text \<open>
  The reassembly queue of \<^verbatim>\<open>src/utcp/utcp_input.c\<close>: \<^verbatim>\<open>insert_ooo_segment\<close> and
  \<^verbatim>\<open>drain_ooo_queue\<close>. The queue is a list of entries in the order of the C list. The invariant
  relates buffer and queue to the peer's stream \<open>R\<close>: the receive buffer holds the last bytes of
  the first \<open>N\<close> bytes of it, every queued entry holds stream bytes at its place, entries are sorted and disjoint,
  and the byte counter is their total. Both operations keep it, and draining
  moves every byte that has become contiguous.
\<close>

section \<open>Insertion\<close>

text \<open>The walk to the insertion point: entries passed (the last one is \<^verbatim>\<open>prev\<close>) and the rest.\<close>

fun skip_before :: "u32 \<Rightarrow> tcpq_entry list \<Rightarrow> tcpq_entry list \<times> tcpq_entry list" where
  "skip_before seq [] = ([], [])"
| "skip_before seq (cur # next) =
     (if SEQ_LEQ (tq_seq cur + tq_len cur) seq
      then (case skip_before seq next of (passed, rest) \<Rightarrow> (cur # passed, rest))
      else ([], cur # next))"

text \<open>Trimming against the previous entry; \<open>None\<close> is the early return of a covered segment.\<close>

definition trim_start :: "tcpq_entry list \<Rightarrow> u32 \<Rightarrow> u8 list \<Rightarrow> (u32 \<times> u8 list) option" where
  "trim_start passed seq data =
     (if passed = [] then Some (seq, data)
      else let prev = last passed;
               prev_end = tq_seq prev + tq_len prev
           in if SEQ_GT prev_end seq
              then let overlap = prev_end - seq
                   in if overlap \<ge> of_nat (length data) then None
                      else Some (prev_end, drop (unat overlap) data)
              else Some (seq, data))"

text \<open>Absorbing or trimming the entries behind the new one, with the byte counter.\<close>

fun absorb :: "u32 \<Rightarrow> tcpq_entry list \<Rightarrow> u32 \<Rightarrow> tcpq_entry list \<times> u32" where
  "absorb end_seq [] bytes = ([], bytes)"
| "absorb end_seq (cur # next) bytes =
     (if SEQ_LT (tq_seq cur) end_seq
      then let cur_end = tq_seq cur + tq_len cur
           in if SEQ_LEQ cur_end end_seq
              then absorb end_seq next (bytes - tq_len cur)
              else let overlap = end_seq - tq_seq cur
                   in (cur\<lparr>tq_seq := tq_seq cur + overlap, tq_len := tq_len cur - overlap,
                           tq_data := drop (unat overlap) (tq_data cur)\<rparr> # next,
                       bytes - overlap)
      else (cur # next, bytes))"

definition insert_ooo_segment :: "env \<Rightarrow> tcb \<Rightarrow> u32 \<Rightarrow> u8 list \<Rightarrow> world \<Rightarrow> tcb \<times> world" where
  "insert_ooo_segment env tcb seq data w =
     (let buf_used = recv_buf_tail tcb - recv_buf_head tcb;
          available = RECV_BUF_SIZE - buf_used - ooo_bytes tcb
      in if of_nat (length data) > available then (tcb, w)
         else case skip_before seq (ooo_head tcb) of (passed, cur) \<Rightarrow>
           (case trim_start passed seq data of
              None \<Rightarrow> (tcb, w)
            | Some (seq, data) \<Rightarrow>
                (case try_malloc env w of (ok, w) \<Rightarrow>
                 if \<not> ok then (tcb, w)
                 else case try_malloc env w of (ok, w) \<Rightarrow>
                   if \<not> ok then (tcb, w)
                   else let entry = \<lparr>tq_seq = seq, tq_len = of_nat (length data), tq_data = data\<rparr>
                        in case absorb (seq + of_nat (length data)) cur (ooo_bytes tcb) of (cur, bytes) \<Rightarrow>
                           (tcb\<lparr>ooo_head := passed @ entry # cur, ooo_bytes := bytes + of_nat (length data)\<rparr>, w))))"

section \<open>Draining\<close>

text \<open>The prefix of the head entry that has been received meanwhile.\<close>

definition trim_head :: "tcpq_entry \<Rightarrow> tcpq_entry list \<Rightarrow> tcb \<Rightarrow> tcpq_entry \<times> tcb" where
  "trim_head entry next tcb =
     (if SEQ_LT (tq_seq entry) (rcv_nxt tcb)
      then let trim = rcv_nxt tcb - tq_seq entry;
               entry = entry\<lparr>tq_seq := tq_seq entry + trim, tq_len := tq_len entry - trim,
                             tq_data := drop (unat trim) (tq_data entry)\<rparr>
           in (entry, tcb\<lparr>ooo_head := entry # next, ooo_bytes := ooo_bytes tcb - trim\<rparr>)
      else (entry, tcb))"

lemma trim_head_queue: "ooo_head tcb = entry # next \<Longrightarrow> ooo_head (snd (trim_head entry next tcb)) = fst (trim_head entry next tcb) # next"
  by (simp add: trim_head_def Let_def)

function drain_ooo_queue :: "tcb \<Rightarrow> tcb res" where
  "drain_ooo_queue tcb =
     (case ooo_head tcb of
        [] \<Rightarrow> Inr tcb
      | entry # next \<Rightarrow>
          if SEQ_LEQ (tq_seq entry + tq_len entry) (rcv_nxt tcb)
          then drain_ooo_queue (tcb\<lparr>ooo_bytes := ooo_bytes tcb - tq_len entry, ooo_head := next\<rparr>)
          else let (entry, tcb) = trim_head entry next tcb
               in if tq_seq entry \<noteq> rcv_nxt tcb then Inr tcb
                  else let free_space = RECV_BUF_SIZE - (recv_buf_tail tcb - recv_buf_head tcb)
                       in if tq_len entry > free_space then Inr tcb
                          else rbind (ring_buf_write (recv_buf tcb) RECV_BUF_SIZE (recv_buf_tail tcb)
                                 (tq_data entry) (unat (tq_len entry))) (\<lambda>buf.
                               drain_ooo_queue (tcb\<lparr>recv_buf := buf,
                                 recv_buf_tail := recv_buf_tail tcb + tq_len entry,
                                 rcv_nxt := rcv_nxt tcb + tq_len entry,
                                 ooo_bytes := ooo_bytes tcb - tq_len entry,
                                 ooo_head := next\<rparr>)))"
  by pat_completeness auto
termination
  by (relation "measure (\<lambda>tcb. length (ooo_head tcb))") auto

declare drain_ooo_queue.simps [simp del]

section \<open>Queues of stream fragments\<close>

text \<open>
  Offsets are distances from a base sequence number \<open>r\<close>, which stands for position \<open>N\<close> of the stream.
  A queue is in order from offset \<open>lo\<close> on when its entries are non-empty, follow each other without
  overlap, stay within 2 GiB of the base and hold the stream.
\<close>

definition tq_off :: "u32 \<Rightarrow> tcpq_entry \<Rightarrow> nat" where
  "tq_off r e = unat (tq_seq e - r)"

definition tq_end :: "u32 \<Rightarrow> tcpq_entry \<Rightarrow> nat" where
  "tq_end r e = tq_off r e + unat (tq_len e)"

definition entry_ok :: "(nat \<Rightarrow> u8) \<Rightarrow> nat \<Rightarrow> u32 \<Rightarrow> tcpq_entry \<Rightarrow> bool" where
  "entry_ok R N r e \<longleftrightarrow> 0 < unat (tq_len e) \<and> tq_end r e < 2147483648 \<and>
     tq_data e = sub_stream R (N + tq_off r e) (unat (tq_len e))"

fun queue_ok :: "(nat \<Rightarrow> u8) \<Rightarrow> nat \<Rightarrow> u32 \<Rightarrow> nat \<Rightarrow> tcpq_entry list \<Rightarrow> bool" where
  "queue_ok R N r lo [] = True"
| "queue_ok R N r lo (e # es) = (lo \<le> tq_off r e \<and> entry_ok R N r e \<and> queue_ok R N r (tq_end r e) es)"

fun queue_end :: "u32 \<Rightarrow> nat \<Rightarrow> tcpq_entry list \<Rightarrow> nat" where
  "queue_end r lo [] = lo"
| "queue_end r lo (e # es) = queue_end r (tq_end r e) es"

definition queue_bytes :: "tcpq_entry list \<Rightarrow> nat" where
  "queue_bytes es = (\<Sum>e \<leftarrow> es. unat (tq_len e))"

lemma queue_bytes_simps [simp]:
  "queue_bytes [] = 0"
  "queue_bytes (e # es) = unat (tq_len e) + queue_bytes es"
  "queue_bytes (xs @ ys) = queue_bytes xs + queue_bytes ys"
  by (simp_all add: queue_bytes_def)

lemma queue_ok_append: "queue_ok R N r lo (xs @ ys) \<longleftrightarrow> queue_ok R N r lo xs \<and> queue_ok R N r (queue_end r lo xs) ys"
  by (induction xs arbitrary: lo) auto

lemma queue_ok_lower: "queue_ok R N r lo es \<Longrightarrow> lo' \<le> lo \<Longrightarrow> queue_ok R N r lo' es"
  by (cases es) auto

lemma tq_seq_off: "tq_seq e = r + of_nat (tq_off r e)"
  by (simp add: tq_off_def)

lemma tq_seq_end: "tq_seq e + tq_len e = r + of_nat (tq_end r e)"
  by (simp add: tq_end_def tq_off_def)

text \<open>The comparisons of the code, on entries and positions of one window.\<close>

lemma entry_compare:
  assumes "entry_ok R N r e" and "k < 2147483648"
  shows "SEQ_LEQ (tq_seq e + tq_len e) (r + of_nat k) \<longleftrightarrow> tq_end r e \<le> k"
    and "SEQ_GT (tq_seq e + tq_len e) (r + of_nat k) \<longleftrightarrow> tq_end r e > k"
    and "SEQ_LT (tq_seq e) (r + of_nat k) \<longleftrightarrow> tq_off r e < k"
proof -
  have b: "tq_end r e < 2147483648" "tq_off r e < 2147483648" using assms(1) by (simp_all add: entry_ok_def tq_end_def)
  note off = SEQ_offsets [of "tq_end r e" k r, folded tq_seq_end] SEQ_offsets [of "tq_off r e" k r, folded tq_seq_off]
  show "SEQ_LEQ (tq_seq e + tq_len e) (r + of_nat k) \<longleftrightarrow> tq_end r e \<le> k"
    and "SEQ_GT (tq_seq e + tq_len e) (r + of_nat k) \<longleftrightarrow> tq_end r e > k"
    and "SEQ_LT (tq_seq e) (r + of_nat k) \<longleftrightarrow> tq_off r e < k"
    using off b assms(2) by simp_all
qed

lemma skip_before_split:
  assumes "queue_ok R N r lo es" and "k < 2147483648" and "skip_before (r + of_nat k) es = (xs, ys)"
  shows "es = xs @ ys" and "xs \<noteq> [] \<Longrightarrow> queue_end r lo xs \<le> k"
    and "xs \<noteq> [] \<Longrightarrow> tq_end r (last xs) = queue_end r lo xs \<and> entry_ok R N r (last xs)"
    and "ys \<noteq> [] \<Longrightarrow> k < tq_end r (hd ys)"
proof -
  have "es = xs @ ys \<and> (xs \<noteq> [] \<longrightarrow> queue_end r lo xs \<le> k) \<and>
     (xs \<noteq> [] \<longrightarrow> tq_end r (last xs) = queue_end r lo xs \<and> entry_ok R N r (last xs)) \<and>
     (ys \<noteq> [] \<longrightarrow> k < tq_end r (hd ys))"
    using assms
  proof (induction es arbitrary: lo xs ys)
    case Nil
    then show ?case by simp
  next
    case (Cons e es)
    have e: "entry_ok R N r e" and es: "queue_ok R N r (tq_end r e) es" using Cons.prems(1) by simp_all
    show ?case
    proof (cases "tq_end r e \<le> k")
      case True
      obtain us vs where split: "skip_before (r + of_nat k) es = (us, vs)" by fastforce
      have "xs = e # us" "ys = vs"
        using Cons.prems(3) entry_compare(1) [OF e assms(2)] True split by simp_all
      then show ?thesis using Cons.IH [OF es assms(2) split] True e by auto
    next
      case False
      then have "xs = []" "ys = e # es" using Cons.prems(3) entry_compare(1) [OF e assms(2)] by simp_all
      then show ?thesis using False by simp
    qed
  qed
  then show "es = xs @ ys" and "xs \<noteq> [] \<Longrightarrow> queue_end r lo xs \<le> k"
    and "xs \<noteq> [] \<Longrightarrow> tq_end r (last xs) = queue_end r lo xs \<and> entry_ok R N r (last xs)"
    and "ys \<noteq> [] \<Longrightarrow> k < tq_end r (hd ys)" by blast+
qed

text \<open>Dropping the front of an entry moves its start and keeps its end.\<close>

definition tq_trim :: "nat \<Rightarrow> tcpq_entry \<Rightarrow> tcpq_entry" where
  "tq_trim n e = e\<lparr>tq_seq := tq_seq e + of_nat n, tq_len := tq_len e - of_nat n, tq_data := drop n (tq_data e)\<rparr>"

lemma tq_trim_ok:
  assumes "entry_ok R N r e" and "n < unat (tq_len e)"
  shows "tq_off r (tq_trim n e) = tq_off r e + n" and "tq_end r (tq_trim n e) = tq_end r e"
    and "unat (tq_len (tq_trim n e)) = unat (tq_len e) - n" and "entry_ok R N r (tq_trim n e)"
proof -
  have b: "tq_off r e + n < 4294967296" "n < 4294967296" using assms by (simp_all add: entry_ok_def tq_end_def)
  show off: "tq_off r (tq_trim n e) = tq_off r e + n"
    using unat_tail_advance [of "tq_seq e" r n] b by (simp add: tq_trim_def tq_off_def)
  show len: "unat (tq_len (tq_trim n e)) = unat (tq_len e) - n"
    using assms(2) b by (simp add: tq_trim_def unat_sub word_le_nat_alt unat_of_nat32)
  show e: "tq_end r (tq_trim n e) = tq_end r e"
    using assms(2) by (simp add: tq_end_def off len)
  show "entry_ok R N r (tq_trim n e)"
    using assms off len e by (simp add: entry_ok_def drop_sub_stream add.assoc) (simp add: tq_trim_def drop_sub_stream add.assoc)
qed

lemma end_minus_start:
  assumes "tq_off r e \<le> k"
  shows "r + of_nat k - tq_seq e = (of_nat (k - tq_off r e) :: u32)"
  using assms tq_seq_off [of e r] by (simp add: of_nat_diff)

lemma absorb_ok:
  assumes "queue_ok R N r lo es" and "k < 2147483648" and "queue_bytes es \<le> unat b"
    and "absorb (r + of_nat k) es b = (es', b')"
  shows "queue_ok R N r k es' \<and> unat b' + queue_bytes es = unat b + queue_bytes es' \<and> queue_bytes es' \<le> queue_bytes es"
  using assms
proof (induction es arbitrary: lo b)
  case Nil
  then show ?case by simp
next
  case (Cons e es)
  have e: "entry_ok R N r e" and es: "queue_ok R N r (tq_end r e) es" using Cons.prems(1) by simp_all
  note cmp = entry_compare [OF e assms(2)]
  show ?case
  proof (cases "tq_off r e < k")
    case False
    then show ?thesis using Cons.prems cmp by auto
  next
    case lt: True
    show ?thesis
    proof (cases "tq_end r e \<le> k")
      case True
      have u: "unat (b - tq_len e) = unat b - unat (tq_len e)"
        using Cons.prems(3) by (simp add: unat_sub word_le_nat_alt)
      have "queue_bytes es \<le> unat (b - tq_len e)" using u Cons.prems(3) by simp
      moreover have "absorb (r + of_nat k) es (b - tq_len e) = (es', b')"
        using Cons.prems(4) cmp lt True by simp
      ultimately show ?thesis
        using Cons.IH [OF es assms(2), of "b - tq_len e"] Cons.prems(3) unfolding u by auto
    next
      case False
      define n where "n = k - tq_off r e"
      have n: "n < unat (tq_len e)" "n < 4294967296" using False lt assms(2) by (auto simp: n_def tq_end_def)
      have ov: "r + of_nat k - tq_seq e = of_nat n" using end_minus_start [of r e k] lt by (simp add: n_def)
      have res: "es' = tq_trim n e # es" "b' = b - of_nat n"
        using Cons.prems(4) cmp lt False n by (auto simp: ov tq_trim_def unat_of_nat32 Let_def)
      have "unat b' = unat b - n"
        using Cons.prems(3) n by (simp add: res unat_sub word_le_nat_alt unat_of_nat32)
      then show ?thesis
        using tq_trim_ok [OF e n(1)] es n Cons.prems(3) lt by (auto simp: res n_def)
    qed
  qed
qed

section \<open>The receive invariant\<close>

text \<open>
  After \<open>N\<close> bytes in order, \<open>N - used\<close> of them handed to the application.
\<close>

definition rcv_used :: "tcb \<Rightarrow> nat" where
  "rcv_used t = unat (recv_buf_tail t - recv_buf_head t)"

definition rcv_inv :: "(nat \<Rightarrow> u8) \<Rightarrow> nat \<Rightarrow> tcb \<Rightarrow> bool" where
  "rcv_inv R N t \<longleftrightarrow>
     rcv_nxt t = irs t + 1 + of_nat N \<and>
     length (recv_buf t) = RECV_BUF_SIZE \<and>
     rcv_used t \<le> N \<and>
     ring_contents (recv_buf t) (recv_buf_head t) (recv_buf_tail t) = sub_stream R (N - rcv_used t) (rcv_used t) \<and>
     queue_ok R N (rcv_nxt t) 1 (ooo_head t) \<and>
     unat (ooo_bytes t) = queue_bytes (ooo_head t) \<and>
     rcv_used t + queue_bytes (ooo_head t) \<le> RECV_BUF_SIZE \<and>
     recv_buf_tail t = of_nat N"

lemma rcv_invD:
  assumes "rcv_inv R N t"
  shows "rcv_nxt t = irs t + 1 + of_nat N" and "length (recv_buf t) = RECV_BUF_SIZE" and "rcv_used t \<le> N"
    and "ring_contents (recv_buf t) (recv_buf_head t) (recv_buf_tail t) = sub_stream R (N - rcv_used t) (rcv_used t)"
    and "queue_ok R N (rcv_nxt t) 1 (ooo_head t)" and "unat (ooo_bytes t) = queue_bytes (ooo_head t)"
    and "rcv_used t + queue_bytes (ooo_head t) \<le> RECV_BUF_SIZE" and "recv_buf_tail t = of_nat N"
  using assms unfolding rcv_inv_def by blast+

lemma rcv_available:
  assumes "rcv_inv R N t"
  shows "unat (RECV_BUF_SIZE - (recv_buf_tail t - recv_buf_head t) - ooo_bytes t) =
    RECV_BUF_SIZE - rcv_used t - queue_bytes (ooo_head t)"
proof -
  define d where "d = recv_buf_tail t - recv_buf_head t"
  have b: "unat d + unat (ooo_bytes t) \<le> 1048576" "rcv_used t = unat d" "unat (ooo_bytes t) = queue_bytes (ooo_head t)"
    using rcv_invD(6,7) [OF assms] by (simp_all add: rcv_used_def d_def)
  then have u: "unat (1048576 - d) = 1048576 - unat d" by (simp add: unat_sub word_le_nat_alt)
  with b have "ooo_bytes t \<le> 1048576 - d" by (simp add: word_le_nat_alt)
  then show ?thesis using u b by (simp add: unat_sub flip: d_def)
qed

text \<open>The previous entry never reaches into a new segment, so nothing is cut from its front.\<close>

lemma trim_start_nothing:
  assumes "queue_ok R N r 1 es" and "k < 2147483648" and "skip_before (r + of_nat k) es = (xs, ys)"
  shows "trim_start xs (r + of_nat k) data = Some (r + of_nat k, data)"
  using skip_before_split(2,3) [OF assms] entry_compare(2) [of R N r "last xs" k] assms(2)
  by (cases "xs = []") (simp_all add: trim_start_def Let_def)

text \<open>The queue with the new entry linked in, and what overlaps it absorbed.\<close>

lemma linked_rcv_inv:
  assumes inv: "rcv_inv R N t" and o: "0 < k" "k + n < 2147483648" and n: "0 < n"
    and split: "skip_before (rcv_nxt t + of_nat k) (ooo_head t) = (xs, ys)"
    and ab: "absorb (rcv_nxt t + of_nat (k + n)) ys (ooo_bytes t) = (zs, b)"
    and fit: "n \<le> RECV_BUF_SIZE - rcv_used t - queue_bytes (ooo_head t)"
  shows "rcv_inv R N (t\<lparr>ooo_head := xs @ \<lparr>tq_seq = rcv_nxt t + of_nat k, tq_len = of_nat n, tq_data = sub_stream R (N + k) n\<rparr> # zs,
      ooo_bytes := b + of_nat n\<rparr>)"
proof -
  define r where "r = rcv_nxt t"
  define e where "e = \<lparr>tq_seq = r + of_nat k, tq_len = of_nat n :: u32, tq_data = sub_stream R (N + k) n\<rparr>"
  have un: "unat (of_nat n :: u32) = n" using o by (intro unat_of_nat32) simp
  have q: "queue_ok R N r 1 (ooo_head t)" using rcv_invD(5) [OF inv] by (simp add: r_def)
  have k: "k < 2147483648" using o by simp
  note sp = skip_before_split [OF q k split [folded r_def]]
  have bytes: "queue_bytes (ooo_head t) = queue_bytes xs + queue_bytes ys" by (simp add: sp(1))
  have off: "tq_off r e = k" "tq_end r e = k + n" "unat (tq_len e) = n"
    using k by (simp_all add: e_def tq_end_def tq_off_def un unat_of_nat32)
  have qs: "queue_ok R N r 1 xs" "queue_ok R N r (queue_end r 1 xs) ys"
    using q by (simp_all add: sp(1) queue_ok_append)
  have ys: "queue_ok R N r (k + n) zs" "unat b + queue_bytes ys = unat (ooo_bytes t) + queue_bytes zs"
    "queue_bytes zs \<le> queue_bytes ys"
    using absorb_ok [OF qs(2) o(2) _ ab [folded r_def]] rcv_invD(6) [OF inv] bytes by simp_all
  have "queue_end r 1 xs \<le> k" using sp(2) o(1) by (cases "xs = []") auto
  moreover have "entry_ok R N r e" using o n by (simp add: entry_ok_def off) (simp add: e_def)
  ultimately have q1: "queue_ok R N r 1 (xs @ e # zs)" using qs(1) ys(1) off by (simp add: queue_ok_append)
  have b: "unat b = queue_bytes xs + queue_bytes zs" using ys(2) rcv_invD(6) [OF inv] bytes by simp
  have "unat (b + of_nat n) = unat b + n"
    using fit bytes b un ys(3) rcv_invD(7) [OF inv] by (subst unat_add_small32) auto
  then show ?thesis
    unfolding r_def [symmetric] e_def [symmetric]
    using rcv_invD [OF inv] q1 fit bytes b off ys(3) by (simp add: rcv_inv_def rcv_used_def r_def [symmetric])
qed

lemma insert_ooo_ok:
  assumes inv: "rcv_inv R N t" and o: "0 < k" "k + n < 2147483648" and n: "0 < n"
    and res: "insert_ooo_segment env t (rcv_nxt t + of_nat k) (sub_stream R (N + k) n) w = (t', w')"
  shows "rcv_inv R N t'" and "t' = t\<lparr>ooo_head := ooo_head t', ooo_bytes := ooo_bytes t'\<rparr>"
    and "t' = t \<or> \<lparr>tq_seq = rcv_nxt t + of_nat k, tq_len = of_nat n, tq_data = sub_stream R (N + k) n\<rparr> \<in> set (ooo_head t')"
    and "good_env env \<Longrightarrow> n \<le> RECV_BUF_SIZE - rcv_used t - queue_bytes (ooo_head t) \<Longrightarrow>
       \<lparr>tq_seq = rcv_nxt t + of_nat k, tq_len = of_nat n, tq_data = sub_stream R (N + k) n\<rparr> \<in> set (ooo_head t')"
proof -
  define avail where "avail = (1048576 - (recv_buf_tail t - recv_buf_head t) - ooo_bytes t :: u32)"
  have "unat (of_nat n :: u32) = n" using o by (intro unat_of_nat32) simp
  then have fit: "\<not> of_nat n > avail \<longleftrightarrow> n \<le> 1048576 - rcv_used t - queue_bytes (ooo_head t)"
    using rcv_available [OF inv] by (simp add: avail_def word_less_nat_alt not_less)
  obtain xs ys where split: "skip_before (rcv_nxt t + of_nat k) (ooo_head t) = (xs, ys)" by fastforce
  have "k < 2147483648" using o by simp
  note trim = trim_start_nothing [OF rcv_invD(5) [OF inv] this split]
  let ?e = "\<lparr>tq_seq = rcv_nxt t + of_nat k, tq_len = of_nat n :: u32, tq_data = sub_stream R (N + k) n\<rparr>"
  obtain zs b where ab: "absorb (rcv_nxt t + of_nat (k + n)) ys (ooo_bytes t) = (zs, b)" by fastforce
  define t1 where "t1 = t\<lparr>ooo_head := xs @ ?e # zs, ooo_bytes := b + of_nat n\<rparr>"
  have eq: "insert_ooo_segment env t (rcv_nxt t + of_nat k) (sub_stream R (N + k) n) w =
      (if of_nat n > avail then (t, w)
       else let w1 = w\<lparr>mallocs := Suc (mallocs w)\<rparr>; w2 = w\<lparr>mallocs := Suc (Suc (mallocs w))\<rparr> in
         if \<not> malloc env (mallocs w) then (t, w1)
         else if \<not> malloc env (Suc (mallocs w)) then (t, w2) else (t1, w2))"
    using ab by (simp add: insert_ooo_segment_def avail_def [symmetric] split trim try_malloc_def t1_def Let_def add.assoc)
  have cases: "t' = t \<or> t' = t1 \<and> \<not> of_nat n > avail"
    using res unfolding eq by (auto simp: Let_def split: if_splits)
  then show "rcv_inv R N t'" using linked_rcv_inv [OF inv o n split ab] inv fit by (auto simp: t1_def)
  show "t' = t\<lparr>ooo_head := ooo_head t', ooo_bytes := ooo_bytes t'\<rparr>" using cases by (auto simp: t1_def)
  show "t' = t \<or> ?e \<in> set (ooo_head t')" using cases by (auto simp: t1_def)
  show "?e \<in> set (ooo_head t')" if "good_env env" "n \<le> RECV_BUF_SIZE - rcv_used t - queue_bytes (ooo_head t)"
    using res that fit unfolding eq by (auto simp: Let_def good_env_def t1_def)
qed

section \<open>Draining moves exactly the contiguous bytes\<close>

definition covered :: "u32 \<Rightarrow> tcpq_entry list \<Rightarrow> nat \<Rightarrow> bool" where
  "covered r es p \<longleftrightarrow> (\<exists>e \<in> set es. tq_off r e \<le> p \<and> p < tq_end r e)"

lemma covered_simps [simp]:
  "\<not> covered r [] p"
  "covered r (e # es) p \<longleftrightarrow> tq_off r e \<le> p \<and> p < tq_end r e \<or> covered r es p"
  by (auto simp: covered_def)

lemma not_covered_below: "queue_ok R N r lo es \<Longrightarrow> p < lo \<Longrightarrow> \<not> covered r es p"
proof (induction es arbitrary: lo)
  case (Cons e es)
  then show ?case using Cons.IH [of "tq_end r e"] by (auto simp: tq_end_def)
qed simp

text \<open>The invariant while the queue still counts from \<open>r\<close> and \<open>d\<close> more bytes have arrived in order.\<close>

definition rcv_pre :: "(nat \<Rightarrow> u8) \<Rightarrow> nat \<Rightarrow> u32 \<Rightarrow> nat \<Rightarrow> tcb \<Rightarrow> bool" where
  "rcv_pre R N r d t \<longleftrightarrow>
     rcv_nxt t = r + of_nat d \<and> d < 2147483648 \<and> length (recv_buf t) = RECV_BUF_SIZE \<and> rcv_used t \<le> N + d \<and>
     ring_contents (recv_buf t) (recv_buf_head t) (recv_buf_tail t) = sub_stream R (N + d - rcv_used t) (rcv_used t) \<and>
     queue_ok R N r 0 (ooo_head t) \<and> unat (ooo_bytes t) = queue_bytes (ooo_head t) \<and>
     rcv_used t + queue_bytes (ooo_head t) \<le> RECV_BUF_SIZE \<and> recv_buf_tail t = of_nat (N + d)"

lemma rcv_preD:
  assumes "rcv_pre R N r d t"
  shows "rcv_nxt t = r + of_nat d" and "d < 2147483648" and "length (recv_buf t) = RECV_BUF_SIZE" and "rcv_used t \<le> N + d"
    and "ring_contents (recv_buf t) (recv_buf_head t) (recv_buf_tail t) = sub_stream R (N + d - rcv_used t) (rcv_used t)"
    and "queue_ok R N r 0 (ooo_head t)" and "unat (ooo_bytes t) = queue_bytes (ooo_head t)"
    and "rcv_used t + queue_bytes (ooo_head t) \<le> RECV_BUF_SIZE" and "recv_buf_tail t = of_nat (N + d)"
  using assms unfolding rcv_pre_def by blast+

definition same_but_drain :: "tcb \<Rightarrow> tcb \<Rightarrow> bool" where
  "same_but_drain t t' \<longleftrightarrow>
     t' = t\<lparr>rcv_nxt := rcv_nxt t', recv_buf := recv_buf t', recv_buf_tail := recv_buf_tail t',
           ooo_head := ooo_head t', ooo_bytes := ooo_bytes t'\<rparr>"

lemma same_but_drain_refl [simp]: "same_but_drain t t"
  by (simp add: same_but_drain_def)

lemma same_but_drain_trans:
  assumes "same_but_drain a b" and "same_but_drain b c"
  shows "same_but_drain a c"
  unfolding same_but_drain_def
  by (subst assms(2) [unfolded same_but_drain_def], subst assms(1) [unfolded same_but_drain_def]) simp

text \<open>One entry leaves the queue unread.\<close>

lemma rcv_pre_discard:
  assumes "rcv_pre R N r d t" and "ooo_head t = e # es"
  shows "rcv_pre R N r d (t\<lparr>ooo_bytes := ooo_bytes t - tq_len e, ooo_head := es\<rparr>)"
proof -
  note D = rcv_preD [OF assms(1)]
  have "unat (ooo_bytes t - tq_len e) = queue_bytes es"
    using D(7) assms(2) by (simp add: unat_sub word_le_nat_alt)
  then show ?thesis
    using D assms(2) queue_ok_lower [of R N r "tq_end r e" es 0] by (simp add: rcv_pre_def rcv_used_def)
qed

text \<open>The head entry loses the prefix that has arrived meanwhile.\<close>

lemma rcv_pre_trim:
  assumes "rcv_pre R N r d t" and "ooo_head t = e # es" and "d < tq_end r e"
  obtains e' t' where "trim_head e es t = (e', t')" and "rcv_pre R N r d t'" and "same_but_drain t t'"
    and "ooo_head t' = e' # es" and "tq_off r e' = max d (tq_off r e)" and "tq_end r e' = tq_end r e"
    and "recv_buf t' = recv_buf t" and "recv_buf_tail t' = recv_buf_tail t" and "rcv_nxt t' = rcv_nxt t"
proof -
  note D = rcv_preD [OF assms(1)]
  have e: "entry_ok R N r e" and es: "queue_ok R N r (tq_end r e) es" using D(6) assms(2) by simp_all
  show thesis
  proof (cases "tq_off r e < d")
    case False
    then show thesis
      using that [of e t] assms entry_compare(3) [OF e D(2)] D(1) by (simp add: trim_head_def)
  next
    case True
    define n where "n = d - tq_off r e"
    have n: "n < unat (tq_len e)" "n < 4294967296" using True assms(3) D(2) by (auto simp: n_def tq_end_def)
    have ov: "rcv_nxt t - tq_seq e = of_nat n" using end_minus_start [of r e d] True D(1) by (simp add: n_def)
    let ?t = "t\<lparr>ooo_head := tq_trim n e # es, ooo_bytes := ooo_bytes t - of_nat n\<rparr>"
    have th: "trim_head e es t = (tq_trim n e, ?t)"
      using entry_compare(3) [OF e D(2)] True n D(1)
      by (simp add: trim_head_def ov [unfolded D(1)] tq_trim_def unat_of_nat32 Let_def)
    note ok = tq_trim_ok [OF e n(1)]
    have "unat (ooo_bytes t - of_nat n) = queue_bytes (ooo_head t) - n"
      using D(7) n assms(2) by (simp add: unat_sub word_le_nat_alt unat_of_nat32)
    then have "rcv_pre R N r d ?t"
      using D assms(2) n ok es by (simp add: rcv_pre_def rcv_used_def)
    then show thesis
      by (rule that [OF th]) (use True ok in \<open>auto simp: same_but_drain_def n_def\<close>)
  qed
qed

text \<open>An entry at the edge moves into the receive buffer.\<close>

lemma rcv_pre_consume:
  assumes "rcv_pre R N r d t" and "ooo_head t = e # es" and "tq_off r e = d"
  obtains buf where "ring_buf_write (recv_buf t) RECV_BUF_SIZE (recv_buf_tail t) (tq_data e) (unat (tq_len e)) = Inr buf"
    and "\<not> tq_len e > RECV_BUF_SIZE - (recv_buf_tail t - recv_buf_head t)" and "tq_seq e = rcv_nxt t"
    and "rcv_pre R N r (tq_end r e) (t\<lparr>recv_buf := buf, recv_buf_tail := recv_buf_tail t + tq_len e,
       rcv_nxt := rcv_nxt t + tq_len e, ooo_bytes := ooo_bytes t - tq_len e, ooo_head := es\<rparr>)"
proof -
  note D = rcv_preD [OF assms(1)]
  have e: "entry_ok R N r e" and es: "queue_ok R N r (tq_end r e) es" using D(6) assms(2) by simp_all
  define n where "n = unat (tq_len e)"
  have data: "tq_data e = sub_stream R (N + d) n" using e assms(3) by (simp add: entry_ok_def n_def)
  have len: "tq_len e = of_nat n" by (simp add: n_def)
  have fit: "rcv_used t + n \<le> 1048576" using D(8) assms(2) by (simp add: n_def)
  from ring_write_contents [of "recv_buf t" "recv_buf_tail t" "recv_buf_head t" "tq_data e"] D(3) fit
  obtain buf where w: "ring_buf_write (recv_buf t) 1048576 (recv_buf_tail t) (tq_data e) n = Inr buf"
    and buf: "length buf = 1048576" "ring_contents buf (recv_buf_head t) (recv_buf_tail t + of_nat n) =
      ring_contents (recv_buf t) (recv_buf_head t) (recv_buf_tail t) @ tq_data e"
    by (auto simp: returns_def data rcv_used_def)
  have used: "unat (recv_buf_tail t + of_nat n - recv_buf_head t) = rcv_used t + n"
    using fit by (subst unat_tail_advance) (simp_all add: rcv_used_def)
  have contents: "ring_contents buf (recv_buf_head t) (recv_buf_tail t + of_nat n) =
      sub_stream R (N + d - rcv_used t) (rcv_used t + n)"
    using D(4) sub_stream_append [of R "N + d - rcv_used t" "rcv_used t" n] by (simp add: buf D(5) data)
  have b: "unat (ooo_bytes t - tq_len e) = queue_bytes es" using D(7) assms(2) by (simp add: unat_sub word_le_nat_alt)
  have "unat (1048576 - (recv_buf_tail t - recv_buf_head t)) = 1048576 - rcv_used t"
    using fit by (simp add: rcv_used_def unat_sub word_le_nat_alt)
  then have free: "\<not> tq_len e > 1048576 - (recv_buf_tail t - recv_buf_head t)"
    using fit by (simp add: word_less_nat_alt n_def)
  have nd: "tq_end r e = d + n" using assms(3) by (simp add: tq_end_def n_def)
  have "tq_end r e < 2147483648" using e by (simp add: entry_ok_def)
  then have "rcv_pre R N r (tq_end r e) (t\<lparr>recv_buf := buf, recv_buf_tail := recv_buf_tail t + tq_len e,
       rcv_nxt := rcv_nxt t + tq_len e, ooo_bytes := ooo_bytes t - tq_len e, ooo_head := es\<rparr>)"
    using D(1,4,8,9) assms(2) buf used contents es b fit queue_ok_lower [OF es, of 0] unfolding len
    by (simp add: rcv_pre_def rcv_used_def nd n_def [symmetric])
  moreover have "tq_seq e = rcv_nxt t" using tq_seq_off [of e r] D(1) assms(3) by simp
  ultimately show thesis using w free that by (simp add: n_def)
qed

lemma seq_at_edge:
  assumes "entry_ok R N r e" and "d < 2147483648"
  shows "tq_seq e = r + of_nat d \<longleftrightarrow> tq_off r e = d"
proof
  assume "tq_seq e = r + of_nat d"
  then show "tq_off r e = d" using assms(2) by (simp add: tq_off_def unat_of_nat32)
next
  assume "tq_off r e = d"
  then show "tq_seq e = r + of_nat d" using tq_seq_off [of e r] by simp
qed

definition drained :: "(nat \<Rightarrow> u8) \<Rightarrow> nat \<Rightarrow> u32 \<Rightarrow> nat \<Rightarrow> tcb \<Rightarrow> tcb \<Rightarrow> bool" where
  "drained R N r d t t' \<longleftrightarrow> (\<exists>d' \<ge> d. rcv_pre R N r d' t' \<and> queue_ok R N r (Suc d') (ooo_head t') \<and> same_but_drain t t' \<and>
     (\<forall>p. d \<le> p \<and> p < d' \<longrightarrow> covered r (ooo_head t) p) \<and> \<not> covered r (ooo_head t) d')"

lemma drained_discard:
  assumes "drained R N r d t1 t'" and "ooo_head t = e # ooo_head t1" and "tq_end r e \<le> d" and "same_but_drain t t1"
  shows "drained R N r d t t'"
  using assms same_but_drain_trans [OF assms(4)] by (fastforce simp: drained_def)

lemma drained_consume:
  assumes "drained R N r (tq_end r e) t2 t'" and "ooo_head t = e # ooo_head t2" and "same_but_drain t t2"
    and "tq_off r e \<le> d" and "d < tq_end r e"
  shows "drained R N r d t t'"
proof -
  from assms(1) obtain d' where d': "tq_end r e \<le> d'" "rcv_pre R N r d' t'" "queue_ok R N r (Suc d') (ooo_head t')"
    "same_but_drain t2 t'" "\<And>p. tq_end r e \<le> p \<Longrightarrow> p < d' \<Longrightarrow> covered r (ooo_head t2) p" "\<not> covered r (ooo_head t2) d'"
    by (auto simp: drained_def)
  have "covered r (ooo_head t) p" if "d \<le> p" "p < d'" for p
    using that d'(5) [of p] assms(2,4) by (cases "p < tq_end r e") auto
  then show ?thesis
    using d' assms same_but_drain_trans [OF assms(3) d'(4)] by (auto simp: drained_def intro!: exI [of _ d'])
qed

text \<open>The head entry lies beyond the edge: the loop ends.\<close>

lemma drain_stops:
  assumes pre: "rcv_pre R N r d t" and q: "ooo_head t = e # es" and gap: "d < tq_off r e"
  shows "returns (drain_ooo_queue t) (drained R N r d t)"
proof -
  note D = rcv_preD [OF pre]
  have e: "entry_ok R N r e" and es: "queue_ok R N r (tq_end r e) es" using D(6) q by simp_all
  have lt: "d < tq_end r e" using gap by (simp add: tq_end_def)
  from rcv_pre_trim [OF pre q lt] obtain e' t1 where
    th: "trim_head e es t = (e', t1)" and pre1: "rcv_pre R N r d t1" and same: "same_but_drain t t1"
    and t1: "ooo_head t1 = e' # es" "tq_off r e' = max d (tq_off r e)" "tq_end r e' = tq_end r e" by metis
  have e': "entry_ok R N r e'" using rcv_preD(6) [OF pre1] t1(1) by simp
  then have "tq_seq e' \<noteq> rcv_nxt t1" using seq_at_edge [OF e' D(2)] rcv_preD(1) [OF pre1] t1(2) gap by auto
  then have "drain_ooo_queue t = Inr t1"
    using entry_compare [OF e D(2), folded D(1)] lt q th by (subst drain_ooo_queue.simps) simp
  moreover have "queue_ok R N r (Suc d) (ooo_head t1)" using e' es gap t1 by simp
  moreover have "\<not> covered r (ooo_head t) d"
    using gap es lt not_covered_below [of R N r "tq_end r e" es d] q by simp
  ultimately show ?thesis using pre1 same by (auto simp: drained_def)
qed

text \<open>The head entry reaches the edge: its bytes go into the buffer and the loop goes on after them.\<close>

lemma drain_takes:
  assumes pre: "rcv_pre R N r d t" and q: "ooo_head t = e # es" and at: "tq_off r e \<le> d" and lt: "d < tq_end r e"
  obtains t2 where "drain_ooo_queue t = drain_ooo_queue t2" and "rcv_pre R N r (tq_end r e) t2" and "ooo_head t2 = es"
    and "same_but_drain t t2"
proof -
  note D = rcv_preD [OF pre]
  have e: "entry_ok R N r e" using D(6) q by simp
  from rcv_pre_trim [OF pre q lt] obtain e' t1 where
    th: "trim_head e es t = (e', t1)" and pre1: "rcv_pre R N r d t1" and same: "same_but_drain t t1"
    and t1: "ooo_head t1 = e' # es" "tq_off r e' = max d (tq_off r e)" "tq_end r e' = tq_end r e" by metis
  have "tq_off r e' = d" using t1(2) at by simp
  from rcv_pre_consume [OF pre1 t1(1) this] obtain buf where
    w: "ring_buf_write (recv_buf t1) 1048576 (recv_buf_tail t1) (tq_data e') (unat (tq_len e')) = Inr buf"
    and free: "\<not> tq_len e' > 1048576 - (recv_buf_tail t1 - recv_buf_head t1)" and sq: "tq_seq e' = rcv_nxt t1"
    and pre2: "rcv_pre R N r (tq_end r e') (t1\<lparr>recv_buf := buf, recv_buf_tail := recv_buf_tail t1 + tq_len e',
      rcv_nxt := rcv_nxt t1 + tq_len e', ooo_bytes := ooo_bytes t1 - tq_len e', ooo_head := es\<rparr>)" .
  let ?t2 = "t1\<lparr>recv_buf := buf, recv_buf_tail := recv_buf_tail t1 + tq_len e',
      rcv_nxt := rcv_nxt t1 + tq_len e', ooo_bytes := ooo_bytes t1 - tq_len e', ooo_head := es\<rparr>"
  have "drain_ooo_queue t = drain_ooo_queue ?t2"
    using entry_compare [OF e D(2), folded D(1)] lt q th sq free w by (subst drain_ooo_queue.simps) (simp add: Let_def)
  moreover have "same_but_drain t ?t2"
    by (rule same_but_drain_trans [OF same]) (simp add: same_but_drain_def)
  ultimately show thesis using that pre2 t1(3) by simp
qed

lemma drain_ooo_queue_drained:
  "rcv_pre R N r d t \<Longrightarrow> returns (drain_ooo_queue t) (drained R N r d t)"
proof (induction "length (ooo_head t)" arbitrary: t d rule: less_induct)
  case less
  note D = rcv_preD [OF less.prems]
  show ?case
  proof (cases "ooo_head t")
    case Nil
    then have "drain_ooo_queue t = Inr t" by (subst drain_ooo_queue.simps) simp
    then show ?thesis using less.prems Nil by (auto simp: drained_def)
  next
    case (Cons e es)
    consider "tq_end r e \<le> d" | "d < tq_off r e" | "tq_off r e \<le> d" "d < tq_end r e" by linarith
    then show ?thesis
    proof cases
      case 1
      let ?t = "t\<lparr>ooo_bytes := ooo_bytes t - tq_len e, ooo_head := es\<rparr>"
      have e: "entry_ok R N r e" using D(6) Cons by simp
      then have "drain_ooo_queue t = drain_ooo_queue ?t"
        using entry_compare [OF e D(2), folded D(1)] 1 Cons by (subst drain_ooo_queue.simps) simp
      moreover have "returns (drain_ooo_queue ?t) (drained R N r d ?t)"
        using less.hyps [of ?t] rcv_pre_discard [OF less.prems Cons] Cons by simp
      ultimately show ?thesis
        using drained_discard [of R N r d ?t _ t e] 1 Cons by (auto simp: same_but_drain_def elim: returns_mono)
    next
      case 2
      then show ?thesis by (rule drain_stops [OF less.prems Cons])
    next
      case 3
      from drain_takes [OF less.prems Cons 3] obtain t2 where t2: "drain_ooo_queue t = drain_ooo_queue t2"
        "rcv_pre R N r (tq_end r e) t2" "ooo_head t2 = es" "same_but_drain t t2" .
      from less.hyps [OF _ t2(2)] t2 Cons show ?thesis
        using drained_consume [of R N r e t2 _ t d] 3 by (auto elim: returns_mono)
    qed
  qed
qed

text \<open>Counting from the new edge.\<close>

lemma queue_ok_rebase:
  assumes "queue_ok R N r lo es" and "d \<le> lo"
  shows "queue_ok R (N + d) (r + of_nat d) (lo - d) es"
  using assms
proof (induction es arbitrary: lo)
  case (Cons e es)
  have e: "entry_ok R N r e" and "d \<le> tq_off r e" using Cons.prems by simp_all
  then have off: "tq_off (r + of_nat d) e = tq_off r e - d" by (simp add: tq_off_def unat_head_advance)
  then have en: "tq_end (r + of_nat d) e = tq_end r e - d" using \<open>d \<le> tq_off r e\<close> by (simp add: tq_end_def)
  have "d \<le> tq_end r e" using \<open>d \<le> tq_off r e\<close> by (simp add: tq_end_def)
  then show ?case
    using Cons.IH [of "tq_end r e"] Cons.prems e off en \<open>d \<le> tq_off r e\<close> by (auto simp: entry_ok_def)
qed simp

lemma rcv_inv_of_pre:
  assumes "rcv_pre R N r d t" and "queue_ok R N r (Suc d) (ooo_head t)" and "r = irs t + 1 + of_nat N"
  shows "rcv_inv R (N + d) t"
  using rcv_preD [OF assms(1)] queue_ok_rebase [OF assms(2), of d] assms(3)
  by (simp add: rcv_inv_def add.assoc)

text \<open>The segment at the edge goes into the buffer; the queue keeps counting from the old edge.\<close>

lemma rcv_pre_accept:
  assumes inv: "rcv_inv R N t" and n: "n \<le> RECV_BUF_SIZE - rcv_used t - queue_bytes (ooo_head t)"
  obtains buf where "ring_buf_write (recv_buf t) RECV_BUF_SIZE (recv_buf_tail t) (sub_stream R N n) n = Inr buf"
    and "rcv_pre R N (rcv_nxt t) n (t\<lparr>recv_buf := buf, recv_buf_tail := recv_buf_tail t + of_nat n,
       rcv_nxt := rcv_nxt t + of_nat n\<rparr>)"
proof -
  note D = rcv_invD [OF inv]
  have fit: "rcv_used t + n \<le> 1048576" using n D(7) by simp
  from ring_write_contents [of "recv_buf t" "recv_buf_tail t" "recv_buf_head t" "sub_stream R N n"] D(2) fit
  obtain buf where w: "ring_buf_write (recv_buf t) 1048576 (recv_buf_tail t) (sub_stream R N n) n = Inr buf"
    and buf: "length buf = 1048576" "ring_contents buf (recv_buf_head t) (recv_buf_tail t + of_nat n) =
      ring_contents (recv_buf t) (recv_buf_head t) (recv_buf_tail t) @ sub_stream R N n"
    by (auto simp: returns_def rcv_used_def)
  have used: "unat (recv_buf_tail t + of_nat n - recv_buf_head t) = rcv_used t + n"
    using fit by (subst unat_tail_advance) (simp_all add: rcv_used_def)
  have "rcv_pre R N (rcv_nxt t) n (t\<lparr>recv_buf := buf, recv_buf_tail := recv_buf_tail t + of_nat n,
       rcv_nxt := rcv_nxt t + of_nat n\<rparr>)"
    using D(3,4,6-8) buf used fit n queue_ok_lower [OF D(5), of 0]
      sub_stream_append [of R "N - rcv_used t" "rcv_used t" n]
    by (simp add: rcv_pre_def rcv_used_def)
  then show thesis using w that by simp
qed

lemma same_but_drain_simps:
  assumes "same_but_drain t t'"
  shows "irs t' = irs t" "recv_buf_head t' = recv_buf_head t" "state t' = state t" "iss t' = iss t"
    "snd_una t' = snd_una t" "snd_nxt t' = snd_nxt t" "snd_max t' = snd_max t" "send_buf t' = send_buf t"
    "send_buf_head t' = send_buf_head t" "send_buf_tail t' = send_buf_tail t" "rcv_scale t' = rcv_scale t"
    "t_flags t' = t_flags t" "t_dupacks t' = t_dupacks t" "t_timer t' = t_timer t" "cc_ops t' = cc_ops t"
    "ssthresh t' = ssthresh t" "t_rxtshift t' = t_rxtshift t"
  by (insert assms, unfold same_but_drain_def) (erule ssubst, simp)+

section \<open>Properties\<close>

text \<open>
  C33: Inserting an out-of-order segment of the peer's stream keeps the receive invariant (sorted,
  disjoint entries that hold the stream, exact byte count, total within the buffer size) and changes nothing but the queue.
  With memory available and room for it the segment is buffered whole.
\<close>

theorem insert_ooo_keeps_stream:
  assumes "rcv_inv R N t" and "0 < k" and "0 < n" and "k + n < 2147483648"
    and "insert_ooo_segment env t (rcv_nxt t + of_nat k) (sub_stream R (N + k) n) w = (t', w')"
  shows "rcv_inv R N t' \<and> t' = t\<lparr>ooo_head := ooo_head t', ooo_bytes := ooo_bytes t'\<rparr> \<and>
    (good_env env \<and> n \<le> RECV_BUF_SIZE - rcv_used t - queue_bytes (ooo_head t) \<longrightarrow>
      (\<forall>p. k \<le> p \<and> p < k + n \<longrightarrow> covered (rcv_nxt t) (ooo_head t') p))"
proof -
  let ?e = "\<lparr>tq_seq = rcv_nxt t + of_nat k, tq_len = of_nat n, tq_data = sub_stream R (N + k) n\<rparr>"
  note ok = insert_ooo_ok [OF assms(1,2,4,3,5)]
  have "tq_off (rcv_nxt t) ?e = k" "tq_end (rcv_nxt t) ?e = k + n"
    using assms(4) by (simp_all add: tq_end_def tq_off_def unat_of_nat32)
  then have "covered (rcv_nxt t) (ooo_head t') p" if "?e \<in> set (ooo_head t')" "k \<le> p" "p < k + n" for p
    unfolding covered_def using that by (intro bexI [of _ ?e]) simp_all
  with ok show ?thesis by simp
qed

text \<open>A connection that has received nothing yet.\<close>

definition fresh_rcv :: tcb where
  "fresh_rcv = (calloc_tcb utcp_new_reno)\<lparr>state := TCP_ESTABLISHED, rcv_nxt := 1\<rparr>"

lemma fresh_rcv_inv: "rcv_inv (\<lambda>_. 0) 0 fresh_rcv"
  by (simp add: rcv_inv_def fresh_rcv_def rcv_used_def ring_contents_def)

theorem insert_ooo_keeps_stream_witness:
  "covered 1 (ooo_head (fst (insert_ooo_segment env0 fresh_rcv (1 + of_nat 5) (sub_stream (\<lambda>_. 0) (0 + 5) 3) world0))) 6"
  using insert_ooo_keeps_stream [OF fresh_rcv_inv, of 5 3 env0 world0] good_env0
  by (cases "insert_ooo_segment env0 fresh_rcv (1 + of_nat 5) (sub_stream (\<lambda>_. 0) (0 + 5) 3) world0")
    (simp add: fresh_rcv_def rcv_used_def)

text \<open>
  C34: Draining after \<open>d\<close> bytes have arrived in order moves exactly the bytes up to the first gap:
  every position before the new edge was queued, the edge itself was not, the moved bytes are the
  stream's, in order, and the receive invariant holds at the new edge.
\<close>

theorem drain_moves_contiguous:
  assumes "rcv_pre R N r d t" and "r = irs t + 1 + of_nat N"
  shows "returns (drain_ooo_queue t) (\<lambda>t'. \<exists>d' \<ge> d. rcv_inv R (N + d') t' \<and> same_but_drain t t' \<and>
     (\<forall>p. d \<le> p \<and> p < d' \<longrightarrow> covered r (ooo_head t) p) \<and> \<not> covered r (ooo_head t) d')"
proof (rule returns_mono [OF drain_ooo_queue_drained [OF assms(1)]])
  fix t'
  assume "drained R N r d t t'"
  then obtain d' where d': "d \<le> d'" "rcv_pre R N r d' t'" "queue_ok R N r (Suc d') (ooo_head t')" "same_but_drain t t'"
    "\<forall>p. d \<le> p \<and> p < d' \<longrightarrow> covered r (ooo_head t) p" "\<not> covered r (ooo_head t) d'"
    unfolding drained_def by blast
  moreover have "rcv_inv R (N + d') t'"
    using rcv_inv_of_pre [OF d'(2,3)] assms(2) same_but_drain_simps [OF d'(4)] by simp
  ultimately show "\<exists>d' \<ge> d. rcv_inv R (N + d') t' \<and> same_but_drain t t' \<and>
     (\<forall>p. d \<le> p \<and> p < d' \<longrightarrow> covered r (ooo_head t) p) \<and> \<not> covered r (ooo_head t) d'" by blast
qed

theorem drain_moves_contiguous_witness:
  "returns (drain_ooo_queue fresh_rcv) (\<lambda>t'. \<exists>d' \<ge> 0. rcv_inv (\<lambda>_. 0) (0 + d') t' \<and> \<not> covered 1 (ooo_head fresh_rcv) d')"
proof -
  have "rcv_pre (\<lambda>_. 0) 0 1 0 fresh_rcv"
    by (simp add: rcv_pre_def fresh_rcv_def rcv_used_def ring_contents_def)
  from drain_moves_contiguous [OF this] show ?thesis
    by (auto simp: fresh_rcv_def elim!: returns_mono)
qed

text \<open>
  A segment that falls inside a queued entry discards the bytes of that entry that precede it:
  the entry is cut from the front up to the end of the new segment, and nothing keeps its first part.
\<close>

theorem insert_ooo_discards_front:
  assumes "rcv_inv R N t" and "ooo_head t = [e]" and "good_env env" and "0 < n" and "tq_off (rcv_nxt t) e < k"
    and "k + n < tq_end (rcv_nxt t) e" and "n \<le> RECV_BUF_SIZE - rcv_used t - unat (tq_len e)"
    and "insert_ooo_segment env t (rcv_nxt t + of_nat k) (sub_stream R (N + k) n) w = (t', w')"
  shows "covered (rcv_nxt t) (ooo_head t) (tq_off (rcv_nxt t) e) \<and> \<not> covered (rcv_nxt t) (ooo_head t') (tq_off (rcv_nxt t) e)"
proof -
  let ?r = "rcv_nxt t"
  let ?e = "\<lparr>tq_seq = ?r + of_nat k, tq_len = of_nat n, tq_data = sub_stream R (N + k) n\<rparr>"
  define m where "m = k + n - tq_off ?r e"
  have e: "entry_ok R N ?r e" using rcv_invD(5) [OF assms(1)] assms(2) by simp
  have b: "k + n < 2147483648" "k < 2147483648" using assms(6) e by (simp_all add: entry_ok_def)
  note cmp = entry_compare [OF e b(1)] entry_compare [OF e b(2)]
  have ov: "?r + of_nat k + of_nat n - tq_seq e = of_nat m"
    using end_minus_start [of ?r e "k + n"] assms(5) by (simp add: m_def add.assoc)
  have m: "m < unat (tq_len e)" "m < 4294967296" "0 < m" using b assms(5,6) by (auto simp: m_def tq_end_def)
  have "unat (of_nat n :: u32) = n" using b by (intro unat_of_nat32) simp
  then have room: "\<not> of_nat n > (RECV_BUF_SIZE - (recv_buf_tail t - recv_buf_head t) - ooo_bytes t :: u32)"
    using rcv_available [OF assms(1)] assms(2,7) by (simp add: word_less_nat_alt)
  have "skip_before (?r + of_nat k) [e] = ([], [e])" using cmp(4) assms(6) by simp
  moreover have "absorb (?r + of_nat k + of_nat n) [e] b = ([tq_trim m e], b - of_nat m)" for b
    using cmp(1,3) assms(5,6) m by (simp add: ov tq_trim_def unat_of_nat32 Let_def add.assoc [symmetric])
  ultimately have "ooo_head t' = [?e, tq_trim m e]"
    using assms(2,3,8) room
    by (auto simp: insert_ooo_segment_def trim_start_def try_malloc_def good_env_def Let_def
        simp del: absorb.simps skip_before.simps)
  moreover have "tq_off ?r ?e = k" using b by (simp add: tq_off_def unat_of_nat32)
  ultimately show ?thesis
    using tq_trim_ok [OF e m(1)] m(3) assms(2,5,6) by (simp add: tq_end_def)
qed

theorem insert_ooo_discards_front_witness:
  "\<not> covered 1 (ooo_head (fst (insert_ooo_segment env0
      (fresh_rcv\<lparr>ooo_head := [\<lparr>tq_seq = 11, tq_len = 10, tq_data = sub_stream (\<lambda>_. 0) 10 10\<rparr>], ooo_bytes := 10\<rparr>)
      (1 + of_nat 12) (sub_stream (\<lambda>_. 0) (0 + 12) 2) world0))) 10"
proof -
  let ?e = "\<lparr>tq_seq = 11, tq_len = 10 :: u32, tq_data = sub_stream (\<lambda>_. 0 :: u8) 10 10\<rparr>"
  let ?t = "fresh_rcv\<lparr>ooo_head := [?e], ooo_bytes := 10\<rparr>"
  have off: "tq_off 1 ?e = 10" "tq_end 1 ?e = 20" by (simp_all add: tq_off_def tq_end_def)
  have "rcv_inv (\<lambda>_. 0) 0 ?t"
    using fresh_rcv_inv off by (simp add: rcv_inv_def rcv_used_def entry_ok_def fresh_rcv_def)
  from insert_ooo_discards_front [OF this, of ?e env0 2 12 world0] show ?thesis
    using off good_env0
    by (cases "insert_ooo_segment env0 ?t (1 + of_nat 12) (sub_stream (\<lambda>_. 0) (0 + 12) 2) world0")
      (simp add: fresh_rcv_def rcv_used_def)
qed

end
