(* ===== verification/Input.thy ===== *)
theory Input
  imports Timer Reassembly Wire
begin

text \<open>
  The receiving side of \<^verbatim>\<open>src/utcp/utcp_input.c\<close>: acknowledgement processing, data processing with
  the reassembly queue, the lookup of the connection, and one iteration of the listening thread
  with the connection state machine.
\<close>

section \<open>Acknowledgements\<close>

text \<open>A round-trip sample from the echoed timestamp, or from the tick counter.\<close>

definition measure_rtt :: "env \<Rightarrow> u8 list \<Rightarrow> tcphdr \<Rightarrow> st \<Rightarrow> (u32 \<times> st) res" where
  "measure_rtt env buff hdr s = (case s of (tcb, w) \<Rightarrow>
     if ts_enabled tcb
     then rbind (extract_tsecr buff hdr) (\<lambda>tsecr.
          case tsecr of
            None \<Rightarrow> Inr (0, tcb, w)
          | Some tsecr \<Rightarrow>
              if tsecr = 0 then Inr (0, tcb, w)
              else rbind (utcp_get_time_us env w) (\<lambda>(now_us, w).
                   let rtt_us_measured = ucast (now_us - ucast tsecr)
                   in Inr (rtt_us_measured, (utcp_xmit_timer rtt_us_measured tcb)\<lparr>t_rtt := 0\<rparr>, w)))
     else if t_rtt tcb \<noteq> 0 \<and> SEQ_GT (th_ack hdr) (t_rtseq tcb)
     then let rtt_us_measured = (t_rtt tcb - 1) * TCP_TICK_MS * 1000
          in Inr (rtt_us_measured, (utcp_xmit_timer rtt_us_measured tcb)\<lparr>t_rtt := 0\<rparr>, w)
     else Inr (0, tcb, w))"

definition rearm_rexmt :: "tcb \<Rightarrow> tcb res" where
  "rearm_rexmt tcb =
     (if snd_una tcb = snd_max tcb then Inr (set_timer TCPT_REXMT 0 (tcb\<lparr>t_rxtshift := 0\<rparr>))
      else if t_rxtshift tcb > 0
      then rbind (arr_get tcp_backoff (unat (t_rxtshift tcb))) (\<lambda>backoff.
           Inr (set_timer TCPT_REXMT (ucast (backed_off_rto (t_rxtcur tcb) backoff)) tcb))
      else Inr (set_timer TCPT_REXMT (ucast (t_rxtcur tcb)) tcb))"

text \<open>The sender's window slides: sequence numbers, buffer head, peer window.\<close>

definition slide_window :: "tcphdr \<Rightarrow> tcb \<Rightarrow> tcb res" where
  "slide_window hdr tcb =
     (let ack_num = th_ack hdr;
          newly_acked_bytes = ack_num - snd_una tcb;
          tcb = tcb\<lparr>snd_una := ack_num\<rparr>;
          tcb = (if SEQ_GT (snd_una tcb) (snd_nxt tcb) then tcb\<lparr>snd_nxt := snd_una tcb\<rparr> else tcb);
          tcb = tcb\<lparr>t_dupacks := 0, send_buf_head := send_buf_head tcb + newly_acked_bytes\<rparr>
      in rbind (GET_SCALED_WIN tcb hdr) (\<lambda>wnd. Inr (tcb\<lparr>snd_wnd := wnd\<rparr>)))"

definition handle_new_ack :: "env \<Rightarrow> u8 list \<Rightarrow> tcphdr \<Rightarrow> st \<Rightarrow> st res" where
  "handle_new_ack env buff hdr s = (case s of (tcb, w) \<Rightarrow>
     let newly_acked_bytes = th_ack hdr - snd_una tcb in
     rbind (slide_window hdr tcb) (\<lambda>tcb.
     rbind (measure_rtt env buff hdr (tcb, cond_broadcast w)) (\<lambda>(rtt_us_measured, tcb, w).
     rbind (rearm_rexmt tcb) (\<lambda>tcb.
     rbind (cong_control (cc_ops tcb) env (TCP_CC_EVENT_ACK newly_acked_bytes rtt_us_measured) (tcb, w)) (\<lambda>(tcb, w).
     log_lstm_event env tcb rtt_us_measured newly_acked_bytes False False w)))))"

definition handle_dup_ack :: "env \<Rightarrow> tcphdr \<Rightarrow> nat \<Rightarrow> st \<Rightarrow> st res" where
  "handle_dup_ack env hdr data_length s = (case s of (tcb, w) \<Rightarrow>
     rbind (GET_SCALED_WIN tcb hdr) (\<lambda>current_scaled_win.
     if current_scaled_win > snd_wnd tcb
     then Inr (tcb\<lparr>snd_wnd := current_scaled_win\<rparr>, cond_broadcast w)
     else if data_length = 0 \<and> current_scaled_win \<le> snd_wnd tcb \<and> snd_una tcb \<noteq> snd_max tcb
     then let tcb = tcb\<lparr>snd_wnd := current_scaled_win\<rparr>;
              tcb = (if t_dupacks tcb < 255 then tcb\<lparr>t_dupacks := t_dupacks tcb + 1\<rparr> else tcb)
          in rbind (cong_control (cc_ops tcb) env (TCP_CC_EVENT_DUP_ACK (ucast (t_dupacks tcb))) (tcb, w)) (\<lambda>(tcb, w).
             log_lstm_event env tcb 0 0 True False w)
     else Inr (tcb, w)))"

definition handle_ack :: "env \<Rightarrow> u8 list \<Rightarrow> tcphdr \<Rightarrow> nat \<Rightarrow> st \<Rightarrow> st res" where
  "handle_ack env buff hdr data_length s =
     (if SEQ_GT (th_ack hdr) (snd_una (fst s)) \<and> SEQ_LEQ (th_ack hdr) (snd_max (fst s))
      then handle_new_ack env buff hdr s
      else if th_ack hdr = snd_una (fst s) then handle_dup_ack env hdr data_length s
      else Inr s)"

section \<open>Data\<close>

text \<open>When to acknowledge: at once after a filled gap, during duplicate ACKs, or on every second segment.\<close>

definition ack_policy :: "bool \<Rightarrow> tcb \<Rightarrow> tcb" where
  "ack_policy gap_filled tcb =
     (if gap_filled \<or> t_dupacks tcb > 0 \<or> has_flag (t_flags tcb) TF_DELACK
      then set_timer TCPT_DELACK 0 (tcb\<lparr>t_flags := set_flag (clear_flag (t_flags tcb) TF_DELACK) TF_ACKNOW\<rparr>)
      else set_timer TCPT_DELACK (of_nat TCPTV_DELACK) (tcb\<lparr>t_flags := set_flag (t_flags tcb) TF_DELACK\<rparr>))"

definition accept_in_order :: "u8 list \<Rightarrow> st \<Rightarrow> st res" where
  "accept_in_order data s = (case s of (tcb, w) \<Rightarrow>
     rbind (ring_buf_write (recv_buf tcb) RECV_BUF_SIZE (recv_buf_tail tcb) data (length data)) (\<lambda>buf.
     let tcb = tcb\<lparr>recv_buf := buf, recv_buf_tail := recv_buf_tail tcb + of_nat (length data),
                   rcv_nxt := rcv_nxt tcb + of_nat (length data)\<rparr>;
         w = cond_broadcast w;
         pre_drain_rcv_nxt = rcv_nxt tcb
     in rbind (drain_ooo_queue tcb) (\<lambda>tcb.
        let gap_filled = (rcv_nxt tcb \<noteq> pre_drain_rcv_nxt)
        in Inr (ack_policy gap_filled tcb, if gap_filled then cond_broadcast w else w))))"

definition place_data :: "env \<Rightarrow> u32 \<Rightarrow> u8 list \<Rightarrow> st \<Rightarrow> st res" where
  "place_data env seq_num data s = (case s of (tcb, w) \<Rightarrow>
     if seq_num = rcv_nxt tcb
     then let free_space = RECV_BUF_SIZE - (recv_buf_tail tcb - recv_buf_head tcb) - ooo_bytes tcb
          in if length data \<le> unat free_space
             then rbind (accept_in_order data (tcb, w)) (call_output env)
             else Inr (tcb, w)
     else case insert_ooo_segment env tcb seq_num data w of (tcb, w) \<Rightarrow>
          call_output env (tcb\<lparr>t_flags := set_flag (t_flags tcb) TF_ACKNOW\<rparr>, w))"

definition handle_data :: "env \<Rightarrow> u32 \<Rightarrow> u8 list \<Rightarrow> st \<Rightarrow> st res" where
  "handle_data env seq_num data s = (case s of (tcb, w) \<Rightarrow>
     if data = [] then call_output env (tcb, w)
     else if SEQ_LT seq_num (rcv_nxt tcb)
     then let duplicate_bytes = rcv_nxt tcb - seq_num
          in if unat duplicate_bytes \<ge> length data
             then call_output env (tcb\<lparr>t_flags := set_flag (t_flags tcb) TF_ACKNOW\<rparr>, w)
             else place_data env (seq_num + duplicate_bytes) (drop (unat duplicate_bytes) data) (tcb, w)
     else place_data env seq_num data (tcb, w))"

definition handle_received_data :: "env \<Rightarrow> u8 list \<Rightarrow> tcphdr \<Rightarrow> u8 list \<Rightarrow> st \<Rightarrow> st res" where
  "handle_received_data env buff hdr data s =
     rbind (process_window_option buff hdr (fst s)) (\<lambda>tcb.
     rbind (handle_ack env buff hdr (length data) (tcb, snd s))
       (handle_data env (th_seq hdr) data))"

section \<open>The listening thread\<close>

text \<open>The loop over the descriptor table: the first exact match, else the last listening socket.\<close>

fun find_tcb_from :: "nat \<Rightarrow> nat option \<Rightarrow> tcb option list \<Rightarrow> tcphdr \<Rightarrow> u32 \<Rightarrow> nat option" where
  "find_tcb_from i listen_match [] hdr ip = listen_match"
| "find_tcb_from i listen_match (None # rest) hdr ip = find_tcb_from (Suc i) listen_match rest hdr ip"
| "find_tcb_from i listen_match (Some tcb # rest) hdr ip =
     (if src_port tcb = th_dport hdr \<and> dst_port tcb = th_sport hdr \<and> dst_ip tcb = ip then Some i
      else find_tcb_from (Suc i)
        (if state tcb = TCP_LISTEN \<and> src_port tcb = th_dport hdr then Some i else listen_match) rest hdr ip)"

definition find_tcb :: "tcb option list \<Rightarrow> tcphdr \<Rightarrow> u32 \<Rightarrow> nat option" where
  "find_tcb utcp_fd_table hdr ip = find_tcb_from 0 None utcp_fd_table hdr ip"

definition input_listen :: "env \<Rightarrow> dgram \<Rightarrow> u8 list \<Rightarrow> tcphdr \<Rightarrow> st \<Rightarrow> st res" where
  "input_listen env from buff hdr s = (case s of (tcb, w) \<Rightarrow>
     if has_flag (th_flags hdr) TH_SYN
     then rbind (process_window_option buff hdr tcb) (\<lambda>tcb.
          let tcb = tcb\<lparr>dst_port := th_sport hdr, dst_ip := dg_ip from, dst_udp_port := dg_port from,
                        irs := th_seq hdr, rcv_nxt := th_seq hdr + 1\<rparr>
          in rbind (GET_SCALED_WIN tcb hdr) (\<lambda>wnd.
             call_output env (tcb\<lparr>snd_wnd := wnd, iss := 0, snd_nxt := 0, snd_una := 0, state := TCP_SYN_RECV\<rparr>, w)))
     else Inr (tcb, w))"

definition input_syn_sent :: "env \<Rightarrow> u8 list \<Rightarrow> tcphdr \<Rightarrow> st \<Rightarrow> st res" where
  "input_syn_sent env buff hdr s = (case s of (tcb, w) \<Rightarrow>
     if has_flag (th_flags hdr) TH_SYN \<and> has_flag (th_flags hdr) TH_ACK \<and> th_ack hdr = snd_nxt tcb
     then rbind (process_window_option buff hdr (tcb\<lparr>snd_una := th_ack hdr, irs := th_seq hdr,
              rcv_nxt := th_seq hdr + 1, state := TCP_ESTABLISHED\<rparr>)) (\<lambda>tcb.
          rbind (GET_SCALED_WIN tcb hdr) (\<lambda>wnd.
          rbind (cong_control (cc_ops tcb) env TCP_CC_EVENT_INIT
              (set_timer TCPT_REXMT 0 (tcb\<lparr>snd_wnd := wnd, t_rxtshift := 0\<rparr>), w)) (\<lambda>(tcb, w).
          call_output env (tcb\<lparr>t_flags := set_flag (t_flags tcb) TF_ACKNOW\<rparr>, w))))
     else Inr (tcb, w))"

definition input_syn_recv :: "env \<Rightarrow> tcphdr \<Rightarrow> st \<Rightarrow> st res" where
  "input_syn_recv env hdr s = (case s of (tcb, w) \<Rightarrow>
     if has_flag (th_flags hdr) TH_ACK \<and> th_ack hdr = snd_nxt tcb
     then cong_control (cc_ops tcb) env TCP_CC_EVENT_INIT
            (set_timer TCPT_REXMT 0 (tcb\<lparr>state := TCP_ESTABLISHED, snd_una := th_ack hdr, t_rxtshift := 0\<rparr>), w)
     else Inr (tcb, w))"

definition input_segment :: "env \<Rightarrow> dgram \<Rightarrow> u8 list \<Rightarrow> tcphdr \<Rightarrow> u8 list \<Rightarrow> st \<Rightarrow> st res" where
  "input_segment env from buff hdr data s =
     (case state (fst s) of
        TCP_LISTEN \<Rightarrow> input_listen env from buff hdr s
      | TCP_SYN_SENT \<Rightarrow> input_syn_sent env buff hdr s
      | TCP_SYN_RECV \<Rightarrow> rbind (input_syn_recv env hdr s) (handle_received_data env buff hdr data)
      | TCP_ESTABLISHED \<Rightarrow> handle_received_data env buff hdr data s
      | _ \<Rightarrow> Inr s)"

text \<open>
  One iteration: the datagram lands in the 1500-byte buffer, which keeps the tail of what was there
  before. Without a matching socket the code takes the lock of a null pointer.
\<close>

definition recv_into :: "u8 list \<Rightarrow> u8 list \<Rightarrow> u8 list \<times> nat" where
  "recv_into buff bytes = (let n = min (length buff) (length bytes) in (take n bytes @ drop n buff, n))"

text \<open>The outcome of \<^verbatim>\<open>recvfrom\<close>: a datagram with its source, or a failure.\<close>

definition Recvfrom :: "dgram option \<Rightarrow> dgram res" where
  "Recvfrom received = (case received of None \<Rightarrow> err_sys ''UTCP recvfrom failed'' | Some from \<Rightarrow> Inr from)"

definition utcp_input :: "env \<Rightarrow> dgram option \<Rightarrow> u8 list \<Rightarrow> tcb option list \<Rightarrow> world \<Rightarrow> (u8 list \<times> tcb option list \<times> world) res" where
  "utcp_input env received buff utcp_fd_table w =
     rbind (Recvfrom received) (\<lambda>from.
      case recv_into buff (dg_bytes from) of (buff, packet_length) \<Rightarrow>
      rbind (deserialize_utcp_packet buff packet_length) (\<lambda>(hdr, data).
      case find_tcb utcp_fd_table hdr (dg_ip from) of
        None \<Rightarrow> Inl Null_deref
      | Some i \<Rightarrow>
          (case utcp_fd_table ! i of
             None \<Rightarrow> Inl Null_deref
           | Some tcb \<Rightarrow>
               rbind (input_segment env from buff hdr data (tcb, w)) (\<lambda>(tcb, w).
               Inr (buff, utcp_fd_table[i := Some tcb], w)))))"

section \<open>Acknowledgements keep the send invariant\<close>

lemma snd_invD:
  assumes "snd_inv S t"
  shows "iss t = 0" and "length (send_buf t) = SEND_BUF_SIZE" and "unat (send_buf_head t) = seq_pos t (snd_una t)"
    and "seq_pos t (snd_una t) \<le> seq_pos t (snd_nxt t)" and "seq_pos t (snd_nxt t) \<le> seq_pos t (snd_max t)"
    and "seq_pos t (snd_max t) \<le> snd_written t" and "snd_written t - seq_pos t (snd_una t) \<le> SEND_BUF_SIZE"
    and "snd_written t < 2147483647"
    and "ring_contents (send_buf t) (send_buf_head t) (send_buf_tail t) =
       sub_stream S (seq_pos t (snd_una t)) (snd_written t - seq_pos t (snd_una t))"
  using assms unfolding snd_inv_def by blast+

lemma seq_pos_diff: "unat (a - b) = seq_pos t a - seq_pos t b" if "seq_pos t b \<le> seq_pos t a"
proof -
  have "b - iss t - 1 \<le> a - iss t - 1" using that by (simp add: seq_pos_def word_le_nat_alt)
  from unat_sub_le32 [OF this] show ?thesis by (simp add: seq_pos_def)
qed

text \<open>An acknowledgement number that passes the two tests lies between the first unacknowledged and the highest byte sent.\<close>

lemma ack_position:
  assumes inv: "snd_inv S t" and gt: "SEQ_GT a (snd_una t)" and le: "SEQ_LEQ a (snd_max t)"
  shows "seq_pos t a = seq_pos t (snd_una t) + unat (a - snd_una t)" and "seq_pos t a \<le> seq_pos t (snd_max t)"
    and "0 < unat (a - snd_una t)"
proof -
  note D = snd_invD [OF inv]
  define x where "x = unat (a - snd_una t)"
  have x: "0 < x" "x < 2147483648" using gt by (simp_all add: SEQ_sign x_def)
  define m where "m = unat (snd_max t - snd_una t)"
  have m: "m = seq_pos t (snd_max t) - seq_pos t (snd_una t)" using seq_pos_diff D(4,5) by (simp add: m_def)
  have "x \<le> m"
  proof (rule ccontr)
    assume "\<not> x \<le> m"
    then have "snd_max t - snd_una t \<le> a - snd_una t" by (simp add: word_le_nat_alt x_def m_def)
    from unat_sub_le32 [OF this] have "unat (a - snd_max t) = x - m" by (simp add: x_def m_def)
    then show False using le \<open>\<not> x \<le> m\<close> x by (simp add: SEQ_sign)
  qed
  have "unat ((snd_una t - iss t - 1) + (a - snd_una t)) = unat (snd_una t - iss t - 1) + unat (a - snd_una t)"
    using x D(4,5,6,8) by (intro unat_add_small32) (simp add: x_def [symmetric] seq_pos_def)
  moreover have "(snd_una t - iss t - 1) + (a - snd_una t) = a - iss t - 1" by (simp add: algebra_simps)
  ultimately show p: "seq_pos t a = seq_pos t (snd_una t) + unat (a - snd_una t)" by (simp only: seq_pos_def)
  show "seq_pos t a \<le> seq_pos t (snd_max t)" using \<open>x \<le> m\<close> m D(4,5) by (simp add: p x_def)
  show "0 < unat (a - snd_una t)" using x by (simp add: x_def)
qed

lemma slide_window_stream:
  assumes inv: "snd_inv S t" and gt: "SEQ_GT (th_ack h) (snd_una t)" and le: "SEQ_LEQ (th_ack h) (snd_max t)"
    and step: "slide_window h t = Inr t'"
  shows "snd_inv S t'"
proof -
  note D = snd_invD [OF inv] and P = ack_position [OF inv gt le]
  define a where "a = th_ack h"
  define x where "x = unat (a - snd_una t)"
  define nxt where "nxt = (if SEQ_GT a (snd_nxt t) then a else snd_nxt t)"
  have "SEQ_GT a (snd_nxt t) \<longleftrightarrow> seq_pos t (snd_nxt t) < seq_pos t a"
    using SEQ_at_base(3) [of a "iss t + 1" "snd_nxt t"] P D(5,6,8)
    by (simp add: seq_pos_def a_def [symmetric] diff_diff_eq)
  then have nxt: "seq_pos t nxt = max (seq_pos t a) (seq_pos t (snd_nxt t))" by (auto simp: nxt_def)
  have fields: "snd_una t' = a" "snd_nxt t' = nxt" "snd_max t' = snd_max t" "iss t' = iss t" "send_buf t' = send_buf t"
      "send_buf_tail t' = send_buf_tail t" "send_buf_head t' = send_buf_head t + of_nat x"
    using step by (auto simp: slide_window_def Let_def rbind_eq_Inr nxt_def a_def x_def)
  have pos: "seq_pos t' q = seq_pos t q" "snd_written t' = snd_written t" for q
    by (simp_all add: seq_pos_def snd_written_def fields)
  have buffered: "unat (send_buf_tail t - send_buf_head t) = snd_written t - seq_pos t (snd_una t)"
    using D(3,4,5,6) by (simp add: unat_sub word_le_nat_alt snd_written_def)
  have x: "seq_pos t a = seq_pos t (snd_una t) + x" "seq_pos t a \<le> seq_pos t (snd_max t)"
    using P by (simp_all add: a_def x_def)
  have head: "unat (send_buf_head t + of_nat x) = seq_pos t a"
    using x D(3,6,8) by (subst unat_add_small32) (simp_all add: unat_of_nat32)
  have "length (send_buf t) dvd 4294967296" by (simp add: D(2))
  then have "ring_contents (send_buf t) (send_buf_head t + of_nat x) (send_buf_tail t) =
      sub_stream S (seq_pos t a) (snd_written t - seq_pos t a)"
    using x D(6,9) buffered by (subst ring_drop_contents) (simp_all add: drop_sub_stream diff_diff_eq)
  then show ?thesis
    using D x nxt head unfolding snd_inv_def pos fields by auto
qed

section \<open>Acknowledgements are safe steps\<close>

text \<open>What acknowledgement processing leaves alone.\<close>

definition same_rcv :: "tcb \<Rightarrow> tcb \<Rightarrow> bool" where
  "same_rcv t t' \<longleftrightarrow> irs t' = irs t \<and> rcv_nxt t' = rcv_nxt t \<and> recv_buf t' = recv_buf t \<and>
     recv_buf_head t' = recv_buf_head t \<and> recv_buf_tail t' = recv_buf_tail t \<and> ooo_head t' = ooo_head t \<and>
     ooo_bytes t' = ooo_bytes t \<and> rcv_scale t' = rcv_scale t \<and> send_buf t' = send_buf t \<and>
     send_buf_tail t' = send_buf_tail t \<and> cc_ops t' = cc_ops t"

lemma same_rcv_refl [simp]: "same_rcv t t"
  by (simp add: same_rcv_def)

lemma same_rcv_trans: "same_rcv a b \<Longrightarrow> same_rcv b c \<Longrightarrow> same_rcv a c"
  by (simp add: same_rcv_def)

lemma same_rcv_nxt: "same_rcv t t' \<Longrightarrow> rcv_nxt t' = rcv_nxt t"
  by (simp add: same_rcv_def)

lemma same_conn_rcv: "same_conn t t' \<Longrightarrow> same_rcv t t'"
  by (simp add: same_conn_def same_rcv_def)

lemma same_rcv_can_send: "same_rcv t t' \<Longrightarrow> can_send t' = can_send t"
  by (simp add: same_rcv_def can_send_def)

lemma same_rcv_inv: "same_rcv t t' \<Longrightarrow> rcv_inv R N t' = rcv_inv R N t"
  by (simp add: same_rcv_def rcv_inv_def rcv_used_def)

lemma safe_step_mono: "safe_step R env t w m \<Longrightarrow> (\<And>t'. R t t' \<Longrightarrow> R' t t') \<Longrightarrow> safe_step R' env t w m"
  by (auto simp: safe_step_def ensures_def)

lemmas safe_step_rcv = safe_step_mono [OF _ same_conn_rcv]

lemma safe_step_inv:
  assumes "R t t'" and "state t' = state t" and "iss t' = iss t" and "sent w' = sent w" and "\<And>S. snd_inv S t \<Longrightarrow> snd_inv S t'"
  shows "safe_step R env t w (Inr (t', w'))"
proof -
  have "appended w w' = []" using assms(4) by (simp add: appended_def)
  then show ?thesis using assms by (auto simp: safe_step_def grows_def)
qed

lemma safe_step_then:
  assumes "safe_step R env t w (Inr (t1, w1))" and "safe_step Q env t1 w1 m"
    and "\<And>t'. R t t' \<Longrightarrow> rcv_nxt t' = rcv_nxt t" and "\<And>b c. R t b \<Longrightarrow> Q b c \<Longrightarrow> P t c"
  shows "safe_step P env t w m"
  using safe_step_seq [OF assms(1), of Q "\<lambda>_. m"] assms(2-4) by auto

lemma same_but_options_simps:
  assumes "same_but_options t t'"
  shows "state t' = state t" "iss t' = iss t" "irs t' = irs t" "snd_una t' = snd_una t" "snd_nxt t' = snd_nxt t"
    "snd_max t' = snd_max t" "send_buf t' = send_buf t" "send_buf_head t' = send_buf_head t"
    "send_buf_tail t' = send_buf_tail t" "recv_buf t' = recv_buf t" "recv_buf_head t' = recv_buf_head t"
    "recv_buf_tail t' = recv_buf_tail t" "ooo_head t' = ooo_head t" "ooo_bytes t' = ooo_bytes t"
    "rcv_nxt t' = rcv_nxt t" "rcv_scale t' = rcv_scale t" "cc_ops t' = cc_ops t" "ssthresh t' = ssthresh t"
    "t_rxtshift t' = t_rxtshift t" "t_flags t' = t_flags t" "t_dupacks t' = t_dupacks t"
    "t_srtt t' = t_srtt t" "t_rttvar t' = t_rttvar t" "t_rxtcur t' = t_rxtcur t"
  by (insert assms, unfold same_but_options_def) (erule ssubst, simp)+

lemma safe_step_options: "same_but_options t t' \<Longrightarrow> safe_step same_rcv env t w (Inr (t', w))"
  by (rule safe_step_pure) (simp_all add: same_but_options_simps same_rcv_def)

text \<open>The estimator and the timer touch nothing that matters here.\<close>

definition same_but_rtt :: "tcb \<Rightarrow> tcb \<Rightarrow> bool" where
  "same_but_rtt t t' \<longleftrightarrow>
     t' = t\<lparr>t_srtt := t_srtt t', t_rttvar := t_rttvar t', t_rxtcur := t_rxtcur t', min_rtt_seen_us := min_rtt_seen_us t',
           t_rtt := t_rtt t', t_timer := t_timer t', t_rxtshift := t_rxtshift t'\<rparr>"

lemma same_but_rtt_simps:
  assumes "same_but_rtt t t'"
  shows "state t' = state t" "iss t' = iss t" "irs t' = irs t" "snd_una t' = snd_una t" "snd_nxt t' = snd_nxt t"
    "snd_max t' = snd_max t" "send_buf t' = send_buf t" "send_buf_head t' = send_buf_head t"
    "send_buf_tail t' = send_buf_tail t" "recv_buf t' = recv_buf t" "recv_buf_head t' = recv_buf_head t"
    "recv_buf_tail t' = recv_buf_tail t" "ooo_head t' = ooo_head t" "ooo_bytes t' = ooo_bytes t"
    "rcv_nxt t' = rcv_nxt t" "rcv_scale t' = rcv_scale t" "cc_ops t' = cc_ops t" "ssthresh t' = ssthresh t"
    "snd_wnd t' = snd_wnd t"
  by (insert assms, unfold same_but_rtt_def) (erule ssubst, simp)+

lemma xmit_timer_frame: "same_but_rtt t ((utcp_xmit_timer rtt t)\<lparr>t_rtt := k\<rparr>)"
  by (simp add: same_but_rtt_def utcp_xmit_timer_def Let_def)

lemma measure_rtt_frame:
  "ensures (measure_rtt env buff hdr (t, w)) (\<lambda>(rtt, t', w'). same_but_rtt t t' \<and> sent w' = sent w)"
proof -
  have "same_but_rtt t t" by (simp add: same_but_rtt_def)
  then show ?thesis
    by (auto simp: measure_rtt_def ensures_def rbind_eq_Inr xmit_timer_frame Let_def
        dest!: utcp_get_time_us_frame split: option.splits if_splits)
qed

lemma rearm_rexmt_frame: "ensures (rearm_rexmt t) (same_but_rtt t)"
  by (auto simp: rearm_rexmt_def ensures_def rbind_eq_Inr same_but_rtt_def split: if_splits)

lemma safe_step_rtt: "same_but_rtt t t' \<Longrightarrow> sent w' = sent w \<Longrightarrow> safe_step same_rcv env t w (Inr (t', w'))"
  by (rule safe_step_pure) (simp_all add: same_but_rtt_simps same_rcv_def)

text \<open>The congestion event and its log entry.\<close>

lemma safe_step_event:
  "safe_step same_rcv env t w (rbind (cong_control ops env ev (t, w)) (\<lambda>(t', w'). log_lstm_event env t' rtt acked dup to w'))"
  by (rule safe_step_rcv, rule safe_step_rbind [OF safe_step_cong_control _ same_conn_trans same_conn_nxt]) (simp_all add: safe_step_log)

lemma safe_rcv_then:
  "safe_step same_rcv env t w (Inr (t1, w1)) \<Longrightarrow> safe_step same_rcv env t1 w1 m \<Longrightarrow> safe_step same_rcv env t w m"
  by (rule safe_step_then [where R = same_rcv and Q = same_rcv]) (auto intro: same_rcv_trans same_rcv_nxt)

lemma slide_window_frame:
  "slide_window h t = Inr t' \<Longrightarrow> same_rcv t t' \<and> state t' = state t \<and> iss t' = iss t"
  by (auto simp: slide_window_def Let_def rbind_eq_Inr same_rcv_def)

lemma safe_step_new_ack:
  assumes "SEQ_GT (th_ack h) (snd_una t)" and "SEQ_LEQ (th_ack h) (snd_max t)"
  shows "safe_step same_rcv env t w (handle_new_ack env buff h (t, w))"
proof -
  have tail: "safe_step same_rcv env t w (rbind (cong_control (cc_ops t3) env ev (t3, w2)) (\<lambda>(t', w'). log_lstm_event env t' rtt acked False False w'))"
    if 1: "slide_window h t = Inr t1" and 2: "measure_rtt env buff h (t1, cond_broadcast w) = Inr (rtt, t2, w2)"
      and 3: "rearm_rexmt t2 = Inr t3" for t1 t2 t3 w2 rtt ev acked
  proof -
    have a: "safe_step same_rcv env t w (Inr (t1, w))"
      using slide_window_frame [OF 1] slide_window_stream [OF _ assms 1] by (intro safe_step_inv) simp_all
    have b: "safe_step same_rcv env t1 w (Inr (t2, w2))"
      using measure_rtt_frame [of env buff h t1 "cond_broadcast w"] 2
      by (intro safe_step_rtt) (simp_all add: cond_broadcast_def)
    have c: "safe_step same_rcv env t2 w2 (Inr (t3, w2))"
      using rearm_rexmt_frame [of t2] 3 by (intro safe_step_rtt) simp_all
    show ?thesis by (rule safe_rcv_then [OF a safe_rcv_then [OF b safe_rcv_then [OF c safe_step_event]]])
  qed
  show ?thesis
  proof (cases "handle_new_ack env buff h (t, w)")
    case (Inl e)
    then show ?thesis by (simp add: safe_step_def)
  next
    case (Inr x)
    then obtain t1 rtt t2 w2 t3 where "slide_window h t = Inr t1"
      "measure_rtt env buff h (t1, cond_broadcast w) = Inr (rtt, t2, w2)" "rearm_rexmt t2 = Inr t3"
      by (auto simp: handle_new_ack_def rbind_eq_Inr Let_def)
    note steps = this
    show ?thesis
      using tail [OF steps] by (simp add: handle_new_ack_def steps Let_def)
  qed
qed

lemma safe_step_dup_ack: "safe_step same_rcv env t w (handle_dup_ack env h n (t, w))"
proof (cases "GET_SCALED_WIN t h")
  case (Inl e)
  then show ?thesis by (simp add: handle_dup_ack_def safe_step_def)
next
  case (Inr win)
  let ?t1 = "t\<lparr>snd_wnd := win\<rparr>"
  let ?t2 = "if t_dupacks t < 255 then ?t1\<lparr>t_dupacks := t_dupacks t + 1\<rparr> else ?t1"
  have upd: "safe_step same_rcv env t w (Inr (?t1, cond_broadcast w))" "safe_step same_rcv env t w (Inr (t, w))"
    "safe_step same_rcv env t w (Inr (?t2, w))"
    by (intro safe_step_pure; simp add: same_rcv_def cond_broadcast_def)+
  note ev = safe_rcv_then [OF upd(3) safe_step_event, of "cc_ops t" "TCP_CC_EVENT_DUP_ACK (ucast (t_dupacks ?t2))"
      0 0 True False]
  show ?thesis
    using upd(1,2) ev by (cases "t_dupacks t < 255") (auto simp: handle_dup_ack_def Inr Let_def)
qed

lemma safe_step_ack: "safe_step same_rcv env t w (handle_ack env buff h n (t, w))"
  by (auto simp: handle_ack_def safe_step_new_ack safe_step_dup_ack intro: safe_step_pure)

section \<open>Data processing is safe for the sender\<close>

text \<open>The sending half of the block, which data processing does not touch.\<close>

definition same_snd :: "tcb \<Rightarrow> tcb \<Rightarrow> bool" where
  "same_snd t t' \<longleftrightarrow> state t' = state t \<and> iss t' = iss t \<and> send_buf t' = send_buf t \<and> send_buf_head t' = send_buf_head t \<and>
     send_buf_tail t' = send_buf_tail t \<and> snd_una t' = snd_una t \<and> snd_max t' = snd_max t \<and> snd_nxt t' = snd_nxt t \<and>
     rcv_scale t' = rcv_scale t \<and> cc_ops t' = cc_ops t \<and> irs t' = irs t \<and> recv_buf_head t' = recv_buf_head t \<and>
     length (recv_buf t') = length (recv_buf t)"

text \<open>What is left after the output routine has followed.\<close>

definition same_acct :: "tcb \<Rightarrow> tcb \<Rightarrow> bool" where
  "same_acct t t' \<longleftrightarrow> snd_una t' = snd_una t \<and> irs t' = irs t \<and> send_buf t' = send_buf t \<and> send_buf_tail t' = send_buf_tail t \<and>
     rcv_scale t' = rcv_scale t \<and> cc_ops t' = cc_ops t \<and> recv_buf_head t' = recv_buf_head t \<and>
     length (recv_buf t') = length (recv_buf t)"

lemma same_snd_trans: "same_snd a b \<Longrightarrow> same_snd b c \<Longrightarrow> same_snd a c"
  by (simp add: same_snd_def)

lemma safe_step_output_after:
  assumes "same_snd t t1" and "sent w1 = sent w"
  shows "safe_step same_acct env t w (call_output env (t1, w1))"
proof -
  have "snd_inv S t1 = snd_inv S t" for S
    using assms(1) by (simp add: same_snd_def snd_inv_def seq_pos_def snd_written_def)
  moreover have "appended w x = appended w1 x" "grows w x = grows w1 x" for x
    using assms(2) by (simp_all add: appended_def grows_def)
  moreover have "acks_either t1 t' d \<Longrightarrow> acks_either t t' d" if "same_conn t1 t'" for t' d
    using that by (auto simp: acks_either_def same_conn_def)
  ultimately show ?thesis
    using safe_step_call_output [of env t1 w1] assms(1)
    by (fastforce simp: safe_step_def ensures_def same_snd_def same_conn_def same_acct_def)
qed

lemma ack_policy_frame:
  "same_snd t (ack_policy g t)" "same_rcv t (ack_policy g t)"
  by (simp_all add: ack_policy_def same_snd_def same_rcv_def)

lemma length_ring_buf_write: "ring_buf_write ring sz off src n = Inr ring' \<Longrightarrow> length ring' = length ring"
  by (auto simp: ring_buf_write_def Let_def rbind_eq_Inr dest!: length_mem_write split: if_splits)

lemma drain_frame: "ensures (drain_ooo_queue t) (\<lambda>t'. same_but_drain t t' \<and> length (recv_buf t') = length (recv_buf t))"
proof (induction "length (ooo_head t)" arbitrary: t rule: less_induct)
  case less
  show ?case
  proof (cases "ooo_head t")
    case Nil
    then show ?thesis by (subst drain_ooo_queue.simps) simp
  next
    case (Cons e es)
    obtain e' t1 where th: "trim_head e es t = (e', t1)" by fastforce
    have same: "same_but_drain t t1" "recv_buf t1 = recv_buf t" and len: "length (ooo_head t1) = length (ooo_head t)"
      using th Cons by (auto simp: trim_head_def same_but_drain_def Let_def split: if_splits)
    have rec: "ensures (drain_ooo_queue t2) (\<lambda>t'. same_but_drain t t' \<and> length (recv_buf t') = length (recv_buf t))"
      if "same_but_drain t t2" "length (ooo_head t2) < length (ooo_head t)" "length (recv_buf t2) = length (recv_buf t)" for t2
      using less [OF that(2)] same_but_drain_trans [OF that(1)] that(3) by (auto elim: ensures_mono)
    have two: "same_but_drain t (t1\<lparr>recv_buf := b, recv_buf_tail := x, rcv_nxt := y, ooo_bytes := z, ooo_head := es\<rparr>)" for b x y z
      by (rule same_but_drain_trans [OF same(1)]) (simp add: same_but_drain_def)
    have "ensures (ring_buf_write (recv_buf t) sz off src n) (\<lambda>b. length b = length (recv_buf t))" for sz off src n
      by (auto simp: ensures_def length_ring_buf_write)
    then show ?thesis
      using Cons th same
      by (subst drain_ooo_queue.simps)
        (auto simp: Let_def same_but_drain_def [of t "t\<lparr>ooo_bytes := _, ooo_head := _\<rparr>"]
          intro!: rec two ensures_rbind [where Q = "\<lambda>b. length b = length (recv_buf t)"])
  qed
qed

lemma accept_in_order_frame:
  "ensures (accept_in_order data (t, w)) (\<lambda>(t', w'). same_snd t t' \<and> sent w' = sent w)"
proof -
  have "same_snd t (ack_policy g t2)"
    if "same_but_drain (t\<lparr>recv_buf := b, recv_buf_tail := x, rcv_nxt := y\<rparr>) t2" "length (recv_buf t2) = length b"
      "length b = length (recv_buf t)" for b x y g t2
    using same_snd_trans [OF _ ack_policy_frame(1), of t t2 g] same_but_drain_simps [OF that(1)] that(2,3) by (simp add: same_snd_def)
  then show ?thesis
    using drain_frame length_ring_buf_write
    by (fastforce simp: accept_in_order_def ensures_def rbind_eq_Inr Let_def cond_broadcast_def)
qed

lemma insert_ooo_frame:
  assumes "insert_ooo_segment env t seq data w = (t', w')"
  shows "same_snd t t' \<and> sent w' = sent w"
  using assms
  by (auto simp: insert_ooo_segment_def Let_def try_malloc_def same_snd_def split: prod.splits option.splits if_splits)

lemma safe_step_place_data: "safe_step same_acct env t w (place_data env seq data (t, w))"
proof (cases "seq = rcv_nxt t")
  case True
  have "safe_step same_acct env t w (rbind (accept_in_order data (t, w)) (call_output env))"
  proof (cases "accept_in_order data (t, w)")
    case (Inl e)
    then show ?thesis by (simp add: safe_step_def)
  next
    case (Inr x)
    then show ?thesis
      using accept_in_order_frame [of data t w] safe_step_output_after [of t "fst x" "snd x" w env]
      by (simp add: split_beta)
  qed
  then show ?thesis using True by (auto simp: place_data_def Let_def same_acct_def intro: safe_step_pure)
next
  case False
  obtain t1 w1 where ins: "insert_ooo_segment env t seq data w = (t1, w1)" by fastforce
  have "safe_step same_acct env t w (call_output env (t1\<lparr>t_flags := set_flag (t_flags t1) TF_ACKNOW\<rparr>, w1))"
    using insert_ooo_frame [OF ins] by (intro safe_step_output_after) (simp_all add: same_snd_def)
  then show ?thesis using False by (simp add: place_data_def ins)
qed

lemma safe_step_data: "safe_step same_acct env t w (handle_data env seq data (t, w))"
proof -
  have "safe_step same_acct env t w (call_output env (t, w))"
    "safe_step same_acct env t w (call_output env (t\<lparr>t_flags := f\<rparr>, w))" for f
    by (intro safe_step_output_after; simp add: same_snd_def)+
  then show ?thesis by (simp add: handle_data_def safe_step_place_data Let_def)
qed

end
