(* ===== verification/Receiver.thy ===== *)
theory Receiver
  imports Input
begin

text \<open>
  What the receiving side guarantees: whatever segments of the peer's stream arrive, in whatever
  order, overlapping, repeated or with losses, the receive buffer holds an exact run of the stream
  and the edge only moves forward; an in-order segment with room is taken in whole.
\<close>

section \<open>Data processing keeps the receive invariant\<close>

lemma call_output_rcv:
  assumes "rcv_inv R N t"
  shows "ensures (call_output env (t, w)) (\<lambda>(t', w'). rcv_inv R N t')"
proof -
  have "ensures (call_output env (t, w)) (\<lambda>(t', w'). same_rcv t t')"
    using safe_step_call_output [of env t w] by (auto simp: safe_step_def same_conn_rcv elim: ensures_mono)
  then show ?thesis
    by (rule ensures_mono) (use assms same_rcv_inv in auto)
qed

lemma rcv_inv_flags [simp]: "rcv_inv R N (t\<lparr>t_flags := f\<rparr>) = rcv_inv R N t"
  by (rule same_rcv_inv) (simp add: same_rcv_def)

lemma accept_in_order_rcv:
  assumes inv: "rcv_inv R N t" and n: "n \<le> RECV_BUF_SIZE - rcv_used t - queue_bytes (ooo_head t)"
  shows "returns (accept_in_order (sub_stream R N n) (t, w)) (\<lambda>(t', w'). \<exists>N' \<ge> N + n. N' < N + 2147483648 \<and> rcv_inv R N' t')"
proof -
  from rcv_pre_accept [OF inv n] obtain buf where
    wr: "ring_buf_write (recv_buf t) 1048576 (recv_buf_tail t) (sub_stream R N n) n = Inr buf"
    and pre: "rcv_pre R N (rcv_nxt t) n (t\<lparr>recv_buf := buf, recv_buf_tail := recv_buf_tail t + of_nat n,
       rcv_nxt := rcv_nxt t + of_nat n\<rparr>)" (is "rcv_pre R N _ n ?t1") .
  from drain_ooo_queue_drained [OF pre] obtain t2 where dr: "drain_ooo_queue ?t1 = Inr t2"
    and "drained R N (rcv_nxt t) n ?t1 t2" by (auto simp: returns_def)
  then obtain d where d: "n \<le> d" "rcv_pre R N (rcv_nxt t) d t2" "queue_ok R N (rcv_nxt t) (Suc d) (ooo_head t2)"
    "same_but_drain ?t1 t2" by (auto simp: drained_def)
  have "rcv_inv R (N + d) t2"
    using rcv_inv_of_pre [OF d(2,3)] rcv_invD(1) [OF inv] same_but_drain_simps [OF d(4)] by simp
  then have "rcv_inv R (N + d) (ack_policy g t2)" for g
    using same_rcv_inv [OF ack_policy_frame(2)] by simp
  then show ?thesis
    using d(1) rcv_preD(2) [OF d(2)] by (auto simp: accept_in_order_def wr dr Let_def intro!: exI [of _ "N + d"])
qed

text \<open>A segment of the stream at distance \<open>k\<close> from the edge.\<close>

lemma place_data_rcv:
  assumes inv: "rcv_inv R N t" and n: "0 < n" and k: "k + n < 2147483648"
  shows "ensures (place_data env (rcv_nxt t + of_nat k) (sub_stream R (N + k) n) (t, w))
     (\<lambda>(t', w'). \<exists>N' \<ge> N. N' < N + 2147483648 \<and> rcv_inv R N' t' \<and>
        (k = 0 \<and> n \<le> RECV_BUF_SIZE - rcv_used t - queue_bytes (ooo_head t) \<longrightarrow> N + n \<le> N'))"
proof (cases "k = 0")
  case True
  note room = rcv_available [OF inv]
  have "ensures (rbind (accept_in_order (sub_stream R N n) (t, w)) (call_output env)) (\<lambda>(t', w'). \<exists>N' \<ge> N. N' < N + 2147483648 \<and> rcv_inv R N' t' \<and> N + n \<le> N')"
    if "n \<le> RECV_BUF_SIZE - rcv_used t - queue_bytes (ooo_head t)"
  proof -
    from accept_in_order_rcv [OF inv that, of w] obtain t1 w1 N1 where
      acc: "accept_in_order (sub_stream R N n) (t, w) = Inr (t1, w1)" and N1: "N + n \<le> N1" "rcv_inv R N1 t1" "N1 < N + 2147483648"
      by (auto simp: returns_def)
    show ?thesis
      unfolding acc rbind_simps using N1(1,3) by (intro ensures_mono [OF call_output_rcv [OF N1(2)]]) (auto intro: exI [of _ N1])
  qed
  then show ?thesis
    using True room inv by (auto simp: place_data_def Let_def)
next
  case False
  then have "rcv_nxt t + of_nat k \<noteq> rcv_nxt t"
    using k unat_of_nat32 [of k] by auto
  obtain t1 w1 where ins: "insert_ooo_segment env t (rcv_nxt t + of_nat k) (sub_stream R (N + k) n) w = (t1, w1)"
    by fastforce
  have "rcv_inv R N t1" using insert_ooo_ok(1) [OF inv _ k n ins] False by simp
  then have "rcv_inv R N (t1\<lparr>t_flags := f\<rparr>)" for f by simp
  then show ?thesis
    using call_output_rcv False \<open>rcv_nxt t + of_nat k \<noteq> rcv_nxt t\<close>
    by (fastforce simp: place_data_def ins ensures_def)
qed

text \<open>
  A segment that carries the stream from position \<open>p\<close> on, within 2 GiB of the edge, or no data.
\<close>

definition stream_segment :: "(nat \<Rightarrow> u8) \<Rightarrow> nat \<Rightarrow> tcb \<Rightarrow> nat \<Rightarrow> u32 \<Rightarrow> u8 list \<Rightarrow> bool" where
  "stream_segment R N t p seq data \<longleftrightarrow> data \<noteq> [] \<longrightarrow> seq = irs t + 1 + of_nat p \<and> data = sub_stream R p (length data) \<and>
     p + length data < N + 2147483648 \<and> N < p + 2147483648"
text \<open>A segment that starts before the edge: what is old is cut off, or all of it is old.\<close>

lemma handle_overlap_rcv:
  assumes inv: "rcv_inv R N t" and seg: "stream_segment R N t p seq data" and ne: "data \<noteq> []" and old: "p < N"
  shows "ensures (handle_data env seq data (t, w)) (\<lambda>(t', w'). \<exists>N' \<ge> N. N' < N + 2147483648 \<and> rcv_inv R N' t' \<and>
     (length data \<le> RECV_BUF_SIZE - rcv_used t - queue_bytes (ooo_head t) \<longrightarrow> p + length data \<le> N'))"
proof -
  define n where "n = length data"
  note nxt = rcv_invD(1) [OF inv]
  have s: "seq = irs t + 1 + of_nat p" and data: "data = sub_stream R p n" and b: "p + n < N + 2147483648" "N < p + 2147483648"
    using seg ne by (simp_all add: stream_segment_def n_def)
  have lt: "SEQ_LT seq (rcv_nxt t)" using SEQ_offsets(1) [of p N "irs t + 1"] b old by (simp add: s nxt)
  have "rcv_nxt t - seq = of_nat (N - p)" using old by (simp add: s nxt of_nat_diff)
  moreover have "unat (of_nat (N - p) :: u32) = N - p" using b by (intro unat_of_nat32) simp
  ultimately have dup: "unat (rcv_nxt t - seq) = N - p" "seq + (rcv_nxt t - seq) = rcv_nxt t" by (simp, simp add: algebra_simps)
  show ?thesis
  proof (cases "N - p \<ge> n")
    case True
    have "rcv_inv R N (t\<lparr>t_flags := f\<rparr>)" for f using inv by simp
    from call_output_rcv [OF this] show ?thesis
      using lt ne dup True old by (fastforce simp: handle_data_def ensures_def n_def [symmetric])
  next
    case False
    have "drop (N - p) data = sub_stream R (N + 0) (n - (N - p))" using False old by (simp add: data drop_sub_stream)
    moreover have "ensures (place_data env (rcv_nxt t + of_nat 0) (sub_stream R (N + 0) (n - (N - p))) (t, w))
       (\<lambda>(t', w'). \<exists>N' \<ge> N. N' < N + 2147483648 \<and> rcv_inv R N' t' \<and> (n \<le> RECV_BUF_SIZE - rcv_used t - queue_bytes (ooo_head t) \<longrightarrow> p + n \<le> N'))"
      using False old b by (intro ensures_mono [OF place_data_rcv [OF inv]]) fastforce+
    ultimately show ?thesis using lt ne dup False by (simp add: handle_data_def Let_def n_def [symmetric])
  qed
qed

lemma handle_data_rcv:
  assumes inv: "rcv_inv R N t" and seg: "stream_segment R N t p seq data"
  shows "ensures (handle_data env seq data (t, w)) (\<lambda>(t', w'). \<exists>N' \<ge> N. N' < N + 2147483648 \<and> rcv_inv R N' t' \<and>
     (p \<le> N \<and> length data \<le> RECV_BUF_SIZE - rcv_used t - queue_bytes (ooo_head t) \<longrightarrow> p + length data \<le> N'))"
proof -
  consider (empty) "data = []" | (old) "data \<noteq> []" "p < N" | (new) "data \<noteq> []" "\<not> p < N" by blast
  then show ?thesis
  proof cases
    case empty
    then show ?thesis using call_output_rcv [OF inv, of env w] by (fastforce simp: handle_data_def ensures_def)
  next
    case old
    then show ?thesis using ensures_mono [OF handle_overlap_rcv [OF inv seg old]] by fastforce
  next
    case new
    define n where "n = length data"
    have s: "seq = irs t + 1 + of_nat p" and data: "data = sub_stream R p n" and b: "p + n < N + 2147483648" "N < p + 2147483648"
      using seg new(1) by (simp_all add: stream_segment_def n_def)
    have lt: "\<not> SEQ_LT seq (rcv_nxt t)" using SEQ_offsets(1) [of p N "irs t + 1"] b new(2) by (simp add: s rcv_invD(1) [OF inv])
    have seq: "seq = rcv_nxt t + of_nat (p - N)" using new(2) by (simp add: s rcv_invD(1) [OF inv] of_nat_diff)
    have "data = sub_stream R (N + (p - N)) n" using new(2) data by simp
    moreover have "n \<noteq> 0" using new(1) by (simp add: n_def)
    ultimately show ?thesis
      using place_data_rcv [OF inv, of n "p - N" env w] b new lt by (auto simp: handle_data_def seq n_def [symmetric] elim!: ensures_mono)
  qed
qed

section \<open>Whole segments\<close>

lemma options_rcv:
  assumes "length buff = 1500"
  obtains t1 where "process_window_option buff h t = Inr t1" and "same_but_options t t1" and "same_rcv t t1"
    and "safe_step same_rcv env t w (Inr (t1, w))"
proof -
  from process_window_option_returns [OF assms, of h t] obtain t1 where
    "process_window_option buff h t = Inr t1" and o: "same_but_options t t1" by (auto simp: returns_def)
  moreover have "same_rcv t t1" using o by (simp add: same_rcv_def same_but_options_simps)
  ultimately show thesis using safe_step_options [OF o] that by simp
qed

text \<open>What a whole segment leaves alone.\<close>

definition same_seg :: "tcb \<Rightarrow> tcb \<Rightarrow> bool" where
  "same_seg t t' \<longleftrightarrow> irs t' = irs t \<and> send_buf t' = send_buf t \<and> send_buf_tail t' = send_buf_tail t \<and>
     rcv_scale t' = rcv_scale t \<and> cc_ops t' = cc_ops t \<and> recv_buf_head t' = recv_buf_head t \<and>
     length (recv_buf t') = length (recv_buf t)"

lemma same_seg_parts: "same_rcv t t' \<Longrightarrow> same_seg t t'" "same_acct t t' \<Longrightarrow> same_seg t t'"
  by (simp_all add: same_seg_def same_rcv_def same_acct_def)

lemma same_seg_trans: "same_seg a b \<Longrightarrow> same_seg b c \<Longrightarrow> same_seg a c"
  by (simp add: same_seg_def)

lemma safe_step_received:
  assumes "length buff = 1500"
  shows "safe_step same_seg env t w (handle_received_data env buff h data (t, w))"
proof -
  from options_rcv [OF assms, of h t env w] obtain t1 where
    opt: "process_window_option buff h t = Inr t1" and st: "safe_step same_rcv env t w (Inr (t1, w))" by metis
  have "safe_step same_seg env t1 w (rbind (handle_ack env buff h (length data) (t1, w)) (handle_data env (th_seq h) data))"
    by (rule safe_step_seq [OF safe_step_ack, where Q = same_acct])
      (auto intro: safe_step_data same_rcv_nxt same_seg_trans same_seg_parts)
  then have "safe_step same_seg env t w (rbind (handle_ack env buff h (length data) (t1, w)) (handle_data env (th_seq h) data))"
    by (rule safe_step_then [OF st]) (auto intro: same_rcv_nxt same_seg_trans [OF same_seg_parts(1)])
  then show ?thesis by (simp add: handle_received_data_def opt)
qed

text \<open>The first unacknowledged byte moves only to an acknowledgement number within the bytes sent.\<close>

definition una_moves :: "tcphdr \<Rightarrow> tcb \<Rightarrow> tcb \<Rightarrow> bool" where
  "una_moves h t t' \<longleftrightarrow> snd_una t' = snd_una t \<or>
     SEQ_GT (th_ack h) (snd_una t) \<and> SEQ_LEQ (th_ack h) (snd_max t) \<and> snd_una t' = th_ack h"

lemma event_una:
  "ensures (rbind (cong_control ops env ev (t, w)) (\<lambda>(t', w'). log_lstm_event env t' rtt acked dup to w'))
    (\<lambda>(t', w'). snd_una t' = snd_una t \<and> wakeups w' = wakeups w)"
proof (rule ensures_rbind [where Q = "\<lambda>(t', w'). snd_una t' = snd_una t \<and> wakeups w' = wakeups w"])
  have "wakeups w' = wakeups w" if "cc_world w w'" for w'
    using that unfolding cc_world_def by (metis (no_types, lifting) world.select_convs(4) world.surjective world.update_convs(1,2,3,11))
  then show "ensures (cong_control ops env ev (t, w)) (\<lambda>(t', w'). snd_una t' = snd_una t \<and> wakeups w' = wakeups w)"
    using cc.frame [of ops env ev t w] by (auto simp: same_but_cc_simps elim: ensures_mono)
  show "ensures (case x of (t', w') \<Rightarrow> log_lstm_event env t' rtt acked dup to w') (\<lambda>(t', w'). snd_una t' = snd_una t \<and> wakeups w' = wakeups w)"
    if "case x of (t', w') \<Rightarrow> snd_una t' = snd_una t \<and> wakeups w' = wakeups w" for x
    using log_lstm_event_frame [of env "fst x" rtt acked dup to "snd x"] that
    by (auto simp: split_beta same_but_rows_simps same_but_lstm_simps elim!: ensures_mono)
qed

lemma measure_rtt_wakeups: "measure_rtt env buff h (t, w) = Inr (rtt, t', w') \<Longrightarrow> wakeups w' = wakeups w"
  by (auto simp: measure_rtt_def rbind_eq_Inr Let_def dest!: utcp_get_time_us_frame split: option.splits if_splits)

text \<open>A new acknowledgement moves the first unacknowledged byte to it and wakes the waiting threads once.\<close>

lemma handle_new_ack_una:
  "ensures (handle_new_ack env buff h (t, w)) (\<lambda>(t', w'). snd_una t' = th_ack h \<and> wakeups w' = Suc (wakeups w))"
proof -
  have tail: "ensures (rbind (cong_control (cc_ops t3) env ev (t3, w2)) (\<lambda>(t', w'). log_lstm_event env t' rtt acked False False w'))
      (\<lambda>(t', w'). snd_una t' = th_ack h \<and> wakeups w' = Suc (wakeups w))"
    if 1: "slide_window h t = Inr t1" and 2: "measure_rtt env buff h (t1, cond_broadcast w) = Inr (rtt, t2, w2)"
      and 3: "rearm_rexmt t2 = Inr t3" for t1 t2 t3 w2 rtt ev acked
  proof -
    have "snd_una t1 = th_ack h" using 1 by (auto simp: slide_window_def Let_def rbind_eq_Inr)
    moreover have "same_but_rtt t1 t2" using measure_rtt_frame [of env buff h t1 "cond_broadcast w"] 2 by simp
    moreover have "same_but_rtt t2 t3" using rearm_rexmt_frame [of t2] 3 by simp
    ultimately have "snd_una t3 = th_ack h" using same_but_rtt_simps(4) by metis
    moreover have "wakeups w2 = Suc (wakeups w)" using measure_rtt_wakeups [OF 2] by (simp add: cond_broadcast_def)
    ultimately show ?thesis using event_una [of "cc_ops t3" env ev t3 w2] by simp
  qed
  show ?thesis
  proof (cases "handle_new_ack env buff h (t, w)")
    case (Inr x)
    then obtain t1 rtt t2 w2 t3 where "slide_window h t = Inr t1"
      "measure_rtt env buff h (t1, cond_broadcast w) = Inr (rtt, t2, w2)" "rearm_rexmt t2 = Inr t3"
      by (auto simp: handle_new_ack_def rbind_eq_Inr Let_def)
    note steps = this
    show ?thesis using tail [OF steps] by (simp add: handle_new_ack_def steps Let_def)
  qed simp
qed

lemma handle_ack_una: "ensures (handle_ack env buff h n (t, w)) (\<lambda>(t', w'). una_moves h t t')"
proof -
  have ev: "ensures (rbind (cong_control ops env e (t2, w)) (\<lambda>(t', w'). log_lstm_event env t' rtt acked dup to w'))
      (\<lambda>(t', w'). snd_una t' = snd_una t)" if "snd_una t2 = snd_una t" for t2 ops e rtt acked dup to
    using that by (intro ensures_mono [OF event_una]) auto
  have "ensures (handle_dup_ack env h n (t, w)) (\<lambda>(t', w'). snd_una t' = snd_una t)"
    by (cases "GET_SCALED_WIN t h") (auto simp: handle_dup_ack_def Let_def intro!: ev)
  with handle_new_ack_una [of env buff h t w] show ?thesis
    by (auto simp: handle_ack_def una_moves_def elim: ensures_mono)
qed

lemma handle_received_una:
  assumes "length buff = 1500"
  shows "ensures (handle_received_data env buff h data (t, w)) (\<lambda>(t', w'). una_moves h t t')"
proof -
  from options_rcv [OF assms, of h t env w] obtain t1 where
    opt: "process_window_option buff h t = Inr t1" and o: "same_but_options t t1" by metis
  have "ensures (rbind (handle_ack env buff h (length data) (t1, w)) (handle_data env (th_seq h) data)) (\<lambda>(t', w'). una_moves h t t')"
  proof (rule ensures_rbind [OF handle_ack_una])
    fix x :: st
    assume "case x of (t2, w2) \<Rightarrow> una_moves h t1 t2"
    then have "una_moves h t (fst x)" using same_but_options_simps [OF o] by (auto simp: una_moves_def)
    then show "ensures (handle_data env (th_seq h) data x) (\<lambda>(t', w'). una_moves h t t')"
      using safe_step_data [of env "fst x" "snd x" "th_seq h" data]
      by (auto simp: safe_step_def same_acct_def una_moves_def elim!: ensures_mono)
  qed
  then show ?thesis by (simp add: handle_received_data_def opt)
qed

lemma handle_received_data_rcv:
  assumes inv: "rcv_inv R N t" and seg: "stream_segment R N t p (th_seq h) data" and buff: "length buff = 1500"
  shows "ensures (handle_received_data env buff h data (t, w)) (\<lambda>(t', w'). \<exists>N' \<ge> N. N' < N + 2147483648 \<and> rcv_inv R N' t' \<and>
     (p \<le> N \<and> length data \<le> RECV_BUF_SIZE - rcv_used t - queue_bytes (ooo_head t) \<longrightarrow> p + length data \<le> N'))"
proof -
  from options_rcv [OF buff, of h t env w] obtain t1 where
    opt: "process_window_option buff h t = Inr t1" and s1: "same_rcv t t1" by metis
  have "ensures (rbind (handle_ack env buff h (length data) (t1, w)) (handle_data env (th_seq h) data)) (\<lambda>(t', w'). \<exists>N' \<ge> N. N' < N + 2147483648 \<and> rcv_inv R N' t' \<and>
     (p \<le> N \<and> length data \<le> RECV_BUF_SIZE - rcv_used t - queue_bytes (ooo_head t) \<longrightarrow> p + length data \<le> N'))"
  proof (rule ensures_rbind [where Q = "\<lambda>(t2, w2). same_rcv t1 t2"])
    show "ensures (handle_ack env buff h (length data) (t1, w)) (\<lambda>(t2, w2). same_rcv t1 t2)"
      using safe_step_ack [of env t1 w buff h "length data"] by (auto simp: safe_step_def elim: ensures_mono)
    fix x :: st
    assume "case x of (t2, w2) \<Rightarrow> same_rcv t1 t2"
    then have s2: "same_rcv t (fst x)" using same_rcv_trans [OF s1] by (auto split: prod.splits)
    have "rcv_inv R N (fst x)" using same_rcv_inv [OF s2] inv by simp
    moreover have "stream_segment R N (fst x) p (th_seq h) data" using s2 seg by (simp add: same_rcv_def stream_segment_def)
    ultimately have "ensures (handle_data env (th_seq h) data (fst x, snd x)) (\<lambda>(t', w'). \<exists>N' \<ge> N. N' < N + 2147483648 \<and> rcv_inv R N' t' \<and>
      (p \<le> N \<and> length data \<le> RECV_BUF_SIZE - rcv_used (fst x) - queue_bytes (ooo_head (fst x)) \<longrightarrow> p + length data \<le> N'))"
      by (rule handle_data_rcv)
    moreover have "rcv_used (fst x) = rcv_used t" "ooo_head (fst x) = ooo_head t"
      using s2 by (simp_all add: same_rcv_def rcv_used_def)
    ultimately show "ensures (handle_data env (th_seq h) data x) (\<lambda>(t', w'). \<exists>N' \<ge> N. N' < N + 2147483648 \<and> rcv_inv R N' t' \<and>
      (p \<le> N \<and> length data \<le> RECV_BUF_SIZE - rcv_used t - queue_bytes (ooo_head t) \<longrightarrow> p + length data \<le> N'))"
      by simp
  qed
  then show ?thesis by (simp add: handle_received_data_def opt)
qed

section \<open>Segments are processed to the end\<close>

lemma GET_SCALED_WIN_returns: "unat (snd_scale t) < 32 \<Longrightarrow> \<exists>x. GET_SCALED_WIN t h = Inr x"
  by (simp add: GET_SCALED_WIN_def)

text \<open>
  The acknowledgement numbers that are looked at, and the windows whose scaling is a shift by 32 bits
  or more, which C leaves undefined.
\<close>

definition ack_counts :: "tcphdr \<Rightarrow> tcb \<Rightarrow> bool" where
  "ack_counts h t \<longleftrightarrow> SEQ_GT (th_ack h) (snd_una t) \<and> SEQ_LEQ (th_ack h) (snd_max t) \<or> th_ack h = snd_una t"

definition shift_undefined :: "tcphdr \<Rightarrow> tcb \<Rightarrow> bool" where
  "shift_undefined h t \<longleftrightarrow> scale_enabled t \<and> \<not> has_flag (th_flags h) TH_SYN \<and> 32 \<le> unat (snd_scale t)"

lemma shift_defined: "unat (snd_scale t) < 32 \<Longrightarrow> \<not> shift_undefined h t"
  by (simp add: shift_undefined_def)

lemma GET_SCALED_WIN_defined: "\<not> shift_undefined h t \<Longrightarrow> \<exists>x. GET_SCALED_WIN t h = Inr x"
  by (auto simp: GET_SCALED_WIN_def shift_undefined_def)

lemma slide_window_returns:
  assumes "\<not> shift_undefined h t"
  shows "returns (slide_window h t) (\<lambda>t'. can_send t' = can_send t \<and> ssthresh t' = ssthresh t \<and> t_rxtshift t' = t_rxtshift t \<and> snd_scale t' = snd_scale t)"
  using assms by (auto simp: slide_window_def Let_def GET_SCALED_WIN_def can_send_def shift_undefined_def)

lemma measure_rtt_returns:
  assumes "good_env env" and "length buff = 1500"
  shows "returns (measure_rtt env buff h (t, w)) (\<lambda>(_, t', _). same_but_rtt t t' \<and> t_rxtshift t' = t_rxtshift t)"
proof -
  obtain ts where ts: "extract_tsecr buff h = Inr ts" using extract_tsecr_returns [OF assms(2), of h] by (auto simp: returns_def)
  obtain now where now: "utcp_get_time_us env w = Inr (now, w\<lparr>clock_reads := Suc (clock_reads w)\<rparr>)"
    using good_env_time [OF assms(1)] by blast
  have "t_rxtshift (utcp_xmit_timer r t) = t_rxtshift t" for r by (simp add: utcp_xmit_timer_def Let_def)
  moreover have "same_but_rtt t t" by (simp add: same_but_rtt_def)
  ultimately show ?thesis
    by (auto simp: measure_rtt_def ts now xmit_timer_frame Let_def split: option.splits)
qed

lemma rearm_rexmt_returns: "unat (t_rxtshift t) \<le> 12 \<Longrightarrow> returns (rearm_rexmt t) (same_but_rtt t)"
  using tcp_backoff_get(1) [of "unat (t_rxtshift t)"] by (auto simp: rearm_rexmt_def same_but_rtt_def)

lemma event_returns:
  assumes "good_env env" and "can_send t" and "ssthresh_floor t"
  shows "returns (rbind (cong_control ops env ev (t, w)) (\<lambda>(t', w'). log_lstm_event env t' rtt acked dup to w')) (\<lambda>_. True)"
  by (rule returns_rbind [OF cc.returns [OF assms]]) (auto simp: log_lstm_event_returns assms(1))

lemma handle_ack_bad_shift:
  assumes "ack_counts h t" and "shift_undefined h t"
  shows "handle_ack env buff h n (t, w) = Inl Bad_shift"
  using assms
  by (auto simp: ack_counts_def shift_undefined_def handle_ack_def handle_new_ack_def handle_dup_ack_def slide_window_def
      GET_SCALED_WIN_def Let_def)

lemma handle_ack_returns:
  assumes env: "good_env env" and buff: "length buff = 1500" and cs: "can_send t" and fl: "ssthresh_floor t"
    and sc: "\<not> (ack_counts h t \<and> shift_undefined h t)" and sh: "unat (t_rxtshift t) \<le> 12"
  shows "returns (handle_ack env buff h n (t, w)) (\<lambda>(t', w'). same_rcv t t')"
proof -
  have new: "returns (handle_new_ack env buff h (t, w)) (\<lambda>_. True)" if sh': "\<not> shift_undefined h t"
  proof -
    from slide_window_returns [OF sh'] obtain t1 where
      1: "slide_window h t = Inr t1" "can_send t1" "ssthresh_floor t1" "t_rxtshift t1 = t_rxtshift t"
      using cs fl by (auto simp: returns_def ssthresh_floor_def)
    from measure_rtt_returns [OF env buff, of h t1 "cond_broadcast w"] obtain r t2 w2 where
      2: "measure_rtt env buff h (t1, cond_broadcast w) = Inr (r, t2, w2)" "same_but_rtt t1 t2" "t_rxtshift t2 = t_rxtshift t1"
      by (auto simp: returns_def)
    from rearm_rexmt_returns [of t2] obtain t3 where 3: "rearm_rexmt t2 = Inr t3" "same_but_rtt t2 t3"
      using sh 1(4) 2(3) by (auto simp: returns_def)
    have "can_send t3" "ssthresh_floor t3"
      using 1(2,3) same_but_rtt_simps [OF 2(2)] same_but_rtt_simps [OF 3(2)] by (simp_all add: can_send_def ssthresh_floor_def)
    from event_returns [OF env this] show ?thesis by (simp add: handle_new_ack_def 1 2 3 Let_def)
  qed
  have dup: "returns (handle_dup_ack env h n (t, w)) (\<lambda>_. True)" if sh': "\<not> shift_undefined h t"
  proof -
    obtain x where x: "GET_SCALED_WIN t h = Inr x" using GET_SCALED_WIN_defined [OF sh'] by blast
    have "can_send (t\<lparr>snd_wnd := x, t_dupacks := k\<rparr>)" "ssthresh_floor (t\<lparr>snd_wnd := x, t_dupacks := k\<rparr>)"
      "can_send (t\<lparr>snd_wnd := x\<rparr>)" "ssthresh_floor (t\<lparr>snd_wnd := x\<rparr>)" for k
      using cs fl by (simp_all add: can_send_def ssthresh_floor_def)
    then show ?thesis by (simp add: handle_dup_ack_def x event_returns [OF env] Let_def)
  qed
  have "returns (handle_ack env buff h n (t, w)) (\<lambda>_. True)"
    using new dup sc by (auto simp: handle_ack_def ack_counts_def)
  moreover have "ensures (handle_ack env buff h n (t, w)) (\<lambda>(t', w'). same_rcv t t')"
    using safe_step_ack [of env t w buff h n] by (auto simp: safe_step_def elim: ensures_mono)
  ultimately show ?thesis by (auto simp: returns_def ensures_def)
qed

lemma place_data_returns:
  assumes env: "good_env env" and cs: "can_send t" and inv: "rcv_inv R N t" and seq: "seq = rcv_nxt t \<Longrightarrow> data = sub_stream R N (length data)"
  shows "returns (place_data env seq data (t, w)) (\<lambda>_. True)"
proof (cases "seq = rcv_nxt t")
  case True
  define n where "n = length data"
  have data: "data = sub_stream R N n" using seq [OF True] by (simp add: n_def)
  have "returns (rbind (accept_in_order data (t, w)) (call_output env)) (\<lambda>_. True)"
    if n: "n \<le> RECV_BUF_SIZE - rcv_used t - queue_bytes (ooo_head t)"
  proof -
    from accept_in_order_rcv [OF inv n, of w] obtain t1 w1 where acc: "accept_in_order data (t, w) = Inr (t1, w1)"
      by (auto simp: returns_def data)
    moreover have "can_send t1" using accept_in_order_frame [of data t w] acc cs by (simp add: same_snd_def can_send_def)
    ultimately show ?thesis using call_output_returns [OF env] by simp
  qed
  then show ?thesis using True rcv_available [OF inv] by (simp add: place_data_def Let_def n_def)
next
  case False
  obtain t1 w1 where ins: "insert_ooo_segment env t seq data w = (t1, w1)" by fastforce
  have "can_send (t1\<lparr>t_flags := f\<rparr>)" for f using insert_ooo_frame [OF ins] cs by (simp add: same_snd_def can_send_def)
  then show ?thesis using False call_output_returns [OF env] by (simp add: place_data_def ins)
qed

lemma handle_data_returns:
  assumes env: "good_env env" and cs: "can_send t" and inv: "rcv_inv R N t" and seg: "stream_segment R N t p seq data"
  shows "returns (handle_data env seq data (t, w)) (\<lambda>_. True)"
proof (cases "data = []")
  case True
  then show ?thesis using call_output_returns [OF env cs] by (simp add: handle_data_def)
next
  case ne: False
  have out: "returns (call_output env (t, w)) (\<lambda>_. True)" "returns (call_output env (t\<lparr>t_flags := f\<rparr>, w)) (\<lambda>_. True)" for f
    using call_output_returns [OF env] cs by (simp_all add: can_send_def)
  have s: "seq = irs t + 1 + of_nat p" and data: "data = sub_stream R p (length data)"
    and b: "p + length data < N + 2147483648" "N < p + 2147483648"
    using seg ne by (simp_all add: stream_segment_def)
  note nxt = rcv_invD(1) [OF inv]
  have dist: "rcv_nxt t - seq = of_nat N - of_nat p" by (simp add: s nxt)
  have lt: "SEQ_LT seq (rcv_nxt t) \<longleftrightarrow> p < N"
    using SEQ_offsets(1) [of p N "irs t + 1"] b by (simp add: s nxt)
  show ?thesis
  proof (cases "p < N")
    case True
    have u: "unat (rcv_nxt t - seq) = N - p"
      using True b dist unat_of_nat32 [of "N - p"] by (simp add: of_nat_diff)
    have "returns (place_data env (seq + (rcv_nxt t - seq)) (drop (N - p) data) (t, w)) (\<lambda>_. True)" if "N - p < length data"
    proof (rule place_data_returns [OF env cs inv])
      show "drop (N - p) data = sub_stream R N (length (drop (N - p) data))"
        using True that drop_sub_stream [of "N - p" "length data" R p] data by simp
    qed
    then show ?thesis using out lt True u by (simp add: handle_data_def Let_def)
  next
    case False
    have "data = sub_stream R N (length data)" if "seq = rcv_nxt t"
    proof -
      have "unat (of_nat (p - N) :: u32) = p - N" using b by (intro unat_of_nat32) simp
      moreover have "of_nat (p - N) = (0 :: u32)" using that dist False by (simp add: of_nat_diff)
      ultimately have "p = N" using False by simp
      then show ?thesis using data by simp
    qed
    then show ?thesis
      using out lt False place_data_returns [OF env cs inv] by (simp add: handle_data_def)
  qed
qed

lemma handle_received_data_returns:
  assumes env: "good_env env" and buff: "length buff = 1500" and cs: "can_send t" and fl: "ssthresh_floor t"
    and sc: "\<And>t1. process_window_option buff h t = Inr t1 \<Longrightarrow> \<not> (ack_counts h t1 \<and> shift_undefined h t1)" and sh: "unat (t_rxtshift t) \<le> 12"
    and inv: "rcv_inv R N t" and seg: "stream_segment R N t p (th_seq h) data"
  shows "returns (handle_received_data env buff h data (t, w)) (\<lambda>_. True)"
proof -
  from options_rcv [OF buff, of h t env w] obtain t1 where
    opt: "process_window_option buff h t = Inr t1" and o: "same_but_options t t1" and s1: "same_rcv t t1" by metis
  note os = same_but_options_simps [OF o]
  have "can_send t1" "ssthresh_floor t1" "unat (t_rxtshift t1) \<le> 12"
    using cs fl sh os by (simp_all add: can_send_def ssthresh_floor_def)
  from handle_ack_returns [OF env buff this(1,2) sc [OF opt] this(3), of "length data" w]
  obtain t2 w2 where ack: "handle_ack env buff h (length data) (t1, w) = Inr (t2, w2)" and s2: "same_rcv t t2"
    using same_rcv_trans [OF s1] by (auto simp: returns_def)
  have "can_send t2" "rcv_inv R N t2" "stream_segment R N t2 p (th_seq h) data"
    using same_rcv_can_send [OF s2] cs same_rcv_inv [OF s2] inv seg s2 by (simp_all add: stream_segment_def same_rcv_def)
  from handle_data_returns [OF env this] show ?thesis by (simp add: handle_received_data_def opt ack)
qed

lemma saturating_inc8: "unat (if x < 255 then x + 1 else x) = min 255 (Suc (unat x))" for x :: u8
proof (cases "x < 255")
  case True
  then have "unat x < 255" by (simp add: word_less_nat_alt)
  then show ?thesis using True by (simp add: unat_word_ariths)
next
  case False
  moreover have "unat x < 256" using unsigned_less [of x, where 'a = nat] by simp
  ultimately show ?thesis by (simp add: word_less_nat_alt)
qed

lemma same_but_output_dupacks: "same_but_output t t' \<Longrightarrow> t_dupacks t' = t_dupacks t"
  unfolding same_but_output_def by (erule ssubst) simp

text \<open>A repeated acknowledgement leaves the count of duplicates to its caller.\<close>

lemma dup_ack_count:
  "ensures (cong_control ops env (TCP_CC_EVENT_DUP_ACK k) (t, w)) (\<lambda>(t', w'). t_dupacks t' = t_dupacks t)"
proof -
  have out: "ensures (call_output env (t1, w1)) (\<lambda>(t', w'). t_dupacks t' = t_dupacks t1)" for t1 w1
    by (rule ensures_mono [OF call_output_frame]) (auto simp: same_but_output_dupacks)
  have re: "ensures (retransmit_step env (t1, w1)) (\<lambda>(t', w'). t' = t1)" for t1 w1
    by (auto simp: retransmit_step_def ensures_def rbind_eq_Inr)
  have fast: "ensures (rbind (retransmit_step env (t1, w1)) f) (\<lambda>(t', w'). t_dupacks t' = t_dupacks t)"
    if "t_dupacks t1 = t_dupacks t" "\<And>x. ensures (f (t1, x)) (\<lambda>(t', w'). t_dupacks t' = t_dupacks t1)" for t1 w1 f
    by (rule ensures_rbind [OF re]) (use that in auto)
  have re': "ensures (retransmit_step env (t1, w1)) (\<lambda>(t', w'). t_dupacks t' = t_dupacks t)" if "t_dupacks t1 = t_dupacks t" for t1 w1
    by (rule ensures_mono [OF re]) (use that in auto)
  have grow: "ensures (call_output env (t\<lparr>cwnd := c\<rparr>, w)) (\<lambda>(t', w'). t_dupacks t' = t_dupacks t)" for c
    using out [of "t\<lparr>cwnd := c\<rparr>" w] by simp
  show ?thesis
    by (cases ops) (auto simp: Let_def new_reno_dup_ack_def lstm_reno_dup_ack_def intro!: fast re' grow)
qed

text \<open>An acknowledgement of the first unacknowledged byte: a window update, a duplicate, or nothing new.\<close>

lemma handle_dup_ack_cases:
  assumes "GET_SCALED_WIN t h = Inr wnd"
  shows "ensures (handle_dup_ack env h n (t, w)) (\<lambda>(t', w').
    if snd_wnd t < wnd then t' = t\<lparr>snd_wnd := wnd\<rparr> \<and> w' = cond_broadcast w
    else if n = 0 \<and> snd_una t \<noteq> snd_max t
    then snd_una t' = snd_una t \<and> send_buf_head t' = send_buf_head t \<and> snd_wnd t' = wnd \<and>
      unat (t_dupacks t') = min 255 (Suc (unat (t_dupacks t))) \<and> wakeups w' = wakeups w
    else t' = t \<and> w' = w)"
proof -
  let ?d = "if t_dupacks t < 255 then t_dupacks t + 1 else t_dupacks t"
  let ?t = "t\<lparr>snd_wnd := wnd, t_dupacks := ?d\<rparr>"
  let ?run = "rbind (cong_control (cc_ops t) env (TCP_CC_EVENT_DUP_ACK (ucast ?d)) (?t, w)) (\<lambda>(tcb, w). log_lstm_event env tcb 0 0 True False w)"
  have d: "unat ?d = min 255 (Suc (unat (t_dupacks t)))" by (rule saturating_inc8)
  have "ensures ?run (\<lambda>(t', w'). snd_una t' = snd_una t \<and> send_buf_head t' = send_buf_head t \<and> snd_wnd t' = wnd \<and> t_dupacks t' = ?d)"
  proof (rule ensures_rbind [OF ensures_conj [OF cc.frame dup_ack_count]])
    fix x :: st
    assume "(case x of (t', w') \<Rightarrow> same_but_cc ?t t' \<and> cc_world w w') \<and> (case x of (t', w') \<Rightarrow> t_dupacks t' = t_dupacks ?t)"
    then show "ensures (case x of (tcb, w) \<Rightarrow> log_lstm_event env tcb 0 0 True False w)
        (\<lambda>(t', w'). snd_una t' = snd_una t \<and> send_buf_head t' = send_buf_head t \<and> snd_wnd t' = wnd \<and> t_dupacks t' = ?d)"
      using log_lstm_event_frame [of env "fst x" 0 0 True False "snd x"]
      by (auto simp: split_beta same_but_lstm_simps same_but_cc_simps elim!: ensures_mono)
  qed
  from ensures_conj [OF this event_una] have "ensures ?run (\<lambda>(t', w'). snd_una t' = snd_una t \<and> send_buf_head t' = send_buf_head t \<and>
      snd_wnd t' = wnd \<and> unat (t_dupacks t') = min 255 (Suc (unat (t_dupacks t))) \<and> wakeups w' = wakeups w)"
    by (rule ensures_mono) (auto simp: d)
  then show ?thesis
    by (cases "t_dupacks t < 255") (auto simp: handle_dup_ack_def assms Let_def)
qed

section \<open>Properties\<close>

text \<open>
  C8: A segment of the peer's stream, whatever its position (old, in order, beyond a gap, overlapping), keeps the receive
  invariant: the receive buffer and the reassembly queue hold exact bytes of the stream, and the
  edge only moves forward. A segment that reaches the edge and fits is taken in whole.
  The sender's half of the connection keeps its own invariant.
\<close>

theorem received_segment_keeps_stream:
  assumes "rcv_inv R N t" and "stream_segment R N t p (th_seq h) data" and "length buff = 1500"
    and "snd_inv S t" and "state t = TCP_ESTABLISHED" and "good_socket env"
  shows "ensures (handle_received_data env buff h data (t, w)) (\<lambda>(t', w'). \<exists>N' \<ge> N. rcv_inv R N' t' \<and>
     (p \<le> N \<and> length data \<le> RECV_BUF_SIZE - rcv_used t - queue_bytes (ooo_head t) \<longrightarrow> p + length data \<le> N') \<and>
     snd_inv S t' \<and> (\<forall>d \<in> set (appended w w'). carries S (iss t) d))"
proof -
  have "ensures (handle_received_data env buff h data (t, w)) (\<lambda>(t', w'). snd_inv S t' \<and> (\<forall>d \<in> set (appended w w'). carries S (iss t) d))"
    using safe_step_received [OF assms(3), of env t w h data] assms(4-6) by (auto simp: safe_step_def elim: ensures_mono)
  with handle_received_data_rcv [OF assms(1-3), of env w] show ?thesis
    by (auto simp: ensures_def)
qed

text \<open>A connection that has sent three segments and received nothing, and an acknowledgement of the first.\<close>

lemma sample_rcv_inv: "rcv_inv R 0 sample_tcb"
  by (simp add: rcv_inv_def sample_tcb_def rcv_used_def ring_contents_def)

definition sample_hdr :: tcphdr where
  "sample_hdr = \<lparr>th_sport = 0, th_dport = 0, th_seq = 1, th_ack = 1401, th_off_flags = 0x50, th_flags = TH_ACK, th_win = 65535,
     th_sum = 0, th_urp = 0\<rparr>"

lemma sample_options [simp]: "process_window_option buff sample_hdr t = Inr t"
  by (simp add: process_window_option_def sample_hdr_def data_offset_def)

theorem received_segment_keeps_stream_witness:
  "ensures (handle_received_data env0 (zero_bytes 1500) sample_hdr [7, 8] (sample_tcb, world0)) (\<lambda>(t', w').
     \<exists>N' \<ge> 0. rcv_inv (\<lambda>i. of_nat (7 + i)) N' t' \<and> 2 \<le> N')"
proof -
  have "stream_segment (\<lambda>i. of_nat (7 + i)) 0 sample_tcb 0 (th_seq sample_hdr) [7, 8]"
    by (simp add: stream_segment_def sample_hdr_def sub_stream_def upt_rec) (simp add: sample_tcb_def)
  from received_segment_keeps_stream [OF sample_rcv_inv this _ sample_inv sample_simps(1), of "zero_bytes 1500" env0 world0]
  have "ensures (handle_received_data env0 (zero_bytes 1500) sample_hdr [7, 8] (sample_tcb, world0)) (\<lambda>(t', w').
     \<exists>N' \<ge> 0. rcv_inv (\<lambda>i. of_nat (7 + i)) N' t' \<and> (0 \<le> (0 :: nat) \<and> length [7, 8 :: u8] \<le> RECV_BUF_SIZE - rcv_used sample_tcb -
       queue_bytes (ooo_head sample_tcb) \<longrightarrow> 0 + length [7, 8 :: u8] \<le> N') \<and>
     snd_inv (\<lambda>_. 0) t' \<and> (\<forall>d \<in> set (appended world0 w'). carries (\<lambda>_. 0) (iss sample_tcb) d))"
    by (simp add: good_socket_def env0_def)
  then show ?thesis
    by (rule ensures_mono) (auto simp: sample_tcb_def rcv_used_def)
qed

text \<open>
  C13: Which segments are processed to the end. In an environment whose clock, allocator and socket work, on a
  connection that keeps the receive invariant, has a threshold of two segments or more and has
  timed out at most twelve times in a row, a segment of the peer's stream is processed to
  the end: its options are parsed and the handler returns, without reading or writing outside a buffer. The one exception is stated exactly: when the
  segment's window is scaled by 32 or more, after its own options are applied, and its acknowledgement number
  is looked at, the handler runs into an undefined shift. Nothing in the option parser keeps the peer from asking for that.
\<close>

theorem received_segment_processed:
  assumes "good_env env" and "length buff = 1500" and "can_send t" and "ssthresh_floor t" and "unat (t_rxtshift t) \<le> 12"
    and "rcv_inv R N t" and "stream_segment R N t p (th_seq h) data"
  shows "\<exists>t1. process_window_option buff h t = Inr t1 \<and>
    (if scale_enabled t1 \<and> \<not> has_flag (th_flags h) TH_SYN \<and> 32 \<le> unat (snd_scale t1) \<and>
        (SEQ_GT (th_ack h) (snd_una t) \<and> SEQ_LEQ (th_ack h) (snd_max t) \<or> th_ack h = snd_una t)
     then handle_received_data env buff h data (t, w) = Inl Bad_shift
     else \<exists>t' w'. handle_received_data env buff h data (t, w) = Inr (t', w'))"
proof -
  from options_rcv [OF assms(2), of h t env w] obtain t1 where
    opt: "process_window_option buff h t = Inr t1" and o: "same_but_options t t1" by metis
  let ?bad = "ack_counts h t1 \<and> shift_undefined h t1"
  have "?bad \<longleftrightarrow> scale_enabled t1 \<and> \<not> has_flag (th_flags h) TH_SYN \<and> 32 \<le> unat (snd_scale t1) \<and>
      (SEQ_GT (th_ack h) (snd_una t) \<and> SEQ_LEQ (th_ack h) (snd_max t) \<or> th_ack h = snd_una t)"
    using same_but_options_simps [OF o] by (auto simp: ack_counts_def shift_undefined_def)
  moreover have "handle_received_data env buff h data (t, w) = Inl Bad_shift" if ?bad
    using handle_ack_bad_shift [of h t1] that by (simp add: handle_received_data_def opt)
  moreover have "\<exists>t' w'. handle_received_data env buff h data (t, w) = Inr (t', w')" if "\<not> ?bad"
    using handle_received_data_returns [OF assms(1-4) _ assms(5-7)] that opt by (auto simp: returns_def)
  ultimately show ?thesis using opt by auto
qed

theorem received_segment_processed_witness:
  "(\<exists>t' w'. handle_received_data env0 (zero_bytes 1500) sample_hdr [] (sample_tcb, world0) = Inr (t', w')) \<and>
   handle_received_data env0 (zero_bytes 1500) sample_hdr [] (sample_tcb\<lparr>scale_enabled := True, snd_scale := 32\<rparr>, world0) = Inl Bad_shift"
proof -
  let ?t = "sample_tcb\<lparr>scale_enabled := True, snd_scale := 32\<rparr>"
  have seg: "stream_segment R 0 t 0 s []" for R t s by (simp add: stream_segment_def)
  have fl: "ssthresh_floor sample_tcb" "unat (t_rxtshift sample_tcb) \<le> 12" by (simp_all add: ssthresh_floor_def sample_tcb_def)
  have sc: "unat (snd_scale sample_tcb) < 32" by (simp add: sample_tcb_def)
  have "SEQ_GT 1401 (1 :: u32)" "SEQ_LEQ 1401 (4201 :: u32)" by (simp_all add: SEQ_sign)
  then have ack: "SEQ_GT (th_ack sample_hdr) (snd_una ?t) \<and> SEQ_LEQ (th_ack sample_hdr) (snd_max ?t)" "\<not> has_flag (th_flags sample_hdr) TH_SYN"
    by (simp_all add: sample_hdr_def sample_tcb_def has_flag_def)
  have ok: "\<exists>t' w'. handle_received_data env0 (zero_bytes 1500) sample_hdr [] (sample_tcb, world0) = Inr (t', w')"
    using received_segment_processed [OF good_env0 _ sample_simps(3) fl sample_rcv_inv seg, of "zero_bytes 1500" sample_hdr world0] sc
    by auto
  have t: "can_send ?t" "ssthresh_floor ?t" "unat (t_rxtshift ?t) \<le> 12" "rcv_inv R 0 ?t" for R
    using sample_simps(3) fl same_rcv_inv [of sample_tcb ?t R 0] sample_rcv_inv [of R] by (simp_all add: can_send_def ssthresh_floor_def same_rcv_def)
  have "handle_received_data env0 (zero_bytes 1500) sample_hdr [] (?t, world0) = Inl Bad_shift"
    using received_segment_processed [OF good_env0 _ t seg, of "zero_bytes 1500" sample_hdr world0] ack by auto
  with ok show ?thesis ..
qed

text \<open>
  C12: What an acknowledgement number does to the send window. A number of bytes in flight advances the first unacknowledged byte to it,
  drops exactly the acknowledged bytes from the send buffer, and wakes the threads that wait for
  room. A number that repeats the first unacknowledged byte moves neither the window's edge nor the
  buffer: with a larger window it only stores that window and wakes the waiting threads; without
  data, while bytes are in flight, it stores the window and counts one more duplicate, up to 255;
  otherwise it changes nothing. A number of old bytes, or of bytes never sent, changes nothing.
  In every case the handler returns.
\<close>

theorem acknowledgement_slides_window:
  assumes "good_env env" and "length buff = 1500" and "snd_inv S t" and "state t = TCP_ESTABLISHED" and "unat (rcv_scale t) < 32"
    and "ssthresh_floor t" and "unat (snd_scale t) < 32" and "unat (t_rxtshift t) \<le> 12"
  shows "if SEQ_GT (th_ack h) (snd_una t) \<and> SEQ_LEQ (th_ack h) (snd_max t)
    then returns (handle_ack env buff h n (t, w)) (\<lambda>(t', w'). snd_una t' = th_ack h \<and> snd_inv S t' \<and>
      unat (send_buf_head t') = unat (send_buf_head t) + unat (th_ack h - snd_una t) \<and>
      send_buf_tail t' = send_buf_tail t \<and> wakeups w' = Suc (wakeups w))
    else if th_ack h = snd_una t
    then \<exists>wnd. GET_SCALED_WIN t h = Inr wnd \<and>
      (if snd_wnd t < wnd then handle_ack env buff h n (t, w) = Inr (t\<lparr>snd_wnd := wnd\<rparr>, cond_broadcast w)
       else if n = 0 \<and> snd_una t \<noteq> snd_max t
       then returns (handle_ack env buff h n (t, w)) (\<lambda>(t', w'). snd_una t' = snd_una t \<and> send_buf_head t' = send_buf_head t \<and>
         send_buf_tail t' = send_buf_tail t \<and> snd_inv S t' \<and> snd_wnd t' = wnd \<and>
         unat (t_dupacks t') = min 255 (Suc (unat (t_dupacks t))) \<and> wakeups w' = wakeups w)
       else handle_ack env buff h n (t, w) = Inr (t, w))
    else handle_ack env buff h n (t, w) = Inr (t, w)"
proof -
  have cs: "can_send t" using assms(3,5) by (simp add: can_send_def snd_inv_def)
  have gs: "good_socket env" using assms(1) by (simp add: good_env_def good_socket_def)
  have "\<not> (ack_counts h t \<and> shift_undefined h t)" using shift_defined [OF assms(7)] by blast
  from handle_ack_returns [OF assms(1,2) cs assms(6) this assms(8), of n w] obtain t' w' where
    run: "handle_ack env buff h n (t, w) = Inr (t', w')" and rcv: "same_rcv t t'" by (auto simp: returns_def)
  have inv: "snd_inv S t'" "iss t' = iss t"
    using safe_step_ack [of env t w buff h n] run assms(3,4) gs by (auto simp: safe_step_def)
  consider (fresh) "SEQ_GT (th_ack h) (snd_una t) \<and> SEQ_LEQ (th_ack h) (snd_max t)"
    | (repeated) "\<not> (SEQ_GT (th_ack h) (snd_una t) \<and> SEQ_LEQ (th_ack h) (snd_max t))" "th_ack h = snd_una t"
    | (ignored) "\<not> (SEQ_GT (th_ack h) (snd_una t) \<and> SEQ_LEQ (th_ack h) (snd_max t))" "th_ack h \<noteq> snd_una t" by blast
  then show ?thesis
  proof cases
    case fresh
    have una: "snd_una t' = th_ack h" "wakeups w' = Suc (wakeups w)"
      using handle_new_ack_una [of env buff h t w] run fresh by (simp_all add: handle_ack_def)
    have "unat (send_buf_head t') = seq_pos t (th_ack h)" using snd_invD(3) [OF inv(1)] una inv(2) by (simp add: seq_pos_def)
    then have "unat (send_buf_head t') = unat (send_buf_head t) + unat (th_ack h - snd_una t)"
      using ack_position(1) [OF assms(3)] fresh snd_invD(3) [OF assms(3)] by simp
    then show ?thesis using fresh run inv una rcv by (simp add: same_rcv_def)
  next
    case repeated
    obtain wnd where wnd: "GET_SCALED_WIN t h = Inr wnd" using GET_SCALED_WIN_returns [OF assms(7)] by blast
    have dup: "handle_dup_ack env h n (t, w) = Inr (t', w')" using repeated run by (auto simp: handle_ack_def)
    have "send_buf_tail t' = send_buf_tail t" using rcv by (simp add: same_rcv_def)
    with handle_dup_ack_cases [OF wnd, of env n w] dup inv(1) show ?thesis
      using repeated wnd run by auto
  next
    case ignored
    then show ?thesis by (auto simp: handle_ack_def)
  qed
qed

theorem acknowledgement_slides_window_witness:
  "returns (handle_ack env0 (zero_bytes 1500) sample_hdr 0 (sample_tcb, world0)) (\<lambda>(t', w').
     snd_una t' = 1401 \<and> unat (send_buf_head t') = 1400 \<and> wakeups w' = 1) \<and>
   returns (handle_ack env0 (zero_bytes 1500) (sample_hdr\<lparr>th_ack := 1, th_win := 20000\<rparr>) 0 (sample_tcb, world0)) (\<lambda>(t', w').
     snd_una t' = 1 \<and> send_buf_head t' = 0 \<and> snd_wnd t' = 20000 \<and> t_dupacks t' = 1 \<and> wakeups w' = 0)"
proof
  have s: "unat (snd_scale sample_tcb) < 32" "unat (t_rxtshift sample_tcb) \<le> 12" "ssthresh_floor sample_tcb"
    by (simp_all add: sample_tcb_def ssthresh_floor_def)
  note slides = acknowledgement_slides_window [OF good_env0 _ sample_inv sample_simps(1,2) s(3,1,2), of "zero_bytes 1500" _ 0 world0]
  have "SEQ_GT 1401 (1 :: u32)" "SEQ_LEQ 1401 (4201 :: u32)" by (simp_all add: SEQ_sign)
  then show "returns (handle_ack env0 (zero_bytes 1500) sample_hdr 0 (sample_tcb, world0)) (\<lambda>(t', w').
     snd_una t' = 1401 \<and> unat (send_buf_head t') = 1400 \<and> wakeups w' = 1)"
    using slides [of sample_hdr] by (auto simp: sample_hdr_def world0_def sample_tcb_def elim!: returns_mono)
  have "\<not> SEQ_GT 1 (1 :: u32)" by (simp add: SEQ_sign)
  moreover have "GET_SCALED_WIN sample_tcb (sample_hdr\<lparr>th_ack := 1, th_win := 20000\<rparr>) = Inr 20000"
    by (simp add: GET_SCALED_WIN_def sample_tcb_def)
  moreover have "th_ack (sample_hdr\<lparr>th_ack := 1, th_win := 20000\<rparr>) = 1" by simp
  moreover have "snd_una sample_tcb = 1" "snd_max sample_tcb = 4201" "snd_wnd sample_tcb = 1048576" "send_buf_head sample_tcb = 0"
    "t_dupacks sample_tcb = 0" "wakeups world0 = 0" by (simp_all add: sample_tcb_def world0_def)
  ultimately have "returns (handle_ack env0 (zero_bytes 1500) (sample_hdr\<lparr>th_ack := 1, th_win := 20000\<rparr>) 0 (sample_tcb, world0)) (\<lambda>(t', w').
     snd_una t' = 1 \<and> send_buf_head t' = 0 \<and> send_buf_tail t' = send_buf_tail sample_tcb \<and> snd_inv (\<lambda>_. 0) t' \<and> snd_wnd t' = 20000 \<and>
     unat (t_dupacks t') = 1 \<and> wakeups w' = 0)"
    using slides [of "sample_hdr\<lparr>th_ack := 1, th_win := 20000\<rparr>"] by simp
  then show "returns (handle_ack env0 (zero_bytes 1500) (sample_hdr\<lparr>th_ack := 1, th_win := 20000\<rparr>) 0 (sample_tcb, world0)) (\<lambda>(t', w').
     snd_una t' = 1 \<and> send_buf_head t' = 0 \<and> snd_wnd t' = 20000 \<and> t_dupacks t' = 1 \<and> wakeups w' = 0)"
    by (rule returns_mono) (auto simp: word_unat_eq_iff)
qed

end
