(* ===== verification/Api.thy ===== *)
theory Api
  imports Input
begin

text \<open>
  The socket interface: \<^verbatim>\<open>src/utcp/api.c\<close> and \<^verbatim>\<open>src/utcp/utcp_init.c\<close>. The descriptor table is a list of
  optional blocks. A call that waits on the condition variable, or spins, is modelled up to that
  point: the result \<open>Blocked\<close> says that the call would wait in the present state, and the call is
  taken up again from the state that the other threads leave.
\<close>

section \<open>The package\<close>

record package =
  utcp_initialized :: bool
  udp_fd :: int
  UDP_PORT :: int
  threads :: nat

text \<open>
  The outcomes of \<^verbatim>\<open>socket\<close>, \<^verbatim>\<open>bind\<close>, \<^verbatim>\<open>getsockname\<close> (with the port it reports) and the
  two \<^verbatim>\<open>pthread_create\<close> calls.
\<close>

record init_outcome =
  o_socket :: int
  o_bind :: int
  o_getsockname :: int
  o_port :: u16
  o_listening :: int
  o_ticking :: int

definition start_thread :: "int \<Rightarrow> string \<Rightarrow> package \<Rightarrow> package res" where
  "start_thread created msg pkg = (if created \<noteq> 0 then err_sys msg else Inr (pkg\<lparr>threads := Suc (threads pkg)\<rparr>))"

definition utcp_package_init :: "init_outcome \<Rightarrow> package \<Rightarrow> package res" where
  "utcp_package_init out pkg =
     (if utcp_initialized pkg then Inr pkg
      else if o_socket out < 0 then err_sys ''socketerror''
      else if o_bind out < 0 then err_sys ''Bind failed for local UDP port''
      else if o_getsockname out < 0 then err_sys ''getsockname failed''
      else rbind (start_thread (o_listening out) ''Failed to create utcp_input thread''
             (pkg\<lparr>udp_fd := o_socket out, UDP_PORT := uint (o_port out), utcp_initialized := True\<rparr>))
             (start_thread (o_ticking out) ''Failed to create utcp_slowtimo thread''))"

section \<open>Descriptors\<close>

definition utcp_get_tcb :: "tcb option list \<Rightarrow> int \<Rightarrow> tcb res" where
  "utcp_get_tcb utcp_fd_table fd =
     (if fd < 0 \<or> fd \<ge> MAX_UTCP_SOCKETS then err_sys ''Invalid UTCP fd''
      else rbind (arr_get utcp_fd_table (nat fd)) (\<lambda>entry.
           case entry of None \<Rightarrow> err_sys ''UTCP fd not allocated'' | Some tcb \<Rightarrow> Inr tcb))"

definition utcp_get_tcb_in_state :: "tcb option list \<Rightarrow> int \<Rightarrow> tcp_state \<Rightarrow> tcb res" where
  "utcp_get_tcb_in_state utcp_fd_table fd required =
     rbind (utcp_get_tcb utcp_fd_table fd) (\<lambda>tcb.
     if state tcb \<noteq> required then err_sys ''UTCP socket in invalid state'' else Inr tcb)"

fun first_free :: "tcb option list \<Rightarrow> nat" where
  "first_free [] = 0"
| "first_free (None # rest) = 0"
| "first_free (Some tcb # rest) = Suc (first_free rest)"

text \<open>The smallest shift that fits the buffer size into the 16-bit window field.\<close>

function scale_from :: "nat \<Rightarrow> nat" where
  "scale_from scale = (if RECV_BUF_SIZE div 2 ^ scale > (65535 :: nat) \<and> scale < 14 then scale_from (Suc scale) else scale)"
  by auto
termination by (relation "measure (\<lambda>scale. 14 - scale)") auto

declare scale_from.simps [simp del]

definition new_tcb :: tcb where
  "new_tcb = (calloc_tcb utcp_new_reno)\<lparr>state := TCP_CLOSED, t_rxtcur := of_nat TCPTV_SRTTDFLT, iss := 0, snd_una := 0,
     snd_nxt := 0, rcv_wnd := RECV_BUF_SIZE, rcv_scale := of_nat (scale_from 0), scale_enabled := False, snd_scale := 0\<rparr>"

definition utcp_socket ::
  "env \<Rightarrow> init_outcome \<Rightarrow> package \<Rightarrow> tcb option list \<Rightarrow> world \<Rightarrow> (int \<times> package \<times> tcb option list \<times> world) res" where
  "utcp_socket env out pkg utcp_fd_table w =
     rbind (utcp_package_init out pkg) (\<lambda>pkg.
     let utcp_fd = first_free utcp_fd_table
     in if utcp_fd = MAX_UTCP_SOCKETS then err_sys ''Too many UTCP sockets open''
        else case try_malloc env w of (ok, w) \<Rightarrow>
          if \<not> ok then err_sys ''calloc failed for TCB''
          else Inr (int utcp_fd, pkg, utcp_fd_table[utcp_fd := Some new_tcb], w))"

section \<open>Sending and receiving\<close>

datatype 'a blocking = Blocked | Done 'a

text \<open>
  The loop of \<^verbatim>\<open>utcp_send\<close> up to its end or to a full buffer; what is left to write is returned.
\<close>

function send_loop :: "env \<Rightarrow> u8 list \<Rightarrow> st \<Rightarrow> (u8 list \<times> st) res" where
  "send_loop env data s = (case s of (tcb, w) \<Rightarrow>
     if data = [] then Inr ([], tcb, w)
     else let current_buffered = send_buf_tail tcb - send_buf_head tcb;
              free_space = SEND_BUF_SIZE - current_buffered
          in if free_space = 0 then Inr (data, tcb, w)
             else let to_write = min (length data) (unat free_space)
                  in rbind (ring_buf_write (send_buf tcb) SEND_BUF_SIZE (send_buf_tail tcb) (take to_write data) to_write) (\<lambda>buf.
                     rbind (call_output env (tcb\<lparr>send_buf := buf, send_buf_tail := send_buf_tail tcb + of_nat to_write\<rparr>, w))
                       (send_loop env (drop to_write data))))"
  by pat_completeness auto
termination
  by (relation "measure (\<lambda>(env, data, s). length data)") (auto simp: unat_gt_0)

declare send_loop.simps [simp del]

definition utcp_send :: "env \<Rightarrow> tcb option list \<Rightarrow> int \<Rightarrow> u8 list \<Rightarrow> world \<Rightarrow> (u8 list \<times> tcb option list \<times> world) res" where
  "utcp_send env utcp_fd_table fd data w =
     rbind (utcp_get_tcb_in_state utcp_fd_table fd TCP_ESTABLISHED) (\<lambda>tcb.
     rbind (send_loop env data (tcb, w)) (\<lambda>(remaining, tcb, w).
     Inr (remaining, utcp_fd_table[nat fd := Some tcb], w)))"

text \<open>After a wake-up: bail out if the connection is gone, else go on with the loop.\<close>

definition utcp_send_resume :: "env \<Rightarrow> tcb option list \<Rightarrow> int \<Rightarrow> u8 list \<Rightarrow> world \<Rightarrow> (u8 list \<times> tcb option list \<times> world) res" where
  "utcp_send_resume env utcp_fd_table fd remaining w =
     rbind (utcp_get_tcb utcp_fd_table fd) (\<lambda>tcb.
     if state tcb \<noteq> TCP_ESTABLISHED then err_sys ''Connection closed while blocked in utcp_send''
     else rbind (send_loop env remaining (tcb, w)) (\<lambda>(remaining, tcb, w).
          Inr (remaining, utcp_fd_table[nat fd := Some tcb], w)))"

definition read_available :: "env \<Rightarrow> nat \<Rightarrow> st \<Rightarrow> (u8 list \<times> st) res" where
  "read_available env len s = (case s of (tcb, w) \<Rightarrow>
     let avaiable_bytes_to_read = recv_buf_tail tcb - recv_buf_head tcb;
         num_bytes_to_read = min len (unat avaiable_bytes_to_read)
     in rbind (ring_buf_read (recv_buf tcb) RECV_BUF_SIZE (recv_buf_head tcb) num_bytes_to_read) (\<lambda>bytes.
        let tcb = tcb\<lparr>recv_buf_head := recv_buf_head tcb + of_nat num_bytes_to_read\<rparr>;
            bytes_in_buffer = recv_buf_tail tcb - recv_buf_head tcb;
            tcb = tcb\<lparr>rcv_wnd := RECV_BUF_SIZE - bytes_in_buffer - ooo_bytes tcb\<rparr>;
            sws_threshold = (if MSS < (RECV_BUF_SIZE div 2 :: u32) then MSS else RECV_BUF_SIZE div 2)
        in if rcv_wnd tcb \<ge> sws_threshold \<or> (rcv_wnd tcb < sws_threshold \<and> avaiable_bytes_to_read = RECV_BUF_SIZE)
           then rbind (call_output env (tcb\<lparr>t_flags := set_flag (t_flags tcb) TF_ACKNOW\<rparr>, w)) (\<lambda>s. Inr (bytes, s))
           else Inr (bytes, tcb, w)))"

definition read_wait :: "env \<Rightarrow> nat \<Rightarrow> st \<Rightarrow> (u8 list \<times> st) blocking res" where
  "read_wait env len s = (case s of (tcb, w) \<Rightarrow>
     if recv_buf_head tcb = recv_buf_tail tcb
     then if state tcb = TCP_CLOSE_WAIT \<or> state tcb = TCP_CLOSED then Inr (Done ([], tcb, w)) else Inr Blocked
     else rbind (read_available env len (tcb, w)) (\<lambda>r. Inr (Done r)))"

definition utcp_read :: "env \<Rightarrow> tcb option list \<Rightarrow> int \<Rightarrow> nat \<Rightarrow> world \<Rightarrow> (u8 list \<times> tcb option list \<times> world) blocking res" where
  "utcp_read env utcp_fd_table fd len w =
     rbind (utcp_get_tcb_in_state utcp_fd_table fd TCP_ESTABLISHED) (\<lambda>tcb.
     rbind (read_wait env len (tcb, w)) (\<lambda>r.
     case r of
       Blocked \<Rightarrow> Inr Blocked
     | Done (bytes, tcb, w) \<Rightarrow> Inr (Done (bytes, utcp_fd_table[nat fd := Some tcb], w))))"

section \<open>Connections\<close>

text \<open>An address with its fields in host order.\<close>

record sockaddr_in =
  sin_family :: u16
  sin_addr :: u32
  sin_port :: u16

abbreviation (input) AF_INET :: u16 where "AF_INET \<equiv> 2"

definition wait_until_established :: "tcb \<Rightarrow> unit blocking" where
  "wait_until_established tcb = (if state tcb \<noteq> TCP_ESTABLISHED then Blocked else Done ())"

definition utcp_accept :: "tcb option list \<Rightarrow> int \<Rightarrow> int blocking res" where
  "utcp_accept utcp_fd_table fd =
     rbind (utcp_get_tcb utcp_fd_table fd) (\<lambda>tcb.
     if state tcb \<noteq> TCP_LISTEN \<and> state tcb \<noteq> TCP_SYN_RECV then Inr (Done fd)
     else case wait_until_established tcb of Blocked \<Rightarrow> Inr Blocked | Done _ \<Rightarrow> Inr (Done 0))"

definition utcp_bind :: "tcb option list \<Rightarrow> int \<Rightarrow> sockaddr_in \<Rightarrow> tcb option list res" where
  "utcp_bind utcp_fd_table fd addr =
     rbind (utcp_get_tcb_in_state utcp_fd_table fd TCP_CLOSED) (\<lambda>tcb.
     if src_ip tcb \<noteq> 0 then err_sys ''UTCP socket is already bound''
     else if sin_family addr \<noteq> AF_INET then err_sys ''No support for UTCP ports that are not AF_INET''
     else Inr (utcp_fd_table[nat fd := Some (tcb\<lparr>src_ip := sin_addr addr, src_port := sin_port addr\<rparr>)]))"

definition utcp_connect :: "env \<Rightarrow> tcb option list \<Rightarrow> int \<Rightarrow> sockaddr_in \<Rightarrow> world \<Rightarrow> (tcb option list \<times> world) res" where
  "utcp_connect env utcp_fd_table fd addr w =
     rbind (utcp_get_tcb_in_state utcp_fd_table fd TCP_CLOSED) (\<lambda>tcb.
     if sin_family addr \<noteq> AF_INET then err_sys ''Only AF_INET supported for UTCP connect''
     else rbind (call_output env (tcb\<lparr>dst_ip := sin_addr addr, dst_port := sin_port addr, dst_udp_port := 1970,
            state := TCP_SYN_SENT\<rparr>, w)) (\<lambda>(tcb, w).
          Inr (utcp_fd_table[nat fd := Some tcb], w)))"

text \<open>\<^verbatim>\<open>utcp_connect\<close> then waits for the listening thread to complete the handshake.\<close>

definition utcp_connect_wait :: "tcb option list \<Rightarrow> int \<Rightarrow> int blocking res" where
  "utcp_connect_wait utcp_fd_table fd =
     rbind (utcp_get_tcb utcp_fd_table fd) (\<lambda>tcb.
     case wait_until_established tcb of Blocked \<Rightarrow> Inr Blocked | Done _ \<Rightarrow> Inr (Done 0))"

definition utcp_listen :: "tcb option list \<Rightarrow> int \<Rightarrow> tcb option list res" where
  "utcp_listen utcp_fd_table fd =
     rbind (utcp_get_tcb_in_state utcp_fd_table fd TCP_CLOSED) (\<lambda>tcb.
     Inr (utcp_fd_table[nat fd := Some (tcb\<lparr>state := TCP_LISTEN\<rparr>)]))"

definition utcp_drain :: "tcb option list \<Rightarrow> int \<Rightarrow> unit blocking res" where
  "utcp_drain utcp_fd_table fd =
     rbind (utcp_get_tcb utcp_fd_table fd) (\<lambda>tcb.
     Inr (if send_buf_head tcb \<noteq> send_buf_tail tcb then Blocked else Done ()))"

section \<open>Writing extends the stream\<close>

text \<open>What writing and sending leave alone: the receiving half, and what is acknowledged.\<close>

definition same_half :: "tcb \<Rightarrow> tcb \<Rightarrow> bool" where
  "same_half t t' \<longleftrightarrow> iss t' = iss t \<and> irs t' = irs t \<and> rcv_nxt t' = rcv_nxt t \<and> recv_buf t' = recv_buf t \<and>
     recv_buf_head t' = recv_buf_head t \<and> recv_buf_tail t' = recv_buf_tail t \<and> ooo_head t' = ooo_head t \<and>
     ooo_bytes t' = ooo_bytes t \<and> rcv_scale t' = rcv_scale t \<and> snd_una t' = snd_una t \<and>
     send_buf_head t' = send_buf_head t \<and> cc_ops t' = cc_ops t"

lemma same_half_refl [simp]: "same_half t t"
  by (simp add: same_half_def)

lemma same_half_trans: "same_half a b \<Longrightarrow> same_half b c \<Longrightarrow> same_half a c"
  by (simp add: same_half_def)

lemma snd_used:
  assumes "snd_inv S t"
  shows "unat (send_buf_tail t - send_buf_head t) = snd_written t - seq_pos t (snd_una t)"
    and "unat (SEND_BUF_SIZE - (send_buf_tail t - send_buf_head t)) = SEND_BUF_SIZE - (snd_written t - seq_pos t (snd_una t))"
proof -
  note D = snd_invD [OF assms]
  show u: "unat (send_buf_tail t - send_buf_head t) = snd_written t - seq_pos t (snd_una t)"
    using D(3,4,5,6) by (simp add: unat_sub word_le_nat_alt snd_written_def)
  show "unat (1048576 - (send_buf_tail t - send_buf_head t)) = 1048576 - (snd_written t - seq_pos t (snd_una t))"
    using D(7) u by (simp add: unat_sub word_le_nat_alt)
qed

lemma snd_inv_write:
  assumes inv: "snd_inv S t" and fit: "snd_written t - seq_pos t (snd_una t) + n \<le> SEND_BUF_SIZE"
    and W: "snd_written t + n < 2147483647"
  obtains buf where "ring_buf_write (send_buf t) SEND_BUF_SIZE (send_buf_tail t) (sub_stream S (snd_written t) n) n = Inr buf"
    and "snd_inv S (t\<lparr>send_buf := buf, send_buf_tail := send_buf_tail t + of_nat n\<rparr>)"
    and "snd_written (t\<lparr>send_buf := buf, send_buf_tail := send_buf_tail t + of_nat n\<rparr>) = snd_written t + n"
proof -
  note D = snd_invD [OF inv]
  from ring_write_contents [of "send_buf t" "send_buf_tail t" "send_buf_head t" "sub_stream S (snd_written t) n"] D(2) fit snd_used(1) [OF inv]
  obtain buf where w: "ring_buf_write (send_buf t) 1048576 (send_buf_tail t) (sub_stream S (snd_written t) n) n = Inr buf"
    and buf: "length buf = 1048576" "ring_contents buf (send_buf_head t) (send_buf_tail t + of_nat n) =
      ring_contents (send_buf t) (send_buf_head t) (send_buf_tail t) @ sub_stream S (snd_written t) n"
    by (auto simp: returns_def)
  have wr: "unat (send_buf_tail t + of_nat n) = snd_written t + n"
    using W by (subst unat_add_small32) (simp_all add: snd_written_def unat_of_nat32)
  have app: "sub_stream S (seq_pos t (snd_una t)) (snd_written t - seq_pos t (snd_una t)) @ sub_stream S (snd_written t) n =
      sub_stream S (seq_pos t (snd_una t)) (snd_written t + n - seq_pos t (snd_una t))"
    using sub_stream_append [of S "seq_pos t (snd_una t)" "snd_written t - seq_pos t (snd_una t)" n] D(4,5,6) by simp
  let ?t = "t\<lparr>send_buf := buf, send_buf_tail := send_buf_tail t + of_nat n\<rparr>"
  have pos: "seq_pos ?t q = seq_pos t q" "snd_written ?t = snd_written t + n" for q
    using wr by (simp_all add: seq_pos_def snd_written_def)
  have "snd_inv S ?t"
    unfolding snd_inv_def pos using D fit W buf app by (simp add: seq_pos_def)
  then show thesis using w pos that by simp
qed

text \<open>Only the bytes written so far matter to the send invariant.\<close>

definition same_upto :: "nat \<Rightarrow> (nat \<Rightarrow> 'a) \<Rightarrow> (nat \<Rightarrow> 'a) \<Rightarrow> bool" where
  "same_upto n S S' \<longleftrightarrow> (\<forall>i < n. S' i = S i)"

lemma sub_stream_upto: "same_upto m S S' \<Longrightarrow> p + n \<le> m \<Longrightarrow> sub_stream S' p n = sub_stream S p n"
  by (auto simp: same_upto_def sub_stream_def)

lemma snd_inv_upto:
  assumes "snd_inv S t" and "same_upto (snd_written t) S S'"
  shows "snd_inv S' t"
  using assms sub_stream_upto [OF assms(2)] by (auto simp: snd_inv_def)

text \<open>From one state to another \<open>k\<close> bytes of the stream are written, and only the stream is sent.\<close>

definition wrote :: "(nat \<Rightarrow> u8) \<Rightarrow> nat \<Rightarrow> st \<Rightarrow> st \<Rightarrow> bool" where
  "wrote S k s s' \<longleftrightarrow> snd_inv S (fst s') \<and> state (fst s') = TCP_ESTABLISHED \<and>
     snd_written (fst s') = snd_written (fst s) + k \<and> same_half (fst s) (fst s') \<and> grows (snd s) (snd s') \<and>
     (\<forall>d \<in> set (appended (snd s) (snd s')). \<forall>S'. same_upto (snd_written (fst s')) S S' \<longrightarrow> conveys S' (fst s) d)"

lemma wrote_refl: "snd_inv S (fst s) \<Longrightarrow> state (fst s) = TCP_ESTABLISHED \<Longrightarrow> wrote S 0 s s"
  by (simp add: wrote_def)

lemma wrote_trans:
  assumes "wrote S j s s1" and "wrote S k s1 s2"
  shows "wrote S (j + k) s s2"
proof -
  have c: "conveys S' (fst s1) d = conveys S' (fst s) d" for S' d
    using assms(1) by (simp add: wrote_def same_half_def conveys_def)
  have u: "same_upto (snd_written (fst s2)) S S' \<Longrightarrow> same_upto (snd_written (fst s1)) S S'" for S'
    using assms(2) by (auto simp: wrote_def same_upto_def)
  show ?thesis
    using assms grows_trans [of "snd s" "snd s1" "snd s2"] same_half_trans [of "fst s" "fst s1" "fst s2"] c u
    by (auto simp: wrote_def)
qed

text \<open>One pass of the loop: the chunk becomes part of the stream, and the output routine follows.\<close>

lemma send_chunk:
  assumes inv: "snd_inv S t" and est: "state t = TCP_ESTABLISHED" and gs: "good_socket env"
    and fit: "snd_written t - seq_pos t (snd_una t) + n \<le> SEND_BUF_SIZE" and W: "snd_written t + n < 2147483647"
  obtains buf where "ring_buf_write (send_buf t) SEND_BUF_SIZE (send_buf_tail t) (sub_stream S (snd_written t) n) n = Inr buf"
    and "ensures (call_output env (t\<lparr>send_buf := buf, send_buf_tail := send_buf_tail t + of_nat n\<rparr>, w)) (wrote S n (t, w))"
proof -
  from snd_inv_write [OF inv fit W] obtain buf where
    buf: "ring_buf_write (send_buf t) SEND_BUF_SIZE (send_buf_tail t) (sub_stream S (snd_written t) n) n = Inr buf"
    and t1: "snd_inv S (t\<lparr>send_buf := buf, send_buf_tail := send_buf_tail t + of_nat n\<rparr>)"
      "snd_written (t\<lparr>send_buf := buf, send_buf_tail := send_buf_tail t + of_nat n\<rparr>) = snd_written t + n" .
  let ?t1 = "t\<lparr>send_buf := buf, send_buf_tail := send_buf_tail t + of_nat n\<rparr>"
  have st: "\<And>S'. same_upto (snd_written t + n) S S' \<Longrightarrow> snd_inv S' ?t1" using snd_inv_upto [OF t1(1)] t1(2) by simp
  have "wrote S n (t, w) (t', w')" if "same_conn ?t1 t'" "state t' = state ?t1" "grows w w'"
    and post: "\<And>S'. snd_inv S' ?t1 \<Longrightarrow> snd_inv S' t' \<and> (\<forall>d \<in> set (appended w w'). carries S' (iss ?t1) d \<and> acks_either ?t1 t' d)"
    for t' w'
  proof -
    have "snd_written t' = snd_written t + n" using that(1) t1(2) by (simp add: same_conn_def snd_written_def)
    moreover have "conveys S' t d" if "d \<in> set (appended w w')" "same_upto (snd_written t + n) S S'" for d S'
      using post [OF st [OF that(2)]] that(1) \<open>same_conn ?t1 t'\<close> by (auto simp: conveys_def acks_either_def same_conn_def)
    ultimately show ?thesis
      using post [OF t1(1)] that est by (auto simp: wrote_def same_half_def same_conn_def)
  qed
  then have "ensures (call_output env (?t1, w)) (wrote S n (t, w))"
    using safe_step_call_output [of env ?t1 w] est gs by (auto simp: safe_step_def elim!: ensures_mono)
  then show thesis by (rule that [OF buf])
qed

text \<open>The written part of the data is a prefix, and writing stops only at a full buffer.\<close>

definition send_done :: "(nat \<Rightarrow> u8) \<Rightarrow> u8 list \<Rightarrow> st \<Rightarrow> u8 list \<times> st \<Rightarrow> bool" where
  "send_done S data s r \<longleftrightarrow> (\<exists>k \<le> length data. fst r = drop k data \<and> wrote S k s (snd r) \<and>
     (k < length data \<longrightarrow> snd_written (fst (snd r)) - seq_pos (fst (snd r)) (snd_una (fst (snd r))) = SEND_BUF_SIZE))"

lemma send_done_step:
  assumes "wrote S n s s1" and "send_done S (drop n data) s1 r" and "n \<le> length data"
  shows "send_done S data s r"
proof -
  from assms(2) obtain k where "k \<le> length data - n" "fst r = drop k (drop n data)" "wrote S k s1 (snd r)"
    "k < length data - n \<longrightarrow> snd_written (fst (snd r)) - seq_pos (fst (snd r)) (snd_una (fst (snd r))) = SEND_BUF_SIZE"
    by (auto simp: send_done_def)
  with assms(3) wrote_trans [OF assms(1), of k "snd r"] show ?thesis
    unfolding send_done_def by (intro exI [of _ "n + k"]) (auto simp: add.commute)
qed

text \<open>A pass of the loop that has data and room, and one that has not.\<close>

definition send_pre :: "(nat \<Rightarrow> u8) \<Rightarrow> u8 list \<Rightarrow> tcb \<Rightarrow> bool" where
  "send_pre S data t \<longleftrightarrow> snd_inv S t \<and> state t = TCP_ESTABLISHED \<and> data = sub_stream S (snd_written t) (length data) \<and>
     snd_written t + length data < 2147483647"

lemma send_loop_cases:
  assumes pre: "send_pre S data t" and gs: "good_socket env"
  obtains (stop) "send_loop env data (t, w) = Inr (data, t, w)" "send_done S data (t, w) (data, t, w)"
  | (pass) n buf where "0 < n" "n \<le> length data"
      "send_loop env data (t, w) = rbind (call_output env (t\<lparr>send_buf := buf, send_buf_tail := send_buf_tail t + of_nat n\<rparr>, w))
        (send_loop env (drop n data))"
      "ensures (call_output env (t\<lparr>send_buf := buf, send_buf_tail := send_buf_tail t + of_nat n\<rparr>, w)) (wrote S n (t, w))"
      "length buf = length (send_buf t)"
proof -
  have P: "snd_inv S t" "state t = TCP_ESTABLISHED" "data = sub_stream S (snd_written t) (length data)"
    "snd_written t + length data < 2147483647" using pre by (simp_all add: send_pre_def)
  note D = snd_invD [OF P(1)] and U = snd_used [OF P(1)]
  define free where "free = 1048576 - (snd_written t - seq_pos t (snd_una t))"
  define n where "n = min (length data) free"
  have n: "n \<le> length data" "snd_written t - seq_pos t (snd_una t) + n \<le> 1048576" "snd_written t + n < 2147483647"
    using D(7) P(4) by (simp_all add: n_def free_def)
  have u: "unat (1048576 - (send_buf_tail t - send_buf_head t)) = free" using U(2) by (simp add: free_def)
  then have z: "1048576 - (send_buf_tail t - send_buf_head t) = 0 \<longleftrightarrow> free = 0" by (metis unat_eq_zero)
  show thesis
  proof (cases "data = [] \<or> free = 0")
    case True
    then have "send_loop env data (t, w) = Inr (data, t, w)" using z by (subst send_loop.simps) (auto simp: Let_def)
    then show thesis
      using wrote_refl [of S "(t, w)"] P(1,2) True D(7)
      by (intro stop) (auto simp: send_done_def free_def intro: exI [of _ 0])
  next
    case False
    have "take n data = sub_stream S (snd_written t) n"
      using P(3) take_sub_stream [OF n(1), of S "snd_written t"] by simp
    with send_chunk [OF P(1,2) gs n(2,3), of w] obtain buf where
      buf: "ring_buf_write (send_buf t) 1048576 (send_buf_tail t) (take n data) n = Inr buf"
      and out: "ensures (call_output env (t\<lparr>send_buf := buf, send_buf_tail := send_buf_tail t + of_nat n\<rparr>, w)) (wrote S n (t, w))"
      by metis
    have "send_loop env data (t, w) = rbind (call_output env (t\<lparr>send_buf := buf, send_buf_tail := send_buf_tail t + of_nat n\<rparr>, w))
        (send_loop env (drop n data))"
      using False z buf u by (subst send_loop.simps) (simp add: Let_def n_def [symmetric])
    moreover have "0 < n" using False by (simp add: n_def)
    ultimately show thesis by (rule pass [OF _ n(1) _ out length_ring_buf_write [OF buf], rotated])
  qed
qed

lemma send_pre_step:
  assumes "send_pre S data t" and "wrote S n (t, w) s1" and "n \<le> length data"
  shows "send_pre S (drop n data) (fst s1)"
proof -
  have P: "data = sub_stream S (snd_written t) (length data)" "snd_written t + length data < 2147483647"
    using assms(1) by (simp_all add: send_pre_def)
  moreover have "snd_written (fst s1) = snd_written t + n" using assms(2) by (simp add: wrote_def)
  ultimately have "drop n data = sub_stream S (snd_written (fst s1)) (length (drop n data))"
    using drop_sub_stream [OF assms(3), of S "snd_written t"] by simp
  then show ?thesis using assms(2,3) P(2) by (simp add: send_pre_def wrote_def)
qed

lemma send_loop_stream:
  assumes gs: "good_socket env"
  shows "send_pre S data t \<Longrightarrow> ensures (send_loop env data (t, w)) (send_done S data (t, w))"
proof (induction "length data" arbitrary: data t w rule: less_induct)
  case less
  show ?case
  proof (cases rule: send_loop_cases [OF less.prems gs, of w, case_names stop pass])
    case stop
    then show ?thesis by simp
  next
    case (pass n buf)
    show ?thesis
      unfolding pass(3)
    proof (rule ensures_rbind [OF pass(4)])
      fix s1
      assume w: "wrote S n (t, w) s1"
      have "ensures (send_loop env (drop n data) (fst s1, snd s1)) (send_done S (drop n data) (fst s1, snd s1))"
        using less.hyps [of "drop n data" "fst s1" "snd s1"] send_pre_step [OF less.prems w pass(2)] pass(1,2) by simp
      then show "ensures (send_loop env (drop n data) s1) (send_done S data (t, w))"
        using send_done_step [OF w _ pass(2)] by (auto elim: ensures_mono)
    qed
  qed
qed

lemma send_loop_returns:
  assumes env: "good_env env"
  shows "send_pre S data t \<Longrightarrow> can_send t \<Longrightarrow> returns (send_loop env data (t, w)) (send_done S data (t, w))"
proof -
  have gs: "good_socket env" using env by (simp add: good_env_def good_socket_def)
  have "send_pre S data t \<Longrightarrow> can_send t \<Longrightarrow> returns (send_loop env data (t, w)) (\<lambda>_. True)"
  proof (induction "length data" arbitrary: data t w rule: less_induct)
    case less
    show ?case
    proof (cases rule: send_loop_cases [OF less.prems(1) gs, of w, case_names stop pass])
      case stop
      then show ?thesis by simp
    next
      case (pass n buf)
      let ?t1 = "t\<lparr>send_buf := buf, send_buf_tail := send_buf_tail t + of_nat n\<rparr>"
      have "can_send ?t1" using less.prems(2) pass(5) by (simp add: can_send_def)
      from call_output_returns [OF env this, of w] obtain s1 where s1: "call_output env (?t1, w) = Inr s1" by (auto simp: returns_def)
      then have w: "wrote S n (t, w) s1" using pass(4) by simp
      have "can_send (fst s1)"
        using w less.prems(2) by (simp add: can_send_def wrote_def same_half_def snd_inv_def)
      then have "returns (send_loop env (drop n data) (fst s1, snd s1)) (\<lambda>_. True)"
        using less.hyps [of "drop n data" "fst s1" "snd s1"] send_pre_step [OF less.prems(1) w pass(2)] pass(1,2) by simp
      then show ?thesis by (simp add: pass(3) s1)
    qed
  qed
  then show "send_pre S data t \<Longrightarrow> can_send t \<Longrightarrow> returns (send_loop env data (t, w)) (send_done S data (t, w))"
    using send_loop_stream [OF gs, of S data t w] by (auto simp: returns_def ensures_def)
qed

text \<open>Data that fits the free part of the buffer is taken whole.\<close>

lemma send_loop_fits:
  assumes "good_env env" and pre: "send_pre S data t" and "can_send t"
    and fits: "snd_written t - seq_pos t (snd_una t) + length data \<le> SEND_BUF_SIZE"
  obtains t' w' where "send_loop env data (t, w) = Inr ([], t', w')" and "wrote S (length data) (t, w) (t', w')"
proof -
  from send_loop_returns [OF assms(1-3), of w] obtain r where run: "send_loop env data (t, w) = Inr r" and "send_done S data (t, w) r"
    by (auto simp: returns_def)
  then obtain k where k: "k \<le> length data" "fst r = drop k data" "wrote S k (t, w) (snd r)"
    "k < length data \<longrightarrow> snd_written (fst (snd r)) - seq_pos (fst (snd r)) (snd_una (fst (snd r))) = SEND_BUF_SIZE"
    unfolding send_done_def by blast
  have "seq_pos t (snd_una t) \<le> snd_written t" using pre snd_invD(4-6) [of S t] by (simp add: send_pre_def)
  with k fits have "k = length data" by (fastforce simp: wrote_def same_half_def seq_pos_def)
  then show thesis using that run k by (cases r) auto
qed

section \<open>Reading takes from the stream\<close>

definition same_read :: "tcb \<Rightarrow> tcb \<Rightarrow> bool" where
  "same_read t t' \<longleftrightarrow> state t' = state t \<and> iss t' = iss t \<and> irs t' = irs t \<and> rcv_nxt t' = rcv_nxt t \<and> snd_una t' = snd_una t \<and>
     send_buf t' = send_buf t \<and> send_buf_tail t' = send_buf_tail t \<and> rcv_scale t' = rcv_scale t \<and> cc_ops t' = cc_ops t"

lemma rcv_inv_read:
  assumes inv: "rcv_inv R N t" and k: "k \<le> rcv_used t"
  shows "ring_buf_read (recv_buf t) RECV_BUF_SIZE (recv_buf_head t) k = Inr (sub_stream R (N - rcv_used t) k)"
    and "rcv_used (t\<lparr>recv_buf_head := recv_buf_head t + of_nat k\<rparr>) = rcv_used t - k"
    and "rcv_inv R N (t\<lparr>recv_buf_head := recv_buf_head t + of_nat k\<rparr>)"
proof -
  note D = rcv_invD [OF inv]
  show "ring_buf_read (recv_buf t) 1048576 (recv_buf_head t) k = Inr (sub_stream R (N - rcv_used t) k)"
    using ring_read_contents [of "recv_buf t" "recv_buf_tail t" "recv_buf_head t" 0 k] D(2,4,7) k
    by (simp add: rcv_used_def take_sub_stream)
  show used: "rcv_used (t\<lparr>recv_buf_head := recv_buf_head t + of_nat k\<rparr>) = rcv_used t - k"
    using k unat_head_advance [of k "recv_buf_tail t" "recv_buf_head t"] by (simp add: rcv_used_def)
  have "ring_contents (recv_buf t) (recv_buf_head t + of_nat k) (recv_buf_tail t) =
      drop k (sub_stream R (N - rcv_used t) (rcv_used t))"
    using k D(2,4) by (subst ring_drop_contents) (simp_all add: rcv_used_def)
  also have "\<dots> = sub_stream R (N - (rcv_used t - k)) (rcv_used t - k)"
    using k D(3) by (simp add: drop_sub_stream)
  finally show "rcv_inv R N (t\<lparr>recv_buf_head := recv_buf_head t + of_nat k\<rparr>)"
    using D k used by (simp add: rcv_inv_def) linarith
qed

definition read_done :: "(nat \<Rightarrow> u8) \<Rightarrow> nat \<Rightarrow> nat \<Rightarrow> env \<Rightarrow> st \<Rightarrow> u8 list \<times> st \<Rightarrow> bool" where
  "read_done R N k env s r \<longleftrightarrow> fst r = sub_stream R (N - rcv_used (fst s)) k \<and> rcv_inv R N (fst (snd r)) \<and>
     rcv_used (fst (snd r)) = rcv_used (fst s) - k \<and> same_read (fst s) (fst (snd r)) \<and> grows (snd s) (snd (snd r)) \<and>
     (\<forall>S. snd_inv S (fst s) \<and> state (fst s) = TCP_ESTABLISHED \<and> good_socket env \<longrightarrow>
        snd_inv S (fst (snd r)) \<and> (\<forall>d \<in> set (appended (snd s) (snd (snd r))). conveys S (fst s) d))"

lemma read_available_stream:
  assumes inv: "rcv_inv R N t"
  shows "ensures (read_available env len (t, w)) (read_done R N (min len (rcv_used t)) env (t, w))"
proof -
  define k where "k = min len (rcv_used t)"
  define t1 where "t1 = (\<lambda>v f. t\<lparr>recv_buf_head := recv_buf_head t + of_nat k, rcv_wnd := v, t_flags := f\<rparr>)"
  have k: "k \<le> rcv_used t" by (simp add: k_def)
  note rd = rcv_inv_read [OF inv k]
  have t1: "rcv_inv R N (t1 v f)" "rcv_used (t1 v f) = rcv_used t - k" "same_read t (t1 v f)" "snd_inv S (t1 v f) = snd_inv S t" for v f S
    using rd(2,3) same_rcv_inv [of "t\<lparr>recv_buf_head := recv_buf_head t + of_nat k\<rparr>" "t1 v f" R N]
    by (simp_all add: t1_def same_rcv_def rcv_used_def same_read_def snd_inv_def seq_pos_def snd_written_def)
  have quiet: "read_done R N k env (t, w) (sub_stream R (N - rcv_used t) k, t1 v f, w)" for v f
    using t1 by (simp add: read_done_def)
  have out: "ensures (rbind (call_output env (t1 v f, w)) (\<lambda>s. Inr (sub_stream R (N - rcv_used t) k, s))) (read_done R N k env (t, w))" for v f
  proof (rule ensures_rbind)
    show "ensures (call_output env (t1 v f, w)) (\<lambda>s. read_done R N k env (t, w) (sub_stream R (N - rcv_used t) k, s))"
      unfolding ensures_def
    proof (clarify)
      fix t' w'
      assume "call_output env (t1 v f, w) = Inr (t', w')"
      then have c: "same_conn (t1 v f) t'" and "grows w w'" and
        post: "\<And>S. snd_inv S (t1 v f) \<Longrightarrow> state (t1 v f) = TCP_ESTABLISHED \<Longrightarrow> good_socket env \<Longrightarrow>
          snd_inv S t' \<and> (\<forall>d \<in> set (appended w w'). carries S (iss (t1 v f)) d \<and> acks_either (t1 v f) t' d)"
        using safe_step_call_output [of env "t1 v f" w] by (auto simp: safe_step_def)
      have r: "rcv_inv R N t'" "rcv_used t' = rcv_used t - k" "same_read t t'"
        using c t1(1-3) same_rcv_inv [OF same_conn_rcv [OF c], of R N] by (simp_all add: same_conn_def same_read_def rcv_used_def)
      have e: "state (t1 v f) = state t" "iss (t1 v f) = iss t" "rcv_nxt (t1 v f) = rcv_nxt t" "rcv_nxt t' = rcv_nxt t"
        using c by (simp_all add: t1_def same_conn_def)
      show "read_done R N k env (t, w) (sub_stream R (N - rcv_used t) k, t', w')"
        using r \<open>grows w w'\<close> post t1(4) e by (auto simp: read_done_def conveys_def acks_either_def)
    qed
  qed simp
  have "unat (recv_buf_tail t - recv_buf_head t) = rcv_used t" by (simp add: rcv_used_def)
  then have num: "min len (unat (recv_buf_tail t - recv_buf_head t)) = k" by (simp add: k_def)
  show ?thesis
    unfolding k_def [symmetric] read_available_def Let_def prod.case num rd(1) rbind_simps
    using quiet [of _ "t_flags t"] out by (simp add: t1_def)
qed

lemma read_available_returns:
  assumes env: "good_env env" and inv: "rcv_inv R N t" and cs: "can_send t"
  shows "returns (read_available env len (t, w)) (read_done R N (min len (rcv_used t)) env (t, w))"
proof -
  have rd: "ring_buf_read (recv_buf t) 1048576 (recv_buf_head t) (min len (unat (recv_buf_tail t - recv_buf_head t))) =
      Inr (sub_stream R (N - rcv_used t) (min len (rcv_used t)))"
    using rcv_inv_read(1) [OF inv, of "min len (rcv_used t)"] by (simp add: rcv_used_def)
  have "returns (call_output env (t\<lparr>recv_buf_head := a, rcv_wnd := b, t_flags := c\<rparr>, w)) (\<lambda>_. True)" for a b c
    using call_output_returns [OF env] cs by (simp add: can_send_def)
  then have "returns (read_available env len (t, w)) (\<lambda>_. True)"
    by (auto simp: read_available_def rd Let_def returns_def rbind_eq_Inr)
  then show ?thesis
    using read_available_stream [OF inv, of env len w] by (auto simp: returns_def ensures_def)
qed

section \<open>Descriptors and errors\<close>

lemma utcp_get_tcb_Some: "length tbl = 6 \<Longrightarrow> i < 6 \<Longrightarrow> tbl ! i = Some t \<Longrightarrow> utcp_get_tcb tbl (int i) = Inr t"
  by (simp add: utcp_get_tcb_def arr_get_def)

lemma utcp_get_tcb_in_state_Some:
  "length tbl = 6 \<Longrightarrow> i < 6 \<Longrightarrow> tbl ! i = Some t \<Longrightarrow>
    utcp_get_tcb_in_state tbl (int i) s = (if state t = s then Inr t else err_sys ''UTCP socket in invalid state'')"
  by (simp add: utcp_get_tcb_in_state_def utcp_get_tcb_Some)

lemma first_free_le: "first_free tbl \<le> length tbl"
  by (induction tbl rule: first_free.induct) simp_all

lemma first_free_None: "first_free tbl < length tbl \<Longrightarrow> tbl ! first_free tbl = None"
  by (induction tbl rule: first_free.induct) simp_all

lemma first_free_least: "j < first_free tbl \<Longrightarrow> tbl ! j \<noteq> None"
  by (induction tbl arbitrary: j rule: first_free.induct) (auto simp: nth_Cons split: nat.splits)

lemma first_free_full: "first_free tbl = length tbl \<longleftrightarrow> None \<notin> set tbl"
  by (induction tbl rule: first_free.induct) simp_all

lemma scale_from_0: "scale_from 0 = 5"
  by (simp add: scale_from.simps)

lemma new_tcb_simps [simp]:
  "state new_tcb = TCP_CLOSED" "length (send_buf new_tcb) = SEND_BUF_SIZE" "length (recv_buf new_tcb) = RECV_BUF_SIZE"
  "rcv_scale new_tcb = 5" "iss new_tcb = 0" "cc_ops new_tcb = utcp_new_reno" "src_ip new_tcb = 0" "rcv_wnd new_tcb = RECV_BUF_SIZE"
  by (simp_all add: new_tcb_def scale_from_0)

section \<open>Properties\<close>

text \<open>A table with one established connection.\<close>

definition table_of :: "tcb \<Rightarrow> tcb option list" where
  "table_of t = [Some t, None, None, None, None, None]"

lemma table_of_simps [simp]: "length (table_of t) = 6" "table_of t ! 0 = Some t" "(table_of t)[0 := Some t'] = table_of t'"
  by (simp_all add: table_of_def)

text \<open>
  C14: A send on an established connection returns and hands a prefix of the data to the connection: exactly these bytes extend
  the stream in the send buffer, only stream bytes go on the wire, no other block changes, and bytes are left over only when the buffer is full.
\<close>

theorem utcp_send_extends_stream:
  assumes "good_env env" and "length tbl = 6" and "i < 6" and "tbl ! i = Some t" and "state t = TCP_ESTABLISHED"
    and "snd_inv S t" and "unat (rcv_scale t) < 32"
    and "data = sub_stream S (snd_written t) (length data)" and "snd_written t + length data < 2147483647"
  shows "returns (utcp_send env tbl (int i) data w) (\<lambda>(rest, tbl', w'). \<exists>k t'. k \<le> length data \<and> rest = drop k data \<and>
     tbl' = tbl[i := Some t'] \<and> snd_inv S t' \<and> snd_written t' = snd_written t + k \<and> snd_una t' = snd_una t \<and>
     (\<forall>d \<in> set (appended w w'). conveys S t d) \<and>
     (k < length data \<longrightarrow> snd_written t' - seq_pos t' (snd_una t') = SEND_BUF_SIZE))"
proof -
  have "send_pre S data t" "can_send t" using assms(5-9) by (simp_all add: send_pre_def can_send_def snd_inv_def)
  from send_loop_returns [OF assms(1) this, of w] obtain rest t' w' where
    run: "send_loop env data (t, w) = Inr (rest, t', w')" and d: "send_done S data (t, w) (rest, t', w')" by (auto simp: returns_def)
  have get: "utcp_get_tcb_in_state tbl (int i) TCP_ESTABLISHED = Inr t"
    using utcp_get_tcb_in_state_Some [OF assms(2-4)] assms(5) by simp
  have "utcp_send env tbl (int i) data w = Inr (rest, tbl[i := Some t'], w')" by (simp add: utcp_send_def get run)
  with d show ?thesis by (auto simp: send_done_def wrote_def same_half_def same_upto_def)
qed

theorem utcp_send_extends_stream_witness:
  "returns (utcp_send env0 (table_of sample_tcb) 0 [0, 0, 0] world0) (\<lambda>(rest, tbl', w'). \<exists>k t'. k \<le> 3 \<and> rest = drop k [0, 0, 0] \<and>
     tbl' = table_of t' \<and> snd_written t' = 4200 + k)"
proof -
  have "[0, 0, 0 :: u8] = sub_stream (\<lambda>_. 0) (snd_written sample_tcb) (length [0, 0, 0 :: u8])" by (simp add: sub_stream_def upt_rec)
  moreover have "snd_written sample_tcb = 4200" by (simp add: snd_written_def sample_tcb_def)
  ultimately show ?thesis
    using utcp_send_extends_stream [OF good_env0 table_of_simps(1) _ table_of_simps(2) sample_simps(1) sample_inv sample_simps(2),
        of "[0, 0, 0]" world0]
    by (fastforce simp: returns_def)
qed

text \<open>
  C15: A read blocks exactly when nothing is buffered. Otherwise it returns the next bytes of the
  peer's stream, as many as are wanted and buffered; they leave the buffer, and the rest of the
  stream stays in place.
\<close>

theorem utcp_read_takes_stream:
  assumes "good_env env" and "length tbl = 6" and "i < 6" and "tbl ! i = Some t" and "state t = TCP_ESTABLISHED"
    and "rcv_inv R N t" and "can_send t"
  shows "if rcv_used t = 0 then utcp_read env tbl (int i) len w = Inr Blocked
    else \<exists>t' w'. utcp_read env tbl (int i) len w =
        Inr (Done (sub_stream R (N - rcv_used t) (min len (rcv_used t)), tbl[i := Some t'], w')) \<and>
      rcv_inv R N t' \<and> rcv_used t' = rcv_used t - min len (rcv_used t) \<and> same_read t t'"
proof -
  have get: "utcp_get_tcb_in_state tbl (int i) TCP_ESTABLISHED = Inr t"
    using utcp_get_tcb_in_state_Some [OF assms(2-4)] assms(5) by simp
  have e: "recv_buf_head t = recv_buf_tail t \<longleftrightarrow> rcv_used t = 0"
    by (metis eq_iff_diff_eq_0 rcv_used_def unat_0 unat_eq_zero)
  show ?thesis
    using read_available_returns [OF assms(1,6,7), of len w] assms(5)
    by (auto simp: utcp_read_def get read_wait_def e returns_def read_done_def)
qed

theorem utcp_read_takes_stream_witness: "utcp_read env0 (table_of (fresh_rcv\<lparr>rcv_scale := 5\<rparr>)) 0 10 world0 = Inr Blocked"
proof -
  have "rcv_inv (\<lambda>_. 0) 0 (fresh_rcv\<lparr>rcv_scale := 5\<rparr>)" by (simp add: rcv_inv_def fresh_rcv_def rcv_used_def ring_contents_def)
  from utcp_read_takes_stream [OF good_env0 table_of_simps(1) _ table_of_simps(2) _ this, of 10 world0] show ?thesis
    by (simp add: fresh_rcv_def rcv_used_def can_send_def)
qed

text \<open>
  A new socket takes the lowest free descriptor and leaves the others alone; its window scale is
  the smallest shift that fits the buffer into the 16-bit window field. With six sockets open the
  call fails, since descriptors are never released.
\<close>

theorem utcp_socket_allocates:
  assumes "length tbl = 6" and "utcp_initialized pkg"
  shows "if None \<notin> set tbl then utcp_socket env out pkg tbl w = Inl (Err_sys ''Too many UTCP sockets open'')
    else if \<not> malloc env (mallocs w) then utcp_socket env out pkg tbl w = Inl (Err_sys ''calloc failed for TCB'')
    else \<exists>i < 6. \<exists>t w'. utcp_socket env out pkg tbl w = Inr (int i, pkg, tbl[i := Some t], w') \<and>
      tbl ! i = None \<and> (\<forall>j < i. tbl ! j \<noteq> None) \<and> state t = TCP_CLOSED \<and> rcv_wnd t = RECV_BUF_SIZE \<and>
      RECV_BUF_SIZE div 2 ^ unat (rcv_scale t) \<le> (65535 :: nat) \<and> (65535 :: nat) < RECV_BUF_SIZE div 2 ^ (unat (rcv_scale t) - 1)"
proof (cases "None \<in> set tbl \<and> malloc env (mallocs w)")
  case True
  let ?i = "first_free tbl"
  have i: "?i < 6" "tbl ! ?i = None" "\<forall>j < ?i. tbl ! j \<noteq> None"
    using first_free_le [of tbl] first_free_full [of tbl] first_free_None [of tbl] first_free_least [of _ tbl] True assms(1)
    by (auto simp: le_less)
  then have "utcp_socket env out pkg tbl w = Inr (int ?i, pkg, tbl[?i := Some new_tcb], w\<lparr>mallocs := Suc (mallocs w)\<rparr>)"
    using True assms(2) by (simp add: utcp_socket_def utcp_package_init_def try_malloc_def Let_def)
  with True i show ?thesis
    by (auto intro!: exI [of _ ?i] exI [of _ new_tcb])
next
  case False
  then show ?thesis
    using first_free_full [of tbl] assms by (auto simp: utcp_socket_def utcp_package_init_def try_malloc_def err_sys_def Let_def)
qed

definition out0 :: init_outcome where
  "out0 = \<lparr>o_socket = 3, o_bind = 0, o_getsockname = 0, o_port = 1970, o_listening = 0, o_ticking = 0\<rparr>"

definition pkg1 :: package where
  "pkg1 = \<lparr>utcp_initialized = True, udp_fd = 3, UDP_PORT = 1970, threads = 2\<rparr>"

theorem utcp_socket_allocates_witness:
  "\<exists>i < 6. \<exists>t w'. utcp_socket env0 out0 pkg1 (table_of new_tcb) world0 = Inr (int i, pkg1, (table_of new_tcb)[i := Some t], w')"
  using utcp_socket_allocates [of "table_of new_tcb" pkg1 env0 out0 world0]
  by (auto simp: table_of_def env0_def pkg1_def)

text \<open>
  C35: Calls in the wrong state end the process: sending and reading need an established connection,
  binding, listening and connecting a closed socket. Accepting is the exception: on a socket that
  is not listening it returns the descriptor at once, even when no connection exists.
\<close>

theorem api_state_errors:
  assumes "length tbl = 6" and "i < 6" and "tbl ! i = Some t"
  shows "(state t \<noteq> TCP_ESTABLISHED \<longrightarrow>
      utcp_send env tbl (int i) data w = Inl (Err_sys ''UTCP socket in invalid state'') \<and>
      utcp_read env tbl (int i) len w = Inl (Err_sys ''UTCP socket in invalid state'')) \<and>
    (state t \<noteq> TCP_CLOSED \<longrightarrow>
      utcp_bind tbl (int i) addr = Inl (Err_sys ''UTCP socket in invalid state'') \<and>
      utcp_listen tbl (int i) = Inl (Err_sys ''UTCP socket in invalid state'') \<and>
      utcp_connect env tbl (int i) addr w = Inl (Err_sys ''UTCP socket in invalid state'')) \<and>
    (state t \<noteq> TCP_LISTEN \<and> state t \<noteq> TCP_SYN_RECV \<longrightarrow> utcp_accept tbl (int i) = Inr (Done (int i)))"
proof -
  note get = utcp_get_tcb_in_state_Some [OF assms] utcp_get_tcb_Some [OF assms]
  show ?thesis
    by (simp add: utcp_send_def utcp_read_def utcp_bind_def utcp_listen_def utcp_connect_def utcp_accept_def get err_sys_def)
qed

theorem api_state_errors_witness:
  "utcp_send env0 (table_of new_tcb) 0 [1] world0 = Inl (Err_sys ''UTCP socket in invalid state'') \<and>
   utcp_accept (table_of new_tcb) 0 = Inr (Done 0)"
  using api_state_errors [OF table_of_simps(1) _ table_of_simps(2), of new_tcb env0 "[1]" world0] by simp

end
