(* ===== verification/Host.thy ===== *)
theory Host
  imports Receiver Api
begin

text \<open>
  A host: the package, the receive buffer of the listening thread, the descriptor table and the
  surroundings, with one labelled step per call of the socket interface, per received datagram and
  per round of the slow timer. The locks of the code make each of these steps atomic. Every step
  acts on the blocks of the table one at a time, so that invariants of blocks are proved once.
\<close>

section \<open>Steps\<close>

record host =
  h_pkg :: package
  h_buff :: "u8 list"
  h_table :: "tcb option list"
  h_world :: world

datatype event =
    Socket int
  | Bind int
  | Listen int
  | Connect int
  | Wrote int "u8 list" "u8 list"
  | Read int "u8 list"
  | Received dgram
  | Tick

inductive host_step :: "env \<Rightarrow> event \<Rightarrow> host \<Rightarrow> host \<Rightarrow> bool" for env :: env where
  socket: "utcp_socket env out (h_pkg h) (h_table h) (h_world h) = Inr (fd, pkg, tbl, w) \<Longrightarrow>
     host_step env (Socket fd) h (h\<lparr>h_pkg := pkg, h_table := tbl, h_world := w\<rparr>)"
| bind: "utcp_bind (h_table h) fd addr = Inr tbl \<Longrightarrow> host_step env (Bind fd) h (h\<lparr>h_table := tbl\<rparr>)"
| listen: "utcp_listen (h_table h) fd = Inr tbl \<Longrightarrow> host_step env (Listen fd) h (h\<lparr>h_table := tbl\<rparr>)"
| connect: "utcp_connect env (h_table h) fd addr (h_world h) = Inr (tbl, w) \<Longrightarrow>
     host_step env (Connect fd) h (h\<lparr>h_table := tbl, h_world := w\<rparr>)"
| send: "utcp_send env (h_table h) fd data (h_world h) = Inr (rest, tbl, w) \<Longrightarrow>
     host_step env (Wrote fd data rest) h (h\<lparr>h_table := tbl, h_world := w\<rparr>)"
| send_on: "utcp_send_resume env (h_table h) fd data (h_world h) = Inr (rest, tbl, w) \<Longrightarrow>
     host_step env (Wrote fd data rest) h (h\<lparr>h_table := tbl, h_world := w\<rparr>)"
| read: "utcp_read env (h_table h) fd len (h_world h) = Inr (Done (bytes, tbl, w)) \<Longrightarrow>
     host_step env (Read fd bytes) h (h\<lparr>h_table := tbl, h_world := w\<rparr>)"
| input: "utcp_input env (Some d) (h_buff h) (h_table h) (h_world h) = Inr (buff, tbl, w) \<Longrightarrow>
     host_step env (Received d) h (h\<lparr>h_buff := buff, h_table := tbl, h_world := w\<rparr>)"
| tick: "utcp_slowtimo_round env (h_table h) next_tick (h_world h) = Inr (tbl, sleep, next_tick', w) \<Longrightarrow>
     host_step env Tick h (h\<lparr>h_table := tbl, h_world := w\<rparr>)"

inductive_cases host_stepE: "host_step env ev h h'"

text \<open>The state before the first socket: an empty table and whatever the allocator left in the buffer.\<close>

definition host_start :: "host \<Rightarrow> bool" where
  "host_start h \<longleftrightarrow> h_table h = replicate 6 None \<and> length (h_buff h) = 1500"

section \<open>Steps of one block\<close>

inductive block_op :: "env \<Rightarrow> tcb \<Rightarrow> tcb \<Rightarrow> bool" for env :: env where
  bind: "state t = TCP_CLOSED \<Longrightarrow> block_op env t (t\<lparr>src_ip := ip, src_port := port\<rparr>)"
| listen: "state t = TCP_CLOSED \<Longrightarrow> block_op env t (t\<lparr>state := TCP_LISTEN\<rparr>)"
| connect: "state t = TCP_CLOSED \<Longrightarrow>
     call_output env (t\<lparr>dst_ip := ip, dst_port := port, dst_udp_port := 1970, state := TCP_SYN_SENT\<rparr>, w) = Inr (t', w') \<Longrightarrow> block_op env t t'"
| send: "state t = TCP_ESTABLISHED \<Longrightarrow> send_loop env data (t, w) = Inr (rest, t', w') \<Longrightarrow> block_op env t t'"
| read: "state t = TCP_ESTABLISHED \<Longrightarrow> read_wait env len (t, w) = Inr (Done (bytes, t', w')) \<Longrightarrow> block_op env t t'"
| input: "length buff = 1500 \<Longrightarrow> input_segment env from buff hdr data (t, w) = Inr (t', w') \<Longrightarrow> block_op env t t'"
| tick: "slowtimo_tcb env (t, w) = Inr (t', w') \<Longrightarrow> block_op env t t'"

inductive_cases block_opE: "block_op env t t'"

inductive slot_op :: "env \<Rightarrow> tcb option \<Rightarrow> tcb option \<Rightarrow> bool" for env :: env where
  kept: "slot_op env x x"
| created: "slot_op env None (Some new_tcb)"
| moved: "block_op env t t' \<Longrightarrow> slot_op env (Some t) (Some t')"

inductive_simps slot_op_None [simp]: "slot_op env None y"

lemma slot_update:
  assumes "i < length tbl \<Longrightarrow> slot_op env (tbl ! i) y"
  shows "list_all2 (slot_op env) tbl (tbl[i := y])"
  using assms by (cases "i < length tbl") (auto simp: list_all2_conv_all_nth nth_list_update slot_op.kept)

lemma slot_update_fd:
  assumes "utcp_get_tcb tbl fd = Inr t" and "block_op env t t'"
  shows "list_all2 (slot_op env) tbl (tbl[nat fd := Some t'])"
  using assms
  by (intro slot_update) (auto simp: utcp_get_tcb_def err_sys_def arr_get_def rbind_eq_Inr
      intro: slot_op.moved split: if_splits option.splits)

lemma get_tcb_in_stateD:
  "utcp_get_tcb_in_state tbl fd s = Inr t \<Longrightarrow> utcp_get_tcb tbl fd = Inr t \<and> state t = s"
  by (auto simp: utcp_get_tcb_in_state_def err_sys_def rbind_eq_Inr split: if_splits)

lemma utcp_readE:
  assumes "utcp_read env tbl fd len w = Inr (Done (bytes, tbl', w'))"
  obtains t t' where "utcp_get_tcb tbl fd = Inr t" and "state t = TCP_ESTABLISHED"
    and "read_wait env len (t, w) = Inr (Done (bytes, t', w'))" and "tbl' = tbl[nat fd := Some t']"
proof -
  from assms obtain t r where t: "utcp_get_tcb_in_state tbl fd TCP_ESTABLISHED = Inr t" and r: "read_wait env len (t, w) = Inr r"
    by (auto simp: utcp_read_def rbind_eq_Inr)
  with assms that get_tcb_in_stateD [OF t] show thesis
    by (cases r) (auto simp: utcp_read_def)
qed

lemma slowtimo_table_slots:
  "ensures (slowtimo_table env tbl w) (\<lambda>(tbl', w'). list_all2 (slot_op env) tbl tbl')"
proof (induction env tbl w rule: slowtimo_table.induct)
  case (3 env t rest w)
  then show ?case
    by (fastforce simp: ensures_def rbind_eq_Inr intro: slot_op.moved block_op.tick)
qed (auto simp: ensures_def rbind_eq_Inr slot_op.kept)

lemma length_recv_into: "recv_into buff bytes = (buff', n) \<Longrightarrow> length buff' = length buff"
  by (auto simp: recv_into_def Let_def)

lemma utcp_inputE:
  assumes "utcp_input env (Some d) buff tbl w = Inr (buff', tbl', w')"
  obtains n hdr data i t t' where "recv_into buff (dg_bytes d) = (buff', n)" and "deserialize_utcp_packet buff' n = Inr (hdr, data)"
    and "find_tcb tbl hdr (dg_ip d) = Some i" and "tbl ! i = Some t"
    and "input_segment env d buff' hdr data (t, w) = Inr (t', w')" and "tbl' = tbl[i := Some t']"
proof -
  obtain buff1 n where into: "recv_into buff (dg_bytes d) = (buff1, n)" by fastforce
  with assms obtain hdr data where des: "deserialize_utcp_packet buff1 n = Inr (hdr, data)"
    by (auto simp: utcp_input_def Recvfrom_def rbind_eq_Inr)
  with assms into obtain i where i: "find_tcb tbl hdr (dg_ip d) = Some i"
    by (cases "find_tcb tbl hdr (dg_ip d)") (auto simp: utcp_input_def Recvfrom_def)
  with assms into des obtain t where t: "tbl ! i = Some t"
    by (cases "tbl ! i") (auto simp: utcp_input_def Recvfrom_def)
  from assms into des i t that show thesis
    by (auto simp: utcp_input_def Recvfrom_def rbind_eq_Inr)
qed

lemma utcp_input_slots:
  assumes "utcp_input env (Some d) buff tbl w = Inr (buff', tbl', w')" and "length buff = 1500"
  shows "length buff' = 1500 \<and> list_all2 (slot_op env) tbl tbl'"
  using assms(1)
proof (rule utcp_inputE)
  fix n hdr data i t t'
  assume into: "recv_into buff (dg_bytes d) = (buff', n)" and "tbl ! i = Some t"
    "input_segment env d buff' hdr data (t, w) = Inr (t', w')" "tbl' = tbl[i := Some t']"
  then show ?thesis
    using length_recv_into [OF into] assms(2) by (auto intro!: slot_update slot_op.moved block_op.input)
qed

lemma host_step_slots:
  assumes "host_step env ev h h'" and "length (h_buff h) = 1500"
  shows "length (h_buff h') = 1500 \<and> list_all2 (slot_op env) (h_table h) (h_table h')"
  using assms(1)
proof (cases rule: host_step.cases)
  case (socket out fd pkg tbl w)
  then have "tbl = (h_table h)[first_free (h_table h) := Some new_tcb]"
    by (auto simp: utcp_socket_def rbind_eq_Inr err_sys_def Let_def split: if_splits prod.splits)
  then show ?thesis using socket assms(2) first_free_None [of "h_table h"] by (auto intro!: slot_update)
next
  case (input d buff tbl w)
  then show ?thesis using utcp_input_slots assms(2) by simp
next
  case (tick next_tick tbl sleep next_tick' w)
  then obtain w1 where "slowtimo_table env (h_table h) (h_world h) = Inr (tbl, w1)"
    by (auto simp: utcp_slowtimo_round_def rbind_eq_Inr split_beta)
  then show ?thesis using tick assms(2) slowtimo_table_slots [of env "h_table h" "h_world h"] by simp
next
  case (read fd len bytes tbl w)
  then show ?thesis using assms(2) by (auto elim!: utcp_readE intro: slot_update_fd block_op.read)
qed (auto simp: assms(2) utcp_bind_def utcp_listen_def utcp_connect_def utcp_send_def utcp_send_resume_def rbind_eq_Inr err_sys_def
    dest!: get_tcb_in_stateD intro!: slot_update_fd intro: block_op.intros split: if_splits)

section \<open>What every step keeps of a block\<close>

text \<open>The transitions of the connection state that the code makes.\<close>

inductive moves :: "tcp_state \<Rightarrow> tcp_state \<Rightarrow> bool" where
  stay: "moves s s"
| listen: "moves TCP_CLOSED TCP_LISTEN"
| connect: "moves TCP_CLOSED TCP_SYN_SENT"
| syn: "moves TCP_LISTEN TCP_SYN_RECV"
| syn_ack: "moves TCP_SYN_SENT TCP_ESTABLISHED"
| ack: "moves TCP_SYN_RECV TCP_ESTABLISHED"

inductive_simps moves_simps: "moves TCP_CLOSED s" "moves TCP_LISTEN s" "moves TCP_SYN_SENT s" "moves TCP_SYN_RECV s"
  "moves TCP_ESTABLISHED s"

definition block_kept :: "tcb \<Rightarrow> tcb \<Rightarrow> bool" where
  "block_kept t t' \<longleftrightarrow> length (send_buf t') = length (send_buf t) \<and> length (recv_buf t') = length (recv_buf t) \<and>
     rcv_scale t' = rcv_scale t \<and> cc_ops t' = cc_ops t \<and> (iss t = 0 \<longrightarrow> iss t' = 0) \<and> moves (state t) (state t')"

definition block_same :: "tcb \<Rightarrow> tcb \<Rightarrow> bool" where
  "block_same t t' \<longleftrightarrow> length (send_buf t') = length (send_buf t) \<and> length (recv_buf t') = length (recv_buf t) \<and>
     rcv_scale t' = rcv_scale t \<and> cc_ops t' = cc_ops t \<and> iss t' = iss t \<and> state t' = state t"

lemma block_same_trans: "block_same a b \<Longrightarrow> block_same b c \<Longrightarrow> block_same a c"
  by (simp add: block_same_def)

lemma block_same_kept: "block_same t t' \<Longrightarrow> block_kept t t'"
  by (simp add: block_same_def block_kept_def moves.stay)

lemma block_kept_same: "block_kept a b \<Longrightarrow> block_same b c \<Longrightarrow> block_kept a c"
  by (simp add: block_same_def block_kept_def)

lemma same_conn_block: "same_conn t t' \<Longrightarrow> block_same t t'"
  by (simp add: same_conn_def block_same_def)

lemma safe_step_block:
  "safe_step same_conn env t w m \<Longrightarrow> ensures m (\<lambda>(t', w'). block_same t t')"
  "safe_step same_seg env t w m \<Longrightarrow> ensures m (\<lambda>(t', w'). block_same t t')"
  by (auto simp: safe_step_def same_conn_def same_seg_def block_same_def elim!: ensures_mono)

lemmas call_output_block = safe_step_block(1) [OF safe_step_call_output]
lemmas cong_control_block = safe_step_block(1) [OF safe_step_cong_control]
lemmas slowtimo_block = safe_step_block(1) [OF safe_step_slowtimo]
lemmas received_block = safe_step_block(2) [OF safe_step_received]

lemma same_but_options_block: "same_but_options t t' \<Longrightarrow> block_same t t'"
  by (simp add: block_same_def same_but_options_simps)

lemma send_loop_block: "ensures (send_loop env data (t, w)) (\<lambda>(rest, t', w'). block_same t t')"
proof (induction "length data" arbitrary: data t w rule: less_induct)
  case less
  define free where "free = unat (1048576 - (send_buf_tail t - send_buf_head t))"
  show ?case
  proof (cases "data = [] \<or> 1048576 - (send_buf_tail t - send_buf_head t) = 0")
    case True
    then show ?thesis by (subst send_loop.simps) (auto simp: block_same_def Let_def)
  next
    case False
    define n where "n = min (length data) free"
    have n: "length (drop n data) < length data" using False by (simp add: n_def free_def unat_gt_0)
    have "ensures (rbind (ring_buf_write (send_buf t) 1048576 (send_buf_tail t) (take n data) n) (\<lambda>buf.
        rbind (call_output env (t\<lparr>send_buf := buf, send_buf_tail := send_buf_tail t + of_nat n\<rparr>, w)) (send_loop env (drop n data))))
        (\<lambda>(rest, t', w'). block_same t t')"
    proof (rule ensures_rbind [where Q = "\<lambda>buf. length buf = length (send_buf t)"])
      show "ensures (ring_buf_write (send_buf t) 1048576 (send_buf_tail t) (take n data) n) (\<lambda>buf. length buf = length (send_buf t))"
        by (auto simp: ensures_def length_ring_buf_write)
      fix buf :: "u8 list"
      assume "length buf = length (send_buf t)"
      then have b: "block_same t (t\<lparr>send_buf := buf, send_buf_tail := send_buf_tail t + of_nat n\<rparr>)" by (simp add: block_same_def)
      show "ensures (rbind (call_output env (t\<lparr>send_buf := buf, send_buf_tail := send_buf_tail t + of_nat n\<rparr>, w)) (send_loop env (drop n data)))
        (\<lambda>(rest, t', w'). block_same t t')"
      proof (rule ensures_rbind [OF call_output_block])
        fix x :: st
        assume "case x of (t', w') \<Rightarrow> block_same (t\<lparr>send_buf := buf, send_buf_tail := send_buf_tail t + of_nat n\<rparr>) t'"
        then have "block_same t (fst x)" using block_same_trans [OF b] by (cases x) simp
        then show "ensures (send_loop env (drop n data) x) (\<lambda>(rest, t', w'). block_same t t')"
          using less.hyps [OF n, of "fst x" "snd x"] block_same_trans by (auto elim!: ensures_mono)
      qed
    qed
    then show ?thesis
      using False by (subst send_loop.simps) (simp add: Let_def n_def free_def)
  qed
qed

lemma read_wait_block: "ensures (read_wait env len (t, w)) (\<lambda>r. case r of Blocked \<Rightarrow> True | Done (bytes, t', w') \<Rightarrow> block_same t t')"
proof -
  have out: "ensures (rbind (call_output env (t\<lparr>recv_buf_head := a, rcv_wnd := b, t_flags := c\<rparr>, w)) (\<lambda>s. Inr (bytes, s)))
      (\<lambda>(bytes, t', w'). block_same t t')" for a b c bytes
    by (rule ensures_rbind [OF call_output_block]) (auto simp: block_same_def)
  have "ensures (read_available env len (t, w)) (\<lambda>(bytes, t', w'). block_same t t')"
    unfolding read_available_def prod.case Let_def
    by (rule ensures_rbind [where Q = "\<lambda>_. True"]) (auto simp: ensures_def [of _ "\<lambda>_. True"] block_same_def [of t "t\<lparr>recv_buf_head := _, rcv_wnd := _\<rparr>"] intro: out)
  then show ?thesis by (auto simp: read_wait_def block_same_def ensures_def rbind_eq_Inr)
qed

lemma options_block: "length buff = 1500 \<Longrightarrow> ensures (process_window_option buff hdr t) (block_same t)"
  by (metis ensures_mono options_rcv same_but_options_block ensures_simps(2))

lemma input_listen_kept:
  assumes "length buff = 1500" and st: "state t = TCP_LISTEN"
  shows "ensures (input_listen env from buff hdr (t, w)) (\<lambda>(t', w'). block_kept t t')"
proof -
  have "ensures (rbind (GET_SCALED_WIN t2 hdr) (\<lambda>wnd.
      call_output env (t2\<lparr>snd_wnd := wnd, iss := 0, snd_nxt := 0, snd_una := 0, state := TCP_SYN_RECV\<rparr>, w))) (\<lambda>(t', w'). block_kept t t')"
    if "block_same t t2" for t2
  proof (rule ensures_rbind [where Q = "\<lambda>_. True"])
    fix wnd
    have "block_kept t (t2\<lparr>snd_wnd := wnd, iss := 0, snd_nxt := 0, snd_una := 0, state := TCP_SYN_RECV\<rparr>)"
      using that st by (simp add: block_same_def block_kept_def moves_simps)
    then show "ensures (call_output env (t2\<lparr>snd_wnd := wnd, iss := 0, snd_nxt := 0, snd_una := 0, state := TCP_SYN_RECV\<rparr>, w)) (\<lambda>(t', w'). block_kept t t')"
      by (intro ensures_mono [OF call_output_block]) (auto intro: block_kept_same)
  qed (simp add: ensures_def)
  note tail = this
  have "ensures (rbind (process_window_option buff hdr t) (\<lambda>tcb.
      let tcb = tcb\<lparr>dst_port := th_sport hdr, dst_ip := dg_ip from, dst_udp_port := dg_port from, irs := th_seq hdr, rcv_nxt := th_seq hdr + 1\<rparr>
      in rbind (GET_SCALED_WIN tcb hdr) (\<lambda>wnd.
         call_output env (tcb\<lparr>snd_wnd := wnd, iss := 0, snd_nxt := 0, snd_una := 0, state := TCP_SYN_RECV\<rparr>, w)))) (\<lambda>(t', w'). block_kept t t')"
    by (rule ensures_rbind [OF options_block [OF assms(1)]]) (auto simp: Let_def block_same_def intro!: tail)
  then show ?thesis
    by (auto simp: input_listen_def block_kept_def moves.stay)
qed

lemma input_syn_sent_kept:
  assumes "length buff = 1500" and st: "state t = TCP_SYN_SENT"
  shows "ensures (input_syn_sent env buff hdr (t, w)) (\<lambda>(t', w'). block_kept t t')"
proof -
  let ?t1 = "t\<lparr>snd_una := th_ack hdr, irs := th_seq hdr, rcv_nxt := th_seq hdr + 1, state := TCP_ESTABLISHED\<rparr>"
  have k: "block_kept t ?t1" using st by (simp add: block_kept_def moves_simps)
  have out: "ensures (call_output env (t3\<lparr>t_flags := f\<rparr>, w3)) (\<lambda>(t', w'). block_kept t t')" if "block_same ?t1 t3" for t3 w3 f
    using that block_kept_same [OF k] by (intro ensures_mono [OF call_output_block]) (auto simp: block_same_def)
  have cc: "ensures (rbind (cong_control (cc_ops t2) env TCP_CC_EVENT_INIT (set_timer TCPT_REXMT 0 (t2\<lparr>snd_wnd := wnd, t_rxtshift := 0\<rparr>), w))
      (\<lambda>(tcb, w). call_output env (tcb\<lparr>t_flags := set_flag (t_flags tcb) TF_ACKNOW\<rparr>, w))) (\<lambda>(t', w'). block_kept t t')"
    if "block_same ?t1 t2" for t2 wnd
    by (rule ensures_rbind [OF cong_control_block]) (use that in \<open>auto simp: block_same_def intro!: out\<close>)
  have "ensures (rbind (process_window_option buff hdr ?t1) (\<lambda>tcb. rbind (GET_SCALED_WIN tcb hdr) (\<lambda>wnd.
      rbind (cong_control (cc_ops tcb) env TCP_CC_EVENT_INIT (set_timer TCPT_REXMT 0 (tcb\<lparr>snd_wnd := wnd, t_rxtshift := 0\<rparr>), w))
      (\<lambda>(tcb, w). call_output env (tcb\<lparr>t_flags := set_flag (t_flags tcb) TF_ACKNOW\<rparr>, w))))) (\<lambda>(t', w'). block_kept t t')"
    by (rule ensures_rbind [OF options_block [OF assms(1)]], rule ensures_rbind [where Q = "\<lambda>_. True"])
      (auto simp: ensures_def [of _ "\<lambda>_. True"] intro!: cc [simplified])
  then show ?thesis
    by (auto simp: input_syn_sent_def block_kept_def moves.stay)
qed

lemma input_syn_recv_kept:
  assumes "state t = TCP_SYN_RECV"
  shows "ensures (input_syn_recv env hdr (t, w)) (\<lambda>(t', w'). block_kept t t')"
proof -
  have "ensures (cong_control (cc_ops t) env TCP_CC_EVENT_INIT
      (set_timer TCPT_REXMT 0 (t\<lparr>state := TCP_ESTABLISHED, snd_una := th_ack hdr, t_rxtshift := 0\<rparr>), w)) (\<lambda>(t', w'). block_kept t t')"
    using assms by (intro ensures_mono [OF cong_control_block]) (auto simp: block_same_def block_kept_def moves_simps)
  then show ?thesis by (auto simp: input_syn_recv_def block_kept_def moves.stay)
qed

lemma input_segment_kept:
  assumes "length buff = 1500"
  shows "ensures (input_segment env from buff hdr data (t, w)) (\<lambda>(t', w'). block_kept t t')"
proof -
  have rcv: "ensures (handle_received_data env buff hdr data x) (\<lambda>(t', w'). block_kept t t')"
    if "case x of (t', w') \<Rightarrow> block_kept t t'" for x
    using that block_kept_same [of t "fst x"]
      ensures_mono [OF received_block [OF assms, where env = env and t = "fst x" and w = "snd x" and h = hdr and data = data]]
    by (cases x) auto
  have self: "block_kept t t" by (simp add: block_kept_def moves.stay)
  show ?thesis
  proof (cases "state t")
    case TCP_SYN_RECV
    then show ?thesis
      using ensures_rbind [OF input_syn_recv_kept rcv] by (simp add: input_segment_def)
  next
    case TCP_ESTABLISHED
    then show ?thesis using rcv [of "(t, w)"] self by (simp add: input_segment_def)
  qed (use assms self in \<open>simp_all add: input_segment_def input_listen_kept input_syn_sent_kept\<close>)
qed

lemma block_op_kept: "block_op env t t' \<Longrightarrow> block_kept t t'"
proof (induction rule: block_op.induct)
  case (connect t port ip w t' w')
  then show ?case
    using call_output_block [of env "t\<lparr>dst_ip := ip, dst_port := port, dst_udp_port := 1970, state := TCP_SYN_SENT\<rparr>" w]
    by (auto simp: block_same_def block_kept_def moves_simps)
next
  case (send t data w rest t' w')
  then show ?case using send_loop_block [of env data t w] block_same_kept by simp
next
  case (read t len w bytes t' w')
  then show ?case using read_wait_block [of env len t w] block_same_kept by simp
next
  case (input buff d hdr data t w t' w')
  then show ?case using input_segment_kept [of buff env d hdr data t w] by simp
next
  case (tick t w t' w')
  then show ?case using slowtimo_block [of env t w] block_same_kept by simp
qed (simp_all add: block_kept_def moves_simps moves.stay)

section \<open>Invariants of blocks\<close>

interpretation run: transition_system host_start "\<lambda>h h'. \<exists>ev. host_step env ev h h'" for env .

text \<open>What holds of a new block and survives every step of a block holds of every block of a host.\<close>

locale block_invariant =
  fixes J :: "tcb \<Rightarrow> bool"
  assumes created: "J new_tcb"
    and kept: "block_op env t t' \<Longrightarrow> J t \<Longrightarrow> J t'"
begin

lemma table:
  assumes "list_all2 (slot_op env) tbl tbl'" and "\<And>t. Some t \<in> set tbl \<Longrightarrow> J t" and "Some t' \<in> set tbl'"
  shows "J t'"
proof -
  from assms(1,3) obtain x where "x \<in> set tbl" and "slot_op env x (Some t')"
    by (metis in_set_conv_nth list_all2_conv_all_nth)
  from this(2) show ?thesis
    using assms(2) \<open>x \<in> set tbl\<close> created kept by (cases rule: slot_op.cases) auto
qed

lemma reachable_blocks:
  assumes "run.reachable env h"
  shows "length (h_table h) = 6 \<and> length (h_buff h) = 1500 \<and> (\<forall>t. Some t \<in> set (h_table h) \<longrightarrow> J t)"
proof (rule run.invariant [OF assms])
  fix h h'
  assume J: "length (h_table h) = 6 \<and> length (h_buff h) = 1500 \<and> (\<forall>t. Some t \<in> set (h_table h) \<longrightarrow> J t)"
    and "\<exists>ev. host_step env ev h h'"
  then obtain ev where "host_step env ev h h'" by blast
  from host_step_slots [OF this] J have "length (h_buff h') = 1500" "list_all2 (slot_op env) (h_table h) (h_table h')" by simp_all
  with J table show "length (h_table h') = 6 \<and> length (h_buff h') = 1500 \<and> (\<forall>t. Some t \<in> set (h_table h') \<longrightarrow> J t)"
    by (metis list_all2_lengthD)
qed (auto simp: host_start_def)

end

definition open_states :: "tcp_state list" where
  "open_states = [TCP_CLOSED, TCP_LISTEN, TCP_SYN_SENT, TCP_SYN_RECV, TCP_ESTABLISHED]"

interpretation opened: block_invariant "\<lambda>t. state t \<in> set open_states"
proof unfold_locales
  show "state t' \<in> set open_states" if "block_op env t t'" "state t \<in> set open_states" for env t t'
    using block_op_kept [OF that(1)] that(2) by (auto simp: open_states_def block_kept_def moves_simps)
qed (simp add: open_states_def)

section \<open>Properties\<close>

text \<open>A host with one socket, and the same host listening.\<close>

definition pkg0 :: package where
  "pkg0 = \<lparr>utcp_initialized = False, udp_fd = -1, UDP_PORT = -1, threads = 0\<rparr>"

definition host0 :: host where
  "host0 = \<lparr>h_pkg = pkg0, h_buff = zero_bytes 1500, h_table = replicate 6 None, h_world = world0\<rparr>"

definition host1 :: host where
  "host1 = host0\<lparr>h_pkg := pkg1,
     h_table := Some new_tcb # replicate 5 None, h_world := world0\<lparr>mallocs := 1\<rparr>\<rparr>"

lemma utcp_socket_0: "utcp_socket env0 out0 pkg0 (replicate 6 None) world0 =
    Inr (0, pkg1, Some new_tcb # replicate 5 None, world0\<lparr>mallocs := 1\<rparr>)"
proof -
  have "replicate 6 None = None # replicate 5 (None :: tcb option)" by (simp add: numeral_eq_Suc)
  then show ?thesis
    by (simp add: utcp_socket_def utcp_package_init_def start_thread_def out0_def pkg0_def pkg1_def try_malloc_def env0_def world0_def)
qed

lemma host1_reachable: "run.reachable env0 host1"
proof (rule run.reachable.step [OF run.reachable.init])
  show "host_start host0" by (simp add: host_start_def host0_def)
  have "host_step env0 (Socket 0) host0 (host0\<lparr>h_pkg := h_pkg host1, h_table := h_table host1, h_world := h_world host1\<rparr>)"
    by (rule host_step.socket [of _ out0]) (simp add: host0_def host1_def utcp_socket_0)
  then show "\<exists>ev. host_step env0 ev host0 host1" by (auto simp: host1_def)
qed

text \<open>
  C17: The connection state of a block moves only along the handshake: closed to listening or to SYN
  sent, listening to SYN received, and SYN sent or SYN received to established. A block is never
  freed, no closing state is ever entered, and an established connection stays established.
\<close>

theorem connection_state_machine:
  assumes "run.reachable env h" and "host_step env ev h h'" and "i < 6" and "h_table h ! i = Some t"
  shows "\<exists>t'. h_table h' ! i = Some t' \<and> moves (state t) (state t') \<and>
    state t' \<in> {TCP_CLOSED, TCP_LISTEN, TCP_SYN_SENT, TCP_SYN_RECV, TCP_ESTABLISHED}"
proof -
  have inv: "length (h_table h) = 6" "length (h_buff h) = 1500" "state t \<in> set open_states"
    using opened.reachable_blocks [OF assms(1)] assms(3,4) nth_mem [of i "h_table h"] by auto
  from host_step_slots [OF assms(2) inv(2)] inv(1) assms(3,4)
  have "slot_op env (Some t) (h_table h' ! i)" by (metis list_all2_conv_all_nth)
  then show ?thesis
    using inv(3) by (cases rule: slot_op.cases)
      (auto simp: block_kept_def open_states_def moves_simps moves.stay dest!: block_op_kept)
qed

theorem connection_state_machine_witness:
  "\<exists>t'. (h_table host1)[0 := Some (new_tcb\<lparr>state := TCP_LISTEN\<rparr>)] ! 0 = Some t' \<and> moves TCP_CLOSED (state t')"
proof -
  have "utcp_listen (h_table host1) 0 = Inr ((h_table host1)[0 := Some (new_tcb\<lparr>state := TCP_LISTEN\<rparr>)])"
    by (simp add: host1_def utcp_listen_def utcp_get_tcb_in_state_def utcp_get_tcb_def arr_get_def)
  from connection_state_machine [OF host1_reachable host_step.listen [OF this], of 0 new_tcb] show ?thesis
    by (simp add: host1_def)
qed

end
