(* ===== verification/System.thy ===== *)
theory System
  imports Host
begin

text \<open>
  Two hosts with one connection between them. The network delivers any datagram the peer has ever
  sent, any number of times, in any order, or never. Ghost lists record what each application has
  written and read. The invariant ties them together: what has been read is a prefix of what the
  other side has written, and what has been acknowledged has been received.
\<close>

section \<open>Streams of which a prefix is known\<close>

definition agrees :: "u8 list \<Rightarrow> (nat \<Rightarrow> u8) \<Rightarrow> bool" where
  "agrees xs S \<longleftrightarrow> (\<forall>i < length xs. S i = xs ! i)"

definition list_stream :: "u8 list \<Rightarrow> nat \<Rightarrow> u8" where
  "list_stream xs i = (if i < length xs then xs ! i else 0)"

lemma agrees_list_stream [simp]: "agrees xs (list_stream xs)"
  by (simp add: agrees_def list_stream_def)

lemma agrees_appendD: "agrees (xs @ ys) S \<Longrightarrow> agrees xs S"
  by (auto simp: agrees_def nth_append split: if_splits)

lemma sub_stream_agrees: "agrees xs S \<Longrightarrow> p + n \<le> length xs \<Longrightarrow> sub_stream S p n = take n (drop p xs)"
  by (rule nth_equalityI) (auto simp: agrees_def)

lemma sub_stream_new: "agrees (xs @ ys) S \<Longrightarrow> sub_stream S (length xs) (length ys) = ys"
  by (rule nth_equalityI) (auto simp: agrees_def nth_append)

text \<open>Bytes that are the same whatever comes after the prefix lie in the prefix.\<close>

lemma sub_stream_bound:
  assumes "\<And>S. agrees xs S \<Longrightarrow> L = sub_stream S p n" and "0 < n"
  shows "p + n \<le> length xs"
proof (rule ccontr)
  assume "\<not> p + n \<le> length xs"
  define q where "q = p + (n - 1)"
  let ?S = "(list_stream xs)(q := list_stream xs q + 1)"
  have "length xs \<le> q" using \<open>\<not> p + n \<le> length xs\<close> by (simp add: q_def)
  then have "agrees xs ?S" by (auto simp: agrees_def list_stream_def)
  then have "sub_stream ?S p n = sub_stream (list_stream xs) p n" using assms(1) by (metis agrees_list_stream)
  then have "sub_stream ?S p n ! (n - 1) = sub_stream (list_stream xs) p n ! (n - 1)" by simp
  then show False using assms(2) by (simp add: q_def)
qed

definition snd_ok :: "u8 list \<Rightarrow> tcb \<Rightarrow> bool" where
  "snd_ok xs t \<longleftrightarrow> snd_written t = length xs \<and> (\<forall>S. agrees xs S \<longrightarrow> snd_inv S t)"

definition rcv_ok :: "u8 list \<Rightarrow> nat \<Rightarrow> tcb \<Rightarrow> bool" where
  "rcv_ok ys N t \<longleftrightarrow> N \<le> length ys \<and> (\<forall>S. agrees ys S \<longrightarrow> rcv_inv S N t)"

text \<open>A datagram of a connection that has written \<open>xs\<close> and received \<open>N\<close> bytes.\<close>

definition seg_ok :: "u8 list \<Rightarrow> nat \<Rightarrow> dgram \<Rightarrow> bool" where
  "seg_ok xs N d \<longleftrightarrow> (\<forall>S. agrees xs S \<longrightarrow> carries S 0 d) \<and> (\<exists>a \<le> Suc N. acks (of_nat a) d)"

lemma snd_okI: "snd_inv S t \<Longrightarrow> agrees xs S \<Longrightarrow> snd_written t = length xs \<Longrightarrow> snd_ok xs t"
  using snd_inv_upto [of S t] by (auto simp: snd_ok_def agrees_def same_upto_def)

lemma rcv_ok_mono: "rcv_ok ys N t \<Longrightarrow> rcv_ok (ys @ zs) N t"
  by (auto simp: rcv_ok_def dest: agrees_appendD)

lemma seg_ok_mono: "seg_ok xs N d \<Longrightarrow> N \<le> N' \<Longrightarrow> seg_ok (xs @ zs) N' d"
  by (auto simp: seg_ok_def dest: agrees_appendD intro: le_trans)

lemma seg_okI:
  assumes "\<And>S. agrees xs S \<Longrightarrow> carries S 0 d" and "acks (1 + of_nat M) d" and "M \<le> N"
  shows "seg_ok xs N d"
  unfolding seg_ok_def using assms by (auto intro!: exI [of _ "Suc M"])

lemma rcv_ok_nxt: "rcv_ok ys N t \<Longrightarrow> rcv_nxt t = irs t + 1 + of_nat N"
  using rcv_invD(1) [of "list_stream ys" N t] by (simp add: rcv_ok_def)

lemma rcv_ok_used: "rcv_ok ys N t \<Longrightarrow> rcv_used t \<le> N"
  using rcv_invD(3) [of "list_stream ys" N t] by (simp add: rcv_ok_def)

text \<open>The payload of such a datagram is a piece of what was written.\<close>

lemma seg_ok_payload:
  assumes "seg_ok xs N d" and "seg_view d = Inr (h, data)" and "data \<noteq> []"
  shows "unat (th_seq h - 1) + length data \<le> length xs"
  using assms by (intro sub_stream_bound [of xs data]) (auto simp: seg_ok_def carries_def)

section \<open>One endpoint\<close>

definition ep_ok :: "u8 list \<Rightarrow> u8 list \<Rightarrow> nat \<Rightarrow> tcb \<Rightarrow> bool" where
  "ep_ok xs ys N t \<longleftrightarrow> state t = TCP_ESTABLISHED \<and> irs t = 0 \<and> snd_ok xs t \<and> rcv_ok ys N t \<and>
     length xs < 2147483647 \<and> length ys < 2147483647"

lemma ep_okD:
  assumes "ep_ok xs ys N t"
  shows "state t = TCP_ESTABLISHED" and "irs t = 0" and "iss t = 0" and "snd_ok xs t" and "rcv_ok ys N t"
    and "snd_written t = length xs" and "rcv_nxt t = 1 + of_nat N" and "length ys < 2147483647" and "N \<le> length ys"
    and "snd_inv (list_stream xs) t" and "length xs < 2147483647"
  using assms snd_invD(1) [of "list_stream xs" t] rcv_ok_nxt [of ys N t] by (auto simp: ep_ok_def snd_ok_def rcv_ok_def)

text \<open>Datagrams sent in a step.\<close>

definition news :: "u8 list \<Rightarrow> nat \<Rightarrow> world \<Rightarrow> world \<Rightarrow> bool" where
  "news xs N w w' \<longleftrightarrow> grows w w' \<and> (\<forall>d \<in> set (appended w w'). seg_ok xs N d)"

lemma ep_quiet:
  assumes ok: "ep_ok xs ys N t" and step: "safe_step same_conn env t w (Inr (t', w'))" and gs: "good_socket env"
  shows "ep_ok xs ys N t' \<and> snd_una t' = snd_una t \<and> rcv_used t' = rcv_used t \<and> news xs N w w'"
proof -
  note D = ep_okD [OF ok]
  have c: "same_conn t t'" "grows w w'" and post: "\<And>S. agrees xs S \<Longrightarrow> snd_inv S t' \<and>
      (\<forall>d \<in> set (appended w w'). carries S 0 d \<and> acks_either t t' d)"
    using step D(1,3,4) gs by (auto simp: safe_step_def snd_ok_def)
  have "rcv_inv S N t' = rcv_inv S N t" for S using same_rcv_inv [OF same_conn_rcv [OF c(1)]] by simp
  moreover have "seg_ok xs N d" if "d \<in> set (appended w w')" for d
    using post [OF agrees_list_stream] post that c(1) D(7) seg_okI [of xs d N N] by (auto simp: acks_either_def same_conn_def)
  ultimately show ?thesis
    using ok c post by (auto simp: ep_ok_def snd_ok_def rcv_ok_def news_def same_conn_def snd_written_def rcv_used_def)
qed

lemma ep_write:
  assumes ok: "ep_ok xs ys N t" and run: "send_loop env data (t, w) = Inr (rest, t', w')" and gs: "good_socket env"
    and len: "length xs + length data < 2147483647"
  shows "ep_ok (xs @ take (length data - length rest) data) ys N t' \<and> snd_una t' = snd_una t \<and> rcv_used t' = rcv_used t \<and>
    news (xs @ take (length data - length rest) data) N w w'"
proof -
  note D = ep_okD [OF ok]
  let ?S = "list_stream (xs @ data)"
  have S: "agrees xs ?S" by (rule agrees_appendD [of xs data]) simp
  have "ensures (send_loop env data (t, w)) (send_done ?S data (t, w))"
    using D S len sub_stream_new [of xs data ?S] by (intro send_loop_stream [OF gs]) (simp add: snd_ok_def send_pre_def)
  then obtain k where k: "k \<le> length data" "rest = drop k data" and wr: "wrote ?S k (t, w) (t', w')"
    using run by (auto simp: send_done_def)
  let ?zs = "xs @ take k data"
  have zs: "take (length data - length rest) data = take k data" using k by simp
  have agree: "agrees ?zs ?S" using k(1) by (auto simp: agrees_def list_stream_def nth_append)
  have w: "snd_inv ?S t'" "state t' = TCP_ESTABLISHED" "snd_written t' = length ?zs" "same_half t t'" "grows w w'"
    using wr D(6) k by (simp_all add: wrote_def)
  have "seg_ok ?zs N d" if "d \<in> set (appended w w')" for d
  proof (rule seg_okI [of _ _ N])
    have u: "conveys S' t d" if "same_upto (length ?zs) ?S S'" for S'
      using wr that \<open>d \<in> set (appended w w')\<close> w(3) by (simp add: wrote_def)
    show "carries S' 0 d" if "agrees ?zs S'" for S'
      using u [of S'] that agree D(3) by (auto simp: conveys_def same_upto_def agrees_def)
    show "acks (1 + of_nat N) d" using u [of ?S] D(7) by (simp add: conveys_def same_upto_def)
  qed simp
  moreover have "snd_ok ?zs t'" using snd_okI [OF w(1) agree w(3)] .
  moreover have "rcv_inv S N t' = rcv_inv S N t" "rcv_used t' = rcv_used t" for S
    using w(4) by (simp_all add: same_half_def rcv_inv_def rcv_used_def)
  ultimately show ?thesis
    using D w len k unfolding zs by (auto simp: ep_ok_def news_def rcv_ok_def same_half_def)
qed

lemma ep_read:
  assumes ok: "ep_ok xs ys N t" and run: "read_available env len (t, w) = Inr (bytes, t', w')" and gs: "good_socket env"
  shows "ep_ok xs ys N t' \<and> snd_una t' = snd_una t \<and> news xs N w w' \<and>
    take (N - rcv_used t) ys @ bytes = take (N - rcv_used t') ys"
proof -
  note D = ep_okD [OF ok]
  define k where "k = min len (rcv_used t)"
  have rd: "read_done S N k env (t, w) (bytes, t', w')" if "agrees ys S" for S
    using read_available_stream [of S N t env len w] D(5) that run by (auto simp: rcv_ok_def k_def)
  note c = rd [OF agrees_list_stream, unfolded read_done_def, simplified]
  have post: "snd_inv S t' \<and> (\<forall>d \<in> set (appended w w'). conveys S t d)" if "agrees xs S" for S
    using c D(1,4) gs that by (auto simp: snd_ok_def)
  have "seg_ok xs N d" if "d \<in> set (appended w w')" for d
    using post [OF agrees_list_stream] post that D(3,7) by (intro seg_okI [of _ _ N]) (auto simp: conveys_def)
  moreover have "rcv_ok ys N t'" using rd D(9) by (auto simp: rcv_ok_def read_done_def)
  moreover have "snd_ok xs t'" using post c D(6) by (simp add: snd_ok_def same_read_def snd_written_def)
  moreover have u: "rcv_used t \<le> N" "k \<le> rcv_used t" "rcv_used t' = rcv_used t - k"
    using rcv_ok_used [OF D(5)] c by (simp_all add: k_def)
  moreover have "take (N - rcv_used t) ys @ bytes = take (N - rcv_used t') ys"
  proof -
    have "bytes = take k (drop (N - rcv_used t) ys)"
      using c sub_stream_agrees [OF agrees_list_stream, of "N - rcv_used t" k ys] u D(9) by simp
    moreover have "N - rcv_used t' = N - rcv_used t + k" using u by simp
    ultimately show ?thesis by (simp add: take_add)
  qed
  ultimately show ?thesis
    using D(1,2,8,11) c by (auto simp: ep_ok_def news_def same_read_def)
qed

text \<open>The receive buffer holds the datagram, cut to its size; the header is the same and the payload a prefix.\<close>

lemma received_view:
  assumes "recv_into buff (dg_bytes d) = (buff', n)" and "length buff = 1500"
    and "deserialize_utcp_packet buff' n = Inr (hdr, data)" and "seg_view d = Inr (h, dat)"
  shows "hdr = h \<and> (\<exists>m. data = take m dat)"
proof -
  let ?b = "dg_bytes d"
  have n: "n \<le> 1500" "n \<le> length ?b" "buff' = take n ?b @ drop n buff" "length buff' = 1500"
    using assms(1,2) by (auto simp: recv_into_def Let_def)
  have l: "20 \<le> n" using assms(3) by (auto simp: deserialize_utcp_packet_def err_sys_def split: if_splits)
  define o' where "o' = max (data_offset (hdr_of_bytes (take 20 ?b))) 20"
  have tk: "take 20 buff' = take 20 ?b" using n(2,3) l by (simp add: min_def)
  have 1: "hdr = hdr_of_bytes (take 20 ?b)" "data = (if n \<le> o' then [] else take (n - o') (drop o' buff'))"
    using assms(3) l n(1,4) by (auto simp: deserialize_utcp_packet_def tk o'_def Let_def split: if_splits)
  have 2: "h = hdr_of_bytes (take 20 ?b)" "dat = (if length ?b \<le> o' then [] else drop o' ?b)"
    using assms(4) l n(2) by (auto simp: seg_view_def deserialize_utcp_packet_def o'_def Let_def split: if_splits)
  have "data = take (n - o') dat" using n(2) by (simp add: 1(2) 2(2) n(3) drop_take)
  then show ?thesis using 1 2 by auto
qed

lemma seg_ok_stream_segment:
  assumes "seg_ok ys M d" and "seg_view d = Inr (h, dat)" and "data = take m dat" and "agrees ys S"
    and "irs t = 0" and "length ys < 2147483647" and "N \<le> length ys"
  shows "stream_segment S N t (unat (th_seq h - 1)) (th_seq h) data"
proof (cases "data = []")
  case False
  then have "dat \<noteq> []" using assms(3) by auto
  have "dat = sub_stream S (unat (th_seq h - 1)) (length dat)" using assms(1,2,4) by (auto simp: seg_ok_def carries_def)
  then have "data = sub_stream S (unat (th_seq h - 1)) (length data)"
    using take_sub_stream [of "min m (length dat)" "length dat" S "unat (th_seq h - 1)"] assms(3) by (auto simp: min_def)
  moreover have "unat (th_seq h - 1) + length data \<le> length ys"
    using seg_ok_payload [OF assms(1,2) \<open>dat \<noteq> []\<close>] assms(3) by simp
  ultimately show ?thesis using assms(5-7) by (simp add: stream_segment_def)
qed (simp add: stream_segment_def)

text \<open>The new edge does not depend on what comes after the written bytes, and lies within them.\<close>

lemma edge_unique:
  assumes "of_nat a = (of_nat b :: u32)" and "N \<le> a" "a < N + 2147483648" and "N \<le> b" "b < N + 2147483648"
  shows "a = b"
proof -
  have "unat (of_nat (a - N) :: u32) = a - N" "unat (of_nat (b - N) :: u32) = b - N"
    using assms(2-5) by (intro unat_of_nat32; simp)+
  moreover have "(of_nat (a - N) :: u32) = of_nat (b - N)"
    by (simp only: of_nat_diff [OF assms(2)] of_nat_diff [OF assms(4)] assms(1))
  ultimately have "a - N = b - N" by metis
  then show ?thesis using assms(2,4) by linarith
qed

lemma rcv_ok_step:
  assumes ok: "rcv_ok ys N t" and kept: "irs t' = irs t" "recv_buf_head t' = recv_buf_head t"
    and step: "\<And>S. agrees ys S \<Longrightarrow> \<exists>N' \<ge> N. N' < N + 2147483648 \<and> rcv_inv S N' t'"
  shows "\<exists>N' \<ge> N. rcv_ok ys N' t' \<and> N' - rcv_used t' = N - rcv_used t"
proof -
  from step [OF agrees_list_stream] obtain N' where N': "N \<le> N'" "N' < N + 2147483648" "rcv_inv (list_stream ys) N' t'" by blast
  have all: "rcv_inv S N' t'" if "agrees ys S" for S
  proof -
    from step [OF that] obtain M where M: "N \<le> M" "M < N + 2147483648" "rcv_inv S M t'" by blast
    have "of_nat M = (of_nat N' :: u32)" using rcv_invD(1) [OF M(3)] rcv_invD(1) [OF N'(3)] by simp
    then have "M = N'" using M N' by (intro edge_unique [of M N' N])
    then show ?thesis using M by simp
  qed
  have D: "rcv_used t \<le> N" "rcv_used t \<le> 1048576" "recv_buf_tail t = of_nat N" "recv_buf_tail t' = of_nat N'"
    using rcv_invD [of "list_stream ys" N t] rcv_invD(8) [OF N'(3)] ok by (auto simp: rcv_ok_def)
  have "unat (of_nat N + of_nat (N' - N) - recv_buf_head t) = rcv_used t + (N' - N)"
    using D N' by (subst unat_tail_advance) (simp_all add: rcv_used_def)
  moreover have "of_nat N + of_nat (N' - N) = (of_nat N' :: u32)" using N'(1) by (simp flip: of_nat_add)
  ultimately have used: "rcv_used t' = rcv_used t + (N' - N)" using D kept by (simp add: rcv_used_def)
  have "N' \<le> length ys"
  proof (cases "N' = N")
    case False
    have "ring_contents (recv_buf t') (recv_buf_head t') (recv_buf_tail t') = sub_stream S (N' - rcv_used t') (rcv_used t')"
      if "agrees ys S" for S using rcv_invD(4) [OF all [OF that]] .
    from sub_stream_bound [OF this] show ?thesis using used D(1) N'(1) False by simp
  qed (use ok in \<open>simp add: rcv_ok_def\<close>)
  then have "rcv_ok ys N' t'" using all by (simp add: rcv_ok_def)
  moreover have "N' - rcv_used t' = N - rcv_used t" using used D(1) N'(1) by simp
  ultimately show ?thesis using N'(1) by blast
qed

lemma ack_bound:
  assumes "snd_inv S t" and "una_moves h t t'" and "th_ack h = of_nat a" and "a \<le> Suc M" and "M < 2147483647"
    and "iss t' = iss t" and "seq_pos t (snd_una t) \<le> M"
  shows "seq_pos t' (snd_una t') \<le> M"
proof (cases "snd_una t' = snd_una t")
  case False
  then have v: "SEQ_GT (th_ack h) (snd_una t)" "SEQ_LEQ (th_ack h) (snd_max t)" "snd_una t' = th_ack h"
    using assms(2) by (auto simp: una_moves_def)
  note D = snd_invD [OF assms(1)]
  have b: "seq_pos t (th_ack h) < 2147483647" using ack_position(2) [OF assms(1) v(1,2)] D(6,8) by simp
  have "a \<noteq> 0"
  proof
    assume "a = 0"
    then have "seq_pos t (th_ack h) = unat (- 1 :: u32)" using assms(3) by (simp add: seq_pos_def D(1))
    then show False using b by (simp add: unsigned_minus_1_eq_mask mask_eq_exp_minus_1)
  qed
  then have "th_ack h - 1 = of_nat (a - 1)" using assms(3) by (simp add: of_nat_diff)
  moreover have "unat (of_nat (a - 1) :: u32) = a - 1" using assms(4,5) by (intro unat_of_nat32) simp
  ultimately have "seq_pos t (th_ack h) = a - 1" by (simp add: seq_pos_def D(1))
  then show ?thesis using v assms(4,6) by (simp add: seq_pos_def)
qed (use assms in \<open>simp add: seq_pos_def\<close>)

lemma ep_receive:
  assumes ok: "ep_ok xs ys N t" and run: "handle_received_data env buff h data (t, w) = Inr (t', w')" and gs: "good_socket env"
    and buff: "length buff = 1500" and d: "seg_ok ys M d" "seg_view d = Inr (h, dat)" "data = take m dat" and M: "M \<le> length xs"
    and una: "seq_pos t (snd_una t) \<le> M"
  shows "\<exists>N' \<ge> N. ep_ok xs ys N' t' \<and> N' - rcv_used t' = N - rcv_used t \<and> seq_pos t' (snd_una t') \<le> M \<and> news xs N' w w'"
proof -
  note D = ep_okD [OF ok]
  have c: "same_seg t t'" "state t' = state t" "iss t' = iss t" "grows w w'" and post: "\<And>S. agrees xs S \<Longrightarrow> snd_inv S t' \<and>
      (\<forall>d \<in> set (appended w w'). carries S 0 d \<and> acks_either t t' d)"
    using safe_step_received [OF buff, of env t w h data] run D(1,3,4) gs by (auto simp: safe_step_def snd_ok_def)
  have "\<exists>N' \<ge> N. N' < N + 2147483648 \<and> rcv_inv S N' t'" if S: "agrees ys S" for S
  proof -
    have "stream_segment S N t (unat (th_seq h - 1)) (th_seq h) data"
      by (rule seg_ok_stream_segment [OF d S D(2,8,9)])
    from handle_received_data_rcv [OF _ this buff, of env w] S D(5) run show ?thesis by (auto simp: rcv_ok_def)
  qed
  from rcv_ok_step [OF D(5) _ _ this] c obtain N' where N': "N \<le> N'" "rcv_ok ys N' t'" "N' - rcv_used t' = N - rcv_used t"
    by (auto simp: same_seg_def)
  have nxt: "rcv_nxt t' = 1 + of_nat N'" using rcv_ok_nxt [OF N'(2)] c(1) D(2) by (simp add: same_seg_def)
  have "seg_ok xs N' e" if "e \<in> set (appended w w')" for e
  proof -
    have "acks (1 + of_nat N) e \<or> acks (1 + of_nat N') e"
      using post [OF agrees_list_stream] that D(7) nxt by (auto simp: acks_either_def)
    then show ?thesis using post that N'(1) seg_okI [of xs e N N'] seg_okI [of xs e N' N'] by auto
  qed
  moreover have "snd_ok xs t'" using post c D(6) by (simp add: snd_ok_def same_seg_def snd_written_def)
  moreover obtain a where "a \<le> Suc M" "th_ack h = of_nat a" using d(1,2) by (auto simp: seg_ok_def acks_def)
  then have "seq_pos t' (snd_una t') \<le> M"
    using ack_bound [OF D(10) _ _ _ _ c(3) una, of h a] handle_received_una [OF buff, of env h data t w] run M D(11) by simp
  ultimately show ?thesis
    using N' c D(1,2,8,11) by (auto simp: ep_ok_def news_def same_seg_def)
qed

section \<open>Two hosts and a network\<close>

text \<open>The sides are \<^verbatim>\<open>False\<close> and \<^verbatim>\<open>True\<close>; the peer of \<open>s\<close> is \<open>\<not> s\<close>.\<close>

record link =
  hosts :: "bool \<Rightarrow> host"
  written :: "bool \<Rightarrow> u8 list"
  got :: "bool \<Rightarrow> u8 list"

definition deliverable :: "link \<Rightarrow> bool \<Rightarrow> dgram \<Rightarrow> bool" where
  "deliverable l s d \<longleftrightarrow> (\<exists>d' \<in> set (sent (h_world (hosts l (\<not> s)))). dg_bytes d' = dg_bytes d)"

text \<open>
  The applications may write and read at descriptor 0, up to 2 GiB in each direction; threads may
  receive anything the peer has sent, and tick.
\<close>

inductive link_step :: "(bool \<Rightarrow> env) \<Rightarrow> link \<Rightarrow> link \<Rightarrow> bool" for envs :: "bool \<Rightarrow> env" where
  app_write: "host_step (envs s) (Wrote 0 data rest) (hosts l s) h \<Longrightarrow> length (written l s) + length data < 2147483647 \<Longrightarrow>
    link_step envs l (l\<lparr>hosts := (hosts l)(s := h),
      written := (written l)(s := written l s @ take (length data - length rest) data)\<rparr>)"
| app_read: "host_step (envs s) (Read 0 bytes) (hosts l s) h \<Longrightarrow>
    link_step envs l (l\<lparr>hosts := (hosts l)(s := h), got := (got l)(s := got l s @ bytes)\<rparr>)"
| deliver: "host_step (envs s) (Received d) (hosts l s) h \<Longrightarrow> deliverable l s d \<Longrightarrow>
    link_step envs l (l\<lparr>hosts := (hosts l)(s := h)\<rparr>)"
| timer: "host_step (envs s) Tick (hosts l s) h \<Longrightarrow> link_step envs l (l\<lparr>hosts := (hosts l)(s := h)\<rparr>)"

definition host_ok :: "host \<Rightarrow> tcb \<Rightarrow> bool" where
  "host_ok h t \<longleftrightarrow> h_table h = Some t # replicate 5 None \<and> length (h_buff h) = 1500"

text \<open>One side of the link: \<open>N\<close> bytes received here, \<open>M\<close> bytes received by the peer.\<close>

definition side_ok :: "host \<Rightarrow> u8 list \<Rightarrow> u8 list \<Rightarrow> u8 list \<Rightarrow> nat \<Rightarrow> nat \<Rightarrow> tcb \<Rightarrow> bool" where
  "side_ok h xs ys zs N M t \<longleftrightarrow> host_ok h t \<and> ep_ok xs ys N t \<and> zs = take (N - rcv_used t) ys \<and>
     seq_pos t (snd_una t) \<le> M \<and> (\<forall>d \<in> set (sent (h_world h)). seg_ok xs N d)"

definition link_inv :: "link \<Rightarrow> bool" where
  "link_inv l \<longleftrightarrow> (\<exists>T N. \<forall>s. side_ok (hosts l s) (written l s) (written l (\<not> s)) (got l s) (N s) (N (\<not> s)) (T s))"

text \<open>A fresh connection: established on both sides, nothing written, only handshake segments sent.\<close>

definition link_start :: "link \<Rightarrow> bool" where
  "link_start l \<longleftrightarrow> (\<forall>s. written l s = [] \<and> got l s = [] \<and>
     (\<exists>t. host_ok (hosts l s) t \<and> ep_ok [] [] 0 t \<and> snd_una t = 1 \<and> (\<forall>d \<in> set (sent (h_world (hosts l s))). seg_ok [] 0 d)))"

lemma link_start_inv:
  assumes "link_start l"
  shows "link_inv l"
proof -
  from assms obtain T where T: "\<And>s. host_ok (hosts l s) (T s) \<and> ep_ok [] [] 0 (T s) \<and> snd_una (T s) = 1 \<and>
      (\<forall>d \<in> set (sent (h_world (hosts l s))). seg_ok [] 0 d)" and e: "\<And>s. written l s = []" "\<And>s. got l s = []"
    unfolding link_start_def by metis
  have "seq_pos (T s) (snd_una (T s)) = 0" for s using T [of s] ep_okD(3) [of "[]" "[]" 0 "T s"] by (simp add: seq_pos_def)
  with T e show ?thesis unfolding link_inv_def side_ok_def by (intro exI [of _ T] exI [of _ "\<lambda>_. 0"]) simp
qed

section \<open>Steps of a host with one connection\<close>

lemma host_ok_update: "host_ok h t \<Longrightarrow> host_ok (h\<lparr>h_table := (h_table h)[0 := Some t'], h_world := w\<rparr>) t'"
  by (simp add: host_ok_def)

lemma get_tcb_0: "host_ok h t \<Longrightarrow> utcp_get_tcb (h_table h) 0 = Inr t' \<Longrightarrow> t' = t"
  by (simp add: utcp_get_tcb_def arr_get_def host_ok_def)

lemma host_write:
  assumes "host_step env (Wrote 0 data rest) h h'" and ok: "host_ok h t"
  obtains t' w' where "send_loop env data (t, h_world h) = Inr (rest, t', w')" and "host_ok h' t'" and "h_world h' = w'"
  using assms(1)
proof (cases rule: host_step.cases)
  case (send tbl w)
  then obtain t' where "send_loop env data (t, h_world h) = Inr (rest, t', w)" "tbl = (h_table h)[0 := Some t']"
    using get_tcb_0 [OF ok] by (auto simp: utcp_send_def rbind_eq_Inr dest!: get_tcb_in_stateD)
  then show thesis using that send host_ok_update [OF ok] by simp
next
  case (send_on tbl w)
  then obtain t' where "send_loop env data (t, h_world h) = Inr (rest, t', w)" "tbl = (h_table h)[0 := Some t']"
    using get_tcb_0 [OF ok] by (auto simp: utcp_send_resume_def rbind_eq_Inr err_sys_def split: if_splits)
  then show thesis using that send_on host_ok_update [OF ok] by simp
qed

lemma host_read:
  assumes "host_step env (Read 0 bytes) h h'" and ok: "host_ok h t"
  obtains len t' w' where "read_wait env len (t, h_world h) = Inr (Done (bytes, t', w'))" and "host_ok h' t'" and "h_world h' = w'"
  using assms(1)
proof (cases rule: host_step.cases)
  case (read len tbl w)
  from read(2) show thesis
  proof (rule utcp_readE)
    fix t1 t'
    assume "utcp_get_tcb (h_table h) 0 = Inr t1" "read_wait env len (t1, h_world h) = Inr (Done (bytes, t', w))"
      "tbl = (h_table h)[nat 0 := Some t']"
    then show thesis using that read(1) get_tcb_0 [OF ok] host_ok_update [OF ok] by simp
  qed
qed

lemma slowtimo_free: "slowtimo_table env (replicate n None) w = Inr (replicate n None, w)"
  by (induction n) simp_all

lemma host_tick:
  assumes "host_step env Tick h h'" and ok: "host_ok h t"
  obtains t' w' where "slowtimo_tcb env (t, h_world h) = Inr (t', w')" and "host_ok h' t'" and "sent (h_world h') = sent w'"
  using assms(1)
proof (cases rule: host_step.cases)
  case (tick next_tick tbl sleep next_tick' w)
  then obtain w1 now where 1: "slowtimo_table env (h_table h) (h_world h) = Inr (tbl, w1)" "get_current_time_ms env w1 = Inr (now, w)"
    by (auto simp: utcp_slowtimo_round_def rbind_eq_Inr split_beta)
  then obtain t' where "slowtimo_tcb env (t, h_world h) = Inr (t', w1)" "tbl = Some t' # replicate 5 None"
    using ok by (auto simp: host_ok_def rbind_eq_Inr slowtimo_free)
  moreover have "sent w = sent w1" using 1(2) by (auto simp: get_current_time_ms_def err_sys_def split: option.splits)
  ultimately show thesis using that tick(1) ok by (simp add: host_ok_def)
qed

lemma find_tcb_from_free: "find_tcb_from i lm (replicate n None) hdr ip = lm"
  by (induction n arbitrary: i) simp_all

lemma host_receive:
  assumes "host_step env (Received d) h h'" and ok: "host_ok h t"
  obtains n hdr data t' w' where "recv_into (h_buff h) (dg_bytes d) = (h_buff h', n)"
    and "deserialize_utcp_packet (h_buff h') n = Inr (hdr, data)"
    and "input_segment env d (h_buff h') hdr data (t, h_world h) = Inr (t', w')" and "host_ok h' t'" and "h_world h' = w'"
  using assms(1)
proof (cases rule: host_step.cases)
  case (input buff tbl w)
  from input(2) show thesis
  proof (rule utcp_inputE)
    fix n hdr data i t1 t'
    assume a: "recv_into (h_buff h) (dg_bytes d) = (buff, n)" "deserialize_utcp_packet buff n = Inr (hdr, data)"
      "find_tcb (h_table h) hdr (dg_ip d) = Some i" "h_table h ! i = Some t1"
      "input_segment env d buff hdr data (t1, h_world h) = Inr (t', w)" "tbl = (h_table h)[i := Some t']"
    have "i = 0" using a(3) ok by (auto simp: find_tcb_def host_ok_def find_tcb_from_free split: if_splits)
    then show thesis using that a input(1) ok length_recv_into [OF a(1)] by (simp add: host_ok_def)
  qed
qed

section \<open>The invariant\<close>

lemma sent_news:
  assumes "\<forall>d \<in> set (sent w). seg_ok xs N d" and "news (xs @ vs) N' w w'" and "N \<le> N'"
  shows "\<forall>d \<in> set (sent w'). seg_ok (xs @ vs) N' d"
proof -
  have "set (sent w') = set (sent w) \<union> set (appended w w')" using assms(2) by (metis grows_def news_def set_append)
  then show ?thesis using assms seg_ok_mono by (auto simp: news_def)
qed

lemma side_mono:
  assumes "side_ok h xs ys zs N M t" and "M \<le> M'" and "length (ys @ vs) < 2147483647"
  shows "side_ok h xs (ys @ vs) zs N M' t"
proof -
  have "ep_ok xs ys N t" using assms(1) by (simp add: side_ok_def)
  then have "ep_ok xs (ys @ vs) N t" "N \<le> length ys" using assms(3) rcv_ok_mono by (auto simp: ep_ok_def rcv_ok_def)
  then show ?thesis using assms(1,2) by (auto simp: side_ok_def)
qed

lemma link_inv_update:
  assumes all: "\<forall>s. side_ok (hosts l s) (written l s) (written l (\<not> s)) (got l s) (N s) (N (\<not> s)) (T s)"
    and new: "side_ok h (written l s @ vs) (written l (\<not> s)) zs N' (N (\<not> s)) t'" and "N s \<le> N'"
  shows "link_inv (l\<lparr>hosts := (hosts l)(s := h), written := (written l)(s := written l s @ vs), got := (got l)(s := zs)\<rparr>)"
proof -
  have "length (written l s @ vs) < 2147483647" using new by (simp add: side_ok_def ep_ok_def)
  moreover have "side_ok (hosts l (\<not> s)) (written l (\<not> s)) (written l s) (got l (\<not> s)) (N (\<not> s)) (N s) (T (\<not> s))"
    using spec [OF all, of "\<not> s"] by simp
  ultimately have other: "side_ok (hosts l (\<not> s)) (written l (\<not> s)) (written l s @ vs) (got l (\<not> s)) (N (\<not> s)) N' (T (\<not> s))"
    using side_mono assms(3) by blast
  have ne: "(\<not> s) \<noteq> s" by simp
  show ?thesis
    unfolding link_inv_def
  proof (intro exI [of _ "T(s := t')"] exI [of _ "N(s := N')"] allI)
    fix r
    show "side_ok (hosts (l\<lparr>hosts := (hosts l)(s := h), written := (written l)(s := written l s @ vs), got := (got l)(s := zs)\<rparr>) r)
      (written (l\<lparr>hosts := (hosts l)(s := h), written := (written l)(s := written l s @ vs), got := (got l)(s := zs)\<rparr>) r)
      (written (l\<lparr>hosts := (hosts l)(s := h), written := (written l)(s := written l s @ vs), got := (got l)(s := zs)\<rparr>) (\<not> r))
      (got (l\<lparr>hosts := (hosts l)(s := h), written := (written l)(s := written l s @ vs), got := (got l)(s := zs)\<rparr>) r)
      ((N(s := N')) r) ((N(s := N')) (\<not> r)) ((T(s := t')) r)"
      using new other ne by (cases "r = s") (auto simp: fun_upd_def)
  qed
qed

text \<open>The four kinds of step, on one side.\<close>

lemma side_write:
  assumes "side_ok h xs ys zs N M t" and "host_step env (Wrote 0 data rest) h h'" and "good_socket env"
    and "length xs + length data < 2147483647"
  shows "\<exists>t'. side_ok h' (xs @ take (length data - length rest) data) ys zs N M t'"
proof -
  have A: "host_ok h t" "ep_ok xs ys N t" "zs = take (N - rcv_used t) ys" "seq_pos t (snd_una t) \<le> M"
    "\<forall>d \<in> set (sent (h_world h)). seg_ok xs N d" using assms(1) by (simp_all add: side_ok_def)
  from host_write [OF assms(2) A(1)] obtain t' where run: "send_loop env data (t, h_world h) = Inr (rest, t', h_world h')" and "host_ok h' t'"
    by metis
  with ep_write [OF A(2) run assms(3,4)] A sent_news [OF A(5)] ep_okD(3) [OF A(2)] ep_okD(3) [of _ ys N t'] show ?thesis
    unfolding side_ok_def by (intro exI [of _ t']) (auto simp: seq_pos_def)
qed

lemma side_read:
  assumes "side_ok h xs ys zs N M t" and "host_step env (Read 0 bytes) h h'" and gs: "good_socket env"
  shows "\<exists>t'. side_ok h' xs ys (zs @ bytes) N M t'"
proof -
  have A: "host_ok h t" "ep_ok xs ys N t" "zs = take (N - rcv_used t) ys" "seq_pos t (snd_una t) \<le> M"
    "\<forall>d \<in> set (sent (h_world h)). seg_ok xs N d" using assms(1) by (simp_all add: side_ok_def)
  note D = ep_okD [OF A(2)]
  from host_read [OF assms(2) A(1)] obtain len t' where run: "read_wait env len (t, h_world h) = Inr (Done (bytes, t', h_world h'))"
    and "host_ok h' t'" by metis
  then have "read_available env len (t, h_world h) = Inr (bytes, t', h_world h')"
    using D(1) by (auto simp: read_wait_def rbind_eq_Inr split: if_splits)
  from ep_read [OF A(2) this gs] A \<open>host_ok h' t'\<close> sent_news [OF A(5), of "[]"] D(3) ep_okD(3) [of xs ys N t'] show ?thesis
    unfolding side_ok_def by (intro exI [of _ t']) (auto simp: seq_pos_def)
qed

lemma side_tick:
  assumes "side_ok h xs ys zs N M t" and "host_step env Tick h h'" and gs: "good_socket env"
  shows "\<exists>t'. side_ok h' xs ys zs N M t'"
proof -
  have A: "host_ok h t" "ep_ok xs ys N t" "zs = take (N - rcv_used t) ys" "seq_pos t (snd_una t) \<le> M"
    "\<forall>d \<in> set (sent (h_world h)). seg_ok xs N d" using assms(1) by (simp_all add: side_ok_def)
  from host_tick [OF assms(2) A(1)] obtain t' w' where run: "slowtimo_tcb env (t, h_world h) = Inr (t', w')"
    and "host_ok h' t'" and w: "sent (h_world h') = sent w'" by metis
  have "safe_step same_conn env t (h_world h) (Inr (t', w'))" using safe_step_slowtimo [of env t "h_world h"] run by simp
  from ep_quiet [OF A(2) this gs] A \<open>host_ok h' t'\<close> sent_news [OF A(5), of "[]" N w'] ep_okD(3) [OF A(2)] ep_okD(3) [of xs ys N t'] w
  show ?thesis unfolding side_ok_def by (intro exI [of _ t']) (auto simp: seq_pos_def)
qed

lemma side_receive:
  assumes "side_ok h xs ys zs N M t" and "host_step env (Received d) h h'" and gs: "good_socket env"
    and d: "seg_ok ys M d'" "dg_bytes d' = dg_bytes d" and M: "M \<le> length xs"
  shows "\<exists>N' \<ge> N. \<exists>t'. side_ok h' xs ys zs N' M t'"
proof -
  have A: "host_ok h t" "ep_ok xs ys N t" "zs = take (N - rcv_used t) ys" "seq_pos t (snd_una t) \<le> M"
    "\<forall>d \<in> set (sent (h_world h)). seg_ok xs N d" using assms(1) by (simp_all add: side_ok_def)
  from host_receive [OF assms(2) A(1)] obtain n hdr data t' where
    into: "recv_into (h_buff h) (dg_bytes d) = (h_buff h', n)" and des: "deserialize_utcp_packet (h_buff h') n = Inr (hdr, data)"
    and run: "input_segment env d (h_buff h') hdr data (t, h_world h) = Inr (t', h_world h')" and h': "host_ok h' t'" by metis
  obtain hd dat where v: "seg_view d' = Inr (hd, dat)" using d(1) by (auto simp: seg_ok_def acks_def returns_def)
  have "length (h_buff h) = 1500" "length (h_buff h') = 1500" using A(1) h' by (simp_all add: host_ok_def)
  with received_view [of "h_buff h" d' "h_buff h'" n hdr data hd dat] into des d(2) v obtain m where "hdr = hd" "data = take m dat" by auto
  moreover have "handle_received_data env (h_buff h') hdr data (t, h_world h) = Inr (t', h_world h')"
    using run ep_okD(1) [OF A(2)] by (simp add: input_segment_def)
  ultimately obtain N' where "N \<le> N'" "ep_ok xs ys N' t'" "N' - rcv_used t' = N - rcv_used t" "seq_pos t' (snd_una t') \<le> M"
    "news xs N' (h_world h) (h_world h')"
    using ep_receive [OF A(2) _ gs _ d(1) _ _ M A(4)] v \<open>length (h_buff h') = 1500\<close> by metis
  with A h' sent_news [OF A(5), of "[]" N'] have "side_ok h' xs ys zs N' M t'" unfolding side_ok_def by auto
  then show ?thesis using \<open>N \<le> N'\<close> by blast
qed

lemma link_inv_step:
  assumes "link_inv l" and "link_step envs l l'" and gs: "\<And>s. good_socket (envs s)"
  shows "link_inv l'"
proof -
  from assms(1) obtain T N where all: "\<forall>s. side_ok (hosts l s) (written l s) (written l (\<not> s)) (got l s) (N s) (N (\<not> s)) (T s)"
    unfolding link_inv_def by blast
  note side = spec [OF all]
  from assms(2) show ?thesis
  proof cases
    case (app_write s data rest h)
    from side_write [OF side app_write(2) gs app_write(3)] obtain t' where
      "side_ok h (written l s @ take (length data - length rest) data) (written l (\<not> s)) (got l s) (N s) (N (\<not> s)) t'" by blast
    from link_inv_update [OF all this] show ?thesis by (simp add: app_write(1))
  next
    case (app_read s bytes h)
    from side_read [OF side app_read(2) gs] obtain t' where
      "side_ok h (written l s @ []) (written l (\<not> s)) (got l s @ bytes) (N s) (N (\<not> s)) t'" by auto
    from link_inv_update [OF all this] show ?thesis by (simp add: app_read(1))
  next
    case (timer s h)
    from side_tick [OF side timer(2) gs] obtain t' where
      "side_ok h (written l s @ []) (written l (\<not> s)) (got l s) (N s) (N (\<not> s)) t'" by auto
    from link_inv_update [OF all this] show ?thesis by (simp add: timer(1))
  next
    case (deliver s d h)
    then obtain d' where "d' \<in> set (sent (h_world (hosts l (\<not> s))))" "dg_bytes d' = dg_bytes d" by (auto simp: deliverable_def)
    moreover have "\<forall>d \<in> set (sent (h_world (hosts l (\<not> s)))). seg_ok (written l (\<not> s)) (N (\<not> s)) d" "N (\<not> s) \<le> length (written l s)"
      using side [of "\<not> s"] ep_okD(9) by (auto simp: side_ok_def)
    ultimately obtain N' t' where "N s \<le> N'" "side_ok h (written l s @ []) (written l (\<not> s)) (got l s) N' (N (\<not> s)) t'"
      using side_receive [OF side deliver(2) gs, of d'] by auto
    from link_inv_update [OF all this(2,1)] show ?thesis by (simp add: deliver(1))
  qed
qed

interpretation duplex: transition_system link_start "link_step envs" for envs .

lemma reachable_link_inv:
  assumes "duplex.reachable envs l" and "\<And>s. good_socket (envs s)"
  shows "link_inv l"
  using assms(1) by (rule duplex.invariant) (auto intro: link_start_inv link_inv_step assms(2))

lemma link_invE:
  assumes "link_inv l"
  obtains t t' where "h_table (hosts l s) ! 0 = Some t" and "h_table (hosts l (\<not> s)) ! 0 = Some t'"
    and "got l s @ drop (length (got l s)) (written l (\<not> s)) = written l (\<not> s)"
    and "unat (send_buf_head t) \<le> unat (rcv_nxt t' - 1)" and "unat (rcv_nxt t' - 1) \<le> length (written l s)"
    and "unat (send_buf_tail t) = length (written l s)"
proof -
  from assms obtain T N where side: "\<And>s. side_ok (hosts l s) (written l s) (written l (\<not> s)) (got l s) (N s) (N (\<not> s)) (T s)"
    unfolding link_inv_def by blast
  have tbl: "h_table (hosts l s) ! 0 = Some (T s)" for s using side [of s] by (simp add: side_ok_def host_ok_def)
  have ok: "ep_ok (written l s) (written l (\<not> s)) (N s) (T s)" for s using side [of s] by (simp add: side_ok_def)
  note D = ep_okD [OF ok]
  have "unat (rcv_nxt (T (\<not> s)) - 1) = N (\<not> s)"
    using D(7,8,9) [of "\<not> s"] unat_of_nat32 [of "N (\<not> s)"] by simp
  moreover have "unat (send_buf_head (T s)) \<le> N (\<not> s)"
    using side [of s] snd_invD(3) [OF D(10)] by (simp add: side_ok_def)
  moreover have "got l s @ drop (length (got l s)) (written l (\<not> s)) = written l (\<not> s)"
    using side [of s] by (metis append_take_drop_id length_take min.absorb2 min_def side_ok_def take_all_iff nat_le_linear append_Nil2 drop_all)
  ultimately show thesis
    using that [OF tbl tbl] D(9) [of "\<not> s"] D(6) [of s] by (simp add: snd_written_def)
qed

section \<open>A byte channel\<close>

text \<open>
  What the connection promises in each direction: a bounded queue of bytes, to which one end appends
  the bytes \<open>vs\<close> and from which the other takes the bytes \<open>us\<close>.
\<close>

inductive channel :: "nat \<Rightarrow> u8 list \<Rightarrow> u8 list \<Rightarrow> u8 list \<Rightarrow> u8 list \<Rightarrow> bool" for cap :: nat where
  idle: "channel cap q [] [] q"
| put: "length (q @ vs) \<le> cap \<Longrightarrow> channel cap q vs [] (q @ vs)"
| get: "channel cap (us @ q) [] us q"

text \<open>
  The queue as the two control blocks hold it, for the direction towards \<open>s\<close>: the receive buffer
  here, then what the peer's send buffer holds beyond the receive edge.
\<close>

definition transit :: "link \<Rightarrow> bool \<Rightarrow> u8 list" where
  "transit l s = (case (h_table (hosts l (\<not> s)) ! 0, h_table (hosts l s) ! 0) of
     (Some t, Some t') \<Rightarrow>
       ring_contents (recv_buf t') (recv_buf_head t') (recv_buf_tail t') @
       drop (unat (rcv_nxt t' - 1) - unat (send_buf_head t)) (ring_contents (send_buf t) (send_buf_head t) (send_buf_tail t))
   | _ \<Rightarrow> [])"

text \<open>What one buffer holds of the bytes written.\<close>

lemma rcv_ok_contents:
  assumes "rcv_ok ys N t"
  shows "ring_contents (recv_buf t) (recv_buf_head t) (recv_buf_tail t) = take (rcv_used t) (drop (N - rcv_used t) ys)"
    and "rcv_used t \<le> RECV_BUF_SIZE"
proof -
  have inv: "rcv_inv (list_stream ys) N t" and N: "N \<le> length ys" using assms by (auto simp: rcv_ok_def)
  show "ring_contents (recv_buf t) (recv_buf_head t) (recv_buf_tail t) = take (rcv_used t) (drop (N - rcv_used t) ys)"
    using rcv_invD(3,4) [OF inv] N by (simp add: sub_stream_agrees)
  show "rcv_used t \<le> RECV_BUF_SIZE" using rcv_invD(7) [OF inv] by simp
qed

lemma snd_ok_contents:
  assumes "snd_ok xs t"
  shows "ring_contents (send_buf t) (send_buf_head t) (send_buf_tail t) = drop (unat (send_buf_head t)) xs"
    and "length xs - unat (send_buf_head t) \<le> SEND_BUF_SIZE"
proof -
  have inv: "snd_inv (list_stream xs) t" and len: "snd_written t = length xs" using assms by (auto simp: snd_ok_def)
  have "seq_pos t (snd_una t) \<le> length xs" using inv len by (simp add: snd_inv_def)
  then have "sub_stream (list_stream xs) (seq_pos t (snd_una t)) (length xs - seq_pos t (snd_una t)) = drop (seq_pos t (snd_una t)) xs"
    using sub_stream_agrees [OF agrees_list_stream, of "seq_pos t (snd_una t)" "length xs - seq_pos t (snd_una t)" xs] by simp
  then show "ring_contents (send_buf t) (send_buf_head t) (send_buf_tail t) = drop (unat (send_buf_head t)) xs"
    using inv len by (simp add: snd_inv_def)
  show "length xs - unat (send_buf_head t) \<le> SEND_BUF_SIZE" using inv len by (simp add: snd_inv_def)
qed

text \<open>The two buffers together hold exactly what has been written and not yet read.\<close>

lemma written_got_transit:
  assumes "link_inv l"
  shows "written l (\<not> s) = got l s @ transit l s" and "length (transit l s) \<le> SEND_BUF_SIZE + RECV_BUF_SIZE"
proof -
  from assms obtain T N where side: "\<And>s. side_ok (hosts l s) (written l s) (written l (\<not> s)) (got l s) (N s) (N (\<not> s)) (T s)"
    unfolding link_inv_def by blast
  have tbl: "h_table (hosts l s) ! 0 = Some (T s)" for s using side [of s] by (simp add: side_ok_def host_ok_def)
  have ok: "ep_ok (written l s) (written l (\<not> s)) (N s) (T s)" for s using side [of s] by (simp add: side_ok_def)
  note D = ep_okD [OF ok]
  define ys where "ys = written l (\<not> s)"
  have edge: "unat (rcv_nxt (T s) - 1) = N s" using D(7,8,9) [of s] unat_of_nat32 [of "N s"] by simp
  have head: "unat (send_buf_head (T (\<not> s))) \<le> N s"
    using side [of "\<not> s"] snd_invD(3) [OF D(10)] by (simp add: side_ok_def)
  note R = rcv_ok_contents [OF D(5) [of s]] and X = snd_ok_contents [OF D(4) [of "\<not> s"]]
  have tr: "transit l s = take (rcv_used (T s)) (drop (N s - rcv_used (T s)) ys) @ drop (N s) ys"
    using head by (simp add: transit_def tbl edge R(1) X(1) ys_def)
  have "rcv_used (T s) \<le> N s" by (rule rcv_ok_used [OF D(5)])
  then have "drop (N s) ys = drop (rcv_used (T s)) (drop (N s - rcv_used (T s)) ys)" by simp
  then have "transit l s = drop (N s - rcv_used (T s)) ys" using tr by (simp only: append_take_drop_id)
  moreover have "got l s = take (N s - rcv_used (T s)) ys" using side [of s] by (simp add: side_ok_def ys_def)
  ultimately show "written l (\<not> s) = got l s @ transit l s" by (simp add: ys_def)
  show "length (transit l s) \<le> SEND_BUF_SIZE + RECV_BUF_SIZE" using tr R(2) X(2) head by (simp add: ys_def)
qed

lemma link_step_channel:
  assumes "link_inv l" and "link_inv l'" and "link_step envs l l'"
  shows "\<exists>vs us. written l' (\<not> s) = written l (\<not> s) @ vs \<and> got l' s = got l s @ us \<and>
    channel (SEND_BUF_SIZE + RECV_BUF_SIZE) (transit l s) vs us (transit l' s)"
proof -
  note q = written_got_transit(1) [OF assms(1), of s] and q' = written_got_transit [OF assms(2), of s]
  have "(\<exists>vs. written l' (\<not> s) = written l (\<not> s) @ vs \<and> got l' s = got l s) \<or>
      (\<exists>us. written l' (\<not> s) = written l (\<not> s) \<and> got l' s = got l s @ us)"
    using assms(3) by cases auto
  then show ?thesis
  proof (elim disjE exE conjE)
    fix vs assume "written l' (\<not> s) = written l (\<not> s) @ vs" "got l' s = got l s"
    then show ?thesis using q q' channel.put [of "transit l s" vs] by auto
  next
    fix us assume "written l' (\<not> s) = written l (\<not> s)" "got l' s = got l s @ us"
    then show ?thesis using q q' channel.get [of _ us "transit l' s"] by auto
  qed
qed

section \<open>A connection to start from\<close>

definition est_tcb :: tcb where
  "est_tcb = (calloc_tcb utcp_new_reno)\<lparr>state := TCP_ESTABLISHED, snd_una := 1, snd_nxt := 1, snd_max := 1, rcv_nxt := 1,
     snd_wnd := 65535, cwnd := 4200, ssthresh := 0xFFFFFFFF, t_rxtcur := 100, rcv_scale := 5\<rparr>"

definition host_est :: host where
  "host_est = \<lparr>h_pkg = pkg1, h_buff = zero_bytes 1500, h_table = Some est_tcb # replicate 5 None, h_world = world0\<rparr>"

definition link0 :: link where
  "link0 = \<lparr>hosts = (\<lambda>_. host_est), written = (\<lambda>_. []), got = (\<lambda>_. [])\<rparr>"

lemma est_tcb_ok: "snd_inv S est_tcb" "ep_ok [] [] 0 est_tcb" "can_send est_tcb" "state est_tcb = TCP_ESTABLISHED" "snd_written est_tcb = 0"
  "seq_pos est_tcb 1 = 0" "snd_una est_tcb = 1"
proof -
  show s: "snd_inv S est_tcb" for S
    by (simp add: snd_inv_def est_tcb_def seq_pos_def snd_written_def ring_contents_def)
  have "rcv_inv S 0 est_tcb" for S by (simp add: rcv_inv_def est_tcb_def rcv_used_def ring_contents_def)
  with s show "ep_ok [] [] 0 est_tcb" by (simp add: ep_ok_def snd_ok_def rcv_ok_def) (simp add: est_tcb_def snd_written_def)
qed (simp_all add: est_tcb_def can_send_def snd_written_def seq_pos_def)

lemma link0_start: "link_start link0"
  using est_tcb_ok by (simp add: link_start_def link0_def host_est_def host_ok_def world0_def)

lemma good_socket0: "good_socket env0"
  by (simp add: good_socket_def env0_def)

text \<open>The first application writes three bytes.\<close>

lemma send_example:
  "\<exists>t w. utcp_send env0 (h_table host_est) 0 [1, 2, 3] (h_world host_est) = Inr ([], (h_table host_est)[nat 0 := Some t], w)"
proof -
  let ?data = "[1, 2, 3] :: u8 list"
  have "send_pre (list_stream ?data) ?data est_tcb"
    using est_tcb_ok sub_stream_new [of "[]" ?data "list_stream ?data"] by (simp add: send_pre_def)
  moreover have "snd_written est_tcb - seq_pos est_tcb (snd_una est_tcb) + length ?data \<le> SEND_BUF_SIZE" by (simp add: est_tcb_ok(5))
  ultimately obtain t' w' where run: "send_loop env0 ?data (est_tcb, world0) = Inr ([], t', w')"
    using send_loop_fits [OF good_env0 _ est_tcb_ok(3)] by metis
  have "utcp_send env0 (h_table host_est) 0 ?data (h_world host_est) = Inr ([], (h_table host_est)[nat 0 := Some t'], w')"
    using run est_tcb_ok(4)
    by (simp add: utcp_send_def utcp_get_tcb_in_state_def utcp_get_tcb_def arr_get_def host_est_def)
  then show ?thesis by blast
qed

lemma link_write_example:
  "\<exists>l. duplex.reachable (\<lambda>_. env0) l \<and> link_step (\<lambda>_. env0) link0 l \<and> written l False = [1, 2, 3] \<and> got l True = []"
proof -
  let ?data = "[1, 2, 3] :: u8 list"
  obtain t w where "utcp_send env0 (h_table host_est) 0 ?data (h_world host_est) = Inr ([], (h_table host_est)[nat 0 := Some t], w)"
    using send_example by blast
  from host_step.send [OF this] have "host_step env0 (Wrote 0 ?data []) (hosts link0 False)
      (host_est\<lparr>h_table := (h_table host_est)[nat 0 := Some t], h_world := w\<rparr>)" by (simp add: link0_def)
  from link_step.app_write [of "\<lambda>_. env0", OF this] have step: "link_step (\<lambda>_. env0) link0 (link0\<lparr>
      hosts := (hosts link0)(False := host_est\<lparr>h_table := (h_table host_est)[nat 0 := Some t], h_world := w\<rparr>),
      written := (written link0)(False := ?data)\<rparr>)" by (simp add: link0_def)
  with duplex.reachable.step [OF duplex.reachable.init [OF link0_start] step] show ?thesis by (fastforce simp: link0_def)
qed

section \<open>Properties\<close>

text \<open>
  C1: End to end, over a network that loses, repeats and reorders datagrams, and with timers firing
  at any moment: what one application has read is always a prefix of what the other has written.
\<close>

theorem end_to_end_prefix:
  assumes "duplex.reachable envs l" and "\<And>s. good_socket (envs s)"
  shows "\<exists>us. written l (\<not> s) = got l s @ us"
  using link_invE [OF reachable_link_inv [OF assms], of s] by metis

theorem end_to_end_prefix_witness:
  "\<exists>l us. duplex.reachable (\<lambda>_. env0) l \<and> written l False = [1, 2, 3] \<and> [1, 2, 3] = got l True @ us"
  using link_write_example end_to_end_prefix [of "\<lambda>_. env0", OF _ good_socket0, where s = True] by fastforce

text \<open>
  C2: Reliability: a byte leaves the sender's buffer only after the peer has received it in order,
  and the peer never expects a byte beyond what was written. Every byte that is not yet received is still in the send
  buffer.
\<close>

theorem acknowledged_is_received:
  assumes "duplex.reachable envs l" and "\<And>s. good_socket (envs s)"
  shows "\<exists>t t'. h_table (hosts l s) ! 0 = Some t \<and> h_table (hosts l (\<not> s)) ! 0 = Some t' \<and>
    unat (send_buf_head t) \<le> unat (rcv_nxt t' - 1) \<and> unat (rcv_nxt t' - 1) \<le> length (written l s) \<and>
    unat (send_buf_tail t) = length (written l s)"
  using link_invE [OF reachable_link_inv [OF assms], of s] by metis

theorem acknowledged_is_received_witness:
  "\<exists>l t. duplex.reachable (\<lambda>_. env0) l \<and> h_table (hosts l False) ! 0 = Some t \<and> unat (send_buf_tail t) = 3"
proof -
  from link_write_example obtain l where l: "duplex.reachable (\<lambda>_. env0) l" "written l False = [1, 2, 3]" by blast
  from acknowledged_is_received [of "\<lambda>_. env0", OF l(1) good_socket0, of False] l show ?thesis by auto
qed

text \<open>
  C3: Refinement: in each direction the bytes held by the two ring buffers, the receiver's and then the part of
  the sender's beyond the receive edge, are a bounded FIFO queue. A write appends exactly the bytes
  it accepted, a read takes its bytes from the front, and every other step leaves the queue as it is:
  delivering, dropping, repeating, reordering, acknowledging and resending move bytes between the buffers and
  neither lose nor duplicate one. The queue never holds more than the two buffers.
\<close>

theorem link_refines_channel:
  assumes "duplex.reachable envs l" and "link_step envs l l'" and "\<And>s. good_socket (envs s)"
  shows "\<exists>vs us. written l' (\<not> s) = written l (\<not> s) @ vs \<and> got l' s = got l s @ us \<and>
    channel (SEND_BUF_SIZE + RECV_BUF_SIZE) (transit l s) vs us (transit l' s)"
  using link_step_channel [OF _ link_inv_step assms(2)] reachable_link_inv [OF assms(1,3)] assms(2,3) by blast

theorem link_refines_channel_witness:
  "\<exists>l. link_step (\<lambda>_. env0) link0 l \<and> transit link0 True = [] \<and> transit l True = [1, 2, 3]"
proof -
  from link_write_example obtain l where l: "link_step (\<lambda>_. env0) link0 l" "written l False = [1, 2, 3]" "got l True = []" by blast
  have e: "transit link0 True = []" by (simp add: transit_def link0_def host_est_def est_tcb_def ring_contents_def)
  from link_refines_channel [of "\<lambda>_. env0", OF duplex.reachable.init [OF link0_start] l(1) good_socket0, of True]
  have "channel (SEND_BUF_SIZE + RECV_BUF_SIZE) [] [1, 2, 3] [] (transit l True)" using l e by (simp add: link0_def)
  then have "transit l True = [1, 2, 3]" by (auto elim: channel.cases)
  with l(1) e show ?thesis by blast
qed

end
