(* ===== verification/Handshake.thy ===== *)
theory Handshake
  imports System
begin

text \<open>
  From two sockets to a connection: how a datagram finds its block, the three-way handshake, and
  what becomes of it when a segment is lost and the retransmission timer fires.
\<close>

section \<open>One segment without data\<close>

text \<open>
  A pass that sends a SYN, or an acknowledgement on demand, and nothing else.
\<close>

lemma lone_segment:
  assumes env: "good_env env" and cs: "can_send t" and dl: "output_data_length t = 0"
    and why: "force \<or> has_flag (tcp_outflags (state t)) (TH_SYN OR TH_FIN) \<and> snd_nxt t = snd_max t"
  obtains d w' where "output_loop env force 0 t w = Inr (sendto env (length (sent w)) d,
      advance_send 0 (has_flag (tcp_outflags (state t)) (TH_SYN OR TH_FIN) \<and> snd_nxt t = snd_max t) (cancel_delack t), w')"
    and "sent w' = sent w @ [d]" and "is_segment t (snd_nxt t) (tcp_outflags (state t)) [] d"
proof -
  have "can_send (cancel_delack t)" using cs can_send_cong [OF same_but_output_parts(1)] by simp
  from utcp_send_segment_returns [OF env this, of 0 "snd_nxt t" "tcp_outflags (state t)" w]
  obtain r w' where seg: "utcp_send_segment env (cancel_delack t) (snd_nxt t) (tcp_outflags (state t)) 0 w = Inr (r, w')" and r: "0 \<le> r"
    by (auto simp: returns_def)
  from send_segment_effect [OF seg] r obtain d where d: "sent w' = sent w @ [d]" "r = sendto env (length (sent w)) d"
    "is_segment t (snd_nxt t) (tcp_outflags (state t)) [] d" by auto
  have "output_iter env (tcp_outflags (state t)) force t w = Inr (False, r,
      advance_send 0 (has_flag (tcp_outflags (state t)) (TH_SYN OR TH_FIN) \<and> snd_nxt t = snd_max t) (cancel_delack t), w')"
    using why seg r dl by (auto simp: output_iter_def Let_def)
  then show thesis
    using that [of d w'] d by (simp add: output_loop.simps [of env force 0])
qed

text \<open>Opening a connection: the SYN, or the SYN with an acknowledgement.\<close>

lemma syn_output:
  assumes "good_env env" and "can_send t" and st: "state t = TCP_SYN_SENT \<or> state t = TCP_SYN_RECV"
    and "snd_nxt t = 0" and "snd_max t = 0" and "t_flags t = 0"
  obtains d w' where "call_output env (t, w) = Inr (advance_send 0 True t, w')" and "sent w' = sent w @ [d]"
    and "is_segment t 0 (tcp_outflags (state t)) [] d"
proof -
  have dl: "output_data_length t = 0" and c: "cancel_delack t = t" and f: "\<not> has_flag (t_flags t) TF_ACKNOW"
    using assms by (auto simp: output_data_length_def cancel_delack_def has_flag_def)
  have syn: "has_flag (tcp_outflags (state t)) (TH_SYN OR TH_FIN) \<and> snd_nxt t = snd_max t" using assms(4,5) st by auto
  obtain d w' where
    out: "output_loop env False 0 t w = Inr (sendto env (length (sent w)) d,
        advance_send 0 (has_flag (tcp_outflags (state t)) (TH_SYN OR TH_FIN) \<and> snd_nxt t = snd_max t) (cancel_delack t), w')"
      "sent w' = sent w @ [d]" "is_segment t (snd_nxt t) (tcp_outflags (state t)) [] d"
    by (rule lone_segment [OF assms(1,2) dl disjI2 [OF syn], of False w])
  from out(1) have "call_output env (t, w) = Inr (advance_send 0 True t, w')"
    unfolding c eqTrueI [OF syn] using f by (simp add: call_output_def utcp_output_def Let_def)
  then show thesis by (rule that) (use out assms(4) in simp_all)
qed

text \<open>A demanded acknowledgement when nothing else is due.\<close>

lemma is_segment_flags [simp]: "is_segment (t\<lparr>t_flags := f\<rparr>) seq flags payload d = is_segment t seq flags payload d"
  by (simp add: is_segment_def SET_SCALED_WIN_def recv_free_space_def segment_header_def)

lemma ack_output:
  assumes "good_env env" and "can_send t" and est: "state t = TCP_ESTABLISHED" and "output_data_length t = 0"
  obtains d t' w' where "call_output env (t\<lparr>t_flags := set_flag (t_flags t) TF_ACKNOW\<rparr>, w) = Inr (t', w')" and "sent w' = sent w @ [d]"
    and "is_segment t (snd_nxt t) TH_ACK [] d" and "t' = t\<lparr>t_flags := t_flags t', t_timer := t_timer t'\<rparr>"
    and "\<not> has_flag (t_flags t') TF_ACKNOW"
proof -
  let ?t = "t\<lparr>t_flags := clear_flag (set_flag (t_flags t) TF_ACKNOW) TF_ACKNOW\<rparr>"
  have "send_window ?t = send_window t" "buffered_data ?t = buffered_data t"
    by (simp_all add: send_window_def buffered_data_def Let_def)
  then have "output_data_length ?t = output_data_length t"
    by (simp add: output_data_length_def Let_def)
  then have dl: "output_data_length ?t = 0" "can_send ?t"
    using assms(2,4) by (simp_all add: can_send_def)
  have "\<not> has_flag TH_ACK (TH_SYN OR TH_FIN)" by (simp add: has_flag_def)
  with lone_segment [OF assms(1) dl(2,1), of True w] est obtain d w' where
    out: "output_loop env True 0 ?t w = Inr (sendto env (length (sent w)) d, cancel_delack ?t, w')" "sent w' = sent w @ [d]"
    and seg: "is_segment t (snd_nxt t) TH_ACK [] d" by auto
  have "call_output env (t\<lparr>t_flags := set_flag (t_flags t) TF_ACKNOW\<rparr>, w) = Inr (cancel_delack ?t, w')"
    using out by (simp add: call_output_def utcp_output_def Let_def)
  then show thesis by (rule that [OF _ out(2) seg]) (simp_all add: cancel_delack_def)
qed

lemma quiet_output:
  assumes "state t = TCP_ESTABLISHED" and "output_data_length t = 0" and "\<not> has_flag (t_flags t) TF_ACKNOW"
  shows "call_output env (t, w) = Inr (t, w)"
proof -
  have "\<not> has_flag TH_ACK (TH_SYN OR TH_FIN)" by (simp add: has_flag_def)
  then show ?thesis
    using assms by (simp add: call_output_def utcp_output_def output_loop.simps [of env False 0 t] output_iter_def Let_def)
qed

section \<open>A segment arrives\<close>

lemma segment_arrives:
  assumes seg: "is_segment t seq flags payload d" and len: "length payload \<le> MSS" and buff: "length buff = 1500"
    and "dg_bytes d' = dg_bytes d"
  obtains buff' n h ts where "recv_into buff (dg_bytes d') = (buff', n)" and "length buff' = 1500"
    and "deserialize_utcp_packet buff' n = Inr (h, payload)"
    and "th_sport h = src_port t" "th_dport h = dst_port t" "th_seq h = seq" "th_ack h = rcv_nxt t" "th_flags h = flags"
    and "SET_SCALED_WIN t flags (recv_free_space t) = Inr (th_win h)"
    and "\<And>x. process_window_option buff' h x = Inr (if has_flag flags TH_SYN
        then x\<lparr>snd_scale := rcv_scale t, scale_enabled := True, ts_recent := ts, ts_enabled := True\<rparr>
        else x\<lparr>ts_recent := ts, ts_enabled := True\<rparr>)"
proof -
  define k where "k = (if has_flag flags TH_SYN then 16 else 12 :: nat)"
  from seg obtain win a b where win: "SET_SCALED_WIN t flags (recv_free_space t) = Inr win" and bytes: "dg_bytes d = hdr_to_bytes (segment_header t seq flags k win) @ build_options flags (rcv_scale t) a b @ payload"
    by (auto simp: is_segment_def returns_def k_def)
  define h where "h = segment_header t seq flags k win"
  define opts where "opts = build_options flags (rcv_scale t) a b"
  have k: "length opts = k" by (simp add: opts_def length_build_options k_def)
  have off: "data_offset h = 20 + length opts" using data_offset_segment_header [OF opts_def, of t seq win] k by (simp add: h_def)
  define n where "n = 20 + length opts + length payload"
  have n: "length (dg_bytes d') = n" "n \<le> 1500" using bytes assms(4) len k by (simp_all add: n_def opts_def k_def)
  have into: "recv_into buff (dg_bytes d') = (hdr_to_bytes h @ opts @ payload @ drop n buff, n)"
    using n buff bytes assms(4) by (simp add: recv_into_def h_def opts_def)
  note p = segment_parses [OF opts_def off, of payload "drop n buff"]
  have "length (hdr_to_bytes h @ opts @ payload @ drop n buff) = 1500" using n buff by (simp add: n_def)
  moreover have "th_sport h = src_port t" "th_dport h = dst_port t" "th_seq h = seq" "th_ack h = rcv_nxt t" "th_flags h = flags"
    "SET_SCALED_WIN t flags (recv_free_space t) = Inr (th_win h)"
    by (simp_all add: h_def segment_header_def win)
  ultimately show thesis using that [OF into _ p(1) [folded n_def], of a] p(2) by blast
qed

text \<open>A datagram without data on a host with one socket: the socket is found and handles the segment.\<close>

definition match :: "tcb \<Rightarrow> tcphdr \<Rightarrow> u32 \<Rightarrow> bool" where
  "match x h ip \<longleftrightarrow> src_port x = th_dport h \<and> (state x = TCP_LISTEN \<or> dst_port x = th_sport h \<and> dst_ip x = ip)"

lemma find_tcb_single: "match x h ip \<Longrightarrow> find_tcb (Some x # replicate 5 None) h ip = Some 0"
  by (auto simp: find_tcb_def match_def numeral_eq_Suc)

lemma input_delivers:
  assumes "recv_into buff (dg_bytes d) = (buff', n)" and "deserialize_utcp_packet buff' n = Inr (h, data)"
    and "match x h (dg_ip d)" and "input_segment env d buff' h data (x, w) = Inr (x', w')"
  shows "utcp_input env (Some d) buff (Some x # replicate 5 None) w = Inr (buff', Some x' # replicate 5 None, w')"
  using assms find_tcb_single [OF assms(3)] by (simp add: utcp_input_def Recvfrom_def)

section \<open>Blocks during the handshake\<close>

text \<open>The buffers are empty and the options are those of a new socket.\<close>

definition idle :: "tcb \<Rightarrow> bool" where
  "idle t \<longleftrightarrow> iss t = 0 \<and> rcv_scale t = 5 \<and> cc_ops t = utcp_new_reno \<and> t_flags t = 0 \<and>
     length (send_buf t) = SEND_BUF_SIZE \<and> send_buf_head t = 0 \<and> send_buf_tail t = 0 \<and>
     length (recv_buf t) = RECV_BUF_SIZE \<and> recv_buf_head t = 0 \<and> recv_buf_tail t = 0 \<and> ooo_head t = [] \<and> ooo_bytes t = 0"

lemma idle_new: "idle (new_tcb\<lparr>src_ip := a, src_port := p, state := s\<rparr>)" "idle (new_tcb\<lparr>src_ip := a, src_port := p\<rparr>)"
  by (simp_all add: idle_def) (simp_all add: new_tcb_def)

lemma idle_can_send: "idle t \<Longrightarrow> can_send t"
  by (simp add: idle_def can_send_def)

lemma idle_no_data: "idle t \<Longrightarrow> output_data_length t = 0"
  using output_data_length_fits(3) [of t] by (fastforce simp: idle_def buffered_data_def)

lemma idle_established:
  assumes "idle t" and "state t = TCP_ESTABLISHED" and "irs t = 0" and "rcv_nxt t = 1"
    and "snd_una t = 1" and "snd_nxt t = 1" and "snd_max t = 1"
  shows "ep_ok [] [] 0 t"
proof -
  have "snd_inv S t" for S using assms by (simp add: idle_def snd_inv_def seq_pos_def snd_written_def ring_contents_def)
  moreover have "rcv_inv S 0 t" for S using assms by (simp add: idle_def rcv_inv_def rcv_used_def ring_contents_def)
  ultimately show ?thesis using assms by (simp add: ep_ok_def snd_ok_def rcv_ok_def idle_def snd_written_def)
qed

lemma ep_ok_flags [simp]: "ep_ok xs ys N (t\<lparr>t_flags := f, t_timer := g\<rparr>) = ep_ok xs ys N t"
  by (simp add: ep_ok_def snd_ok_def rcv_ok_def snd_inv_def rcv_inv_def seq_pos_def snd_written_def rcv_used_def)

text \<open>
  A connection at rest: everything written is acknowledged, everything received is read, no acknowledgement is due, and the
  windows admit a full segment. The bound of the congestion window excludes wrap-around for as long as the streams stay below 2 GiB.
\<close>

definition calm :: "tcb \<Rightarrow> bool" where
  "calm t \<longleftrightarrow> ssthresh_floor t \<and> cc_ops t = utcp_new_reno \<and> ca_state t \<noteq> TCP_CA_RECOVERY \<and> unat (snd_scale t) \<le> 5 \<and> rcv_scale t = 5 \<and>
     MSS \<le> unat (snd_wnd t) \<and> MSS \<le> unat (cwnd t) \<and> unat (cwnd t) \<le> 2147483648 + unat (snd_una t) \<and> unat (t_rxtshift t) \<le> 12"

definition resting :: "tcb \<Rightarrow> bool" where
  "resting t \<longleftrightarrow> recv_buf_head t = recv_buf_tail t \<and> ooo_head t = [] \<and> \<not> has_flag (t_flags t) TF_ACKNOW \<and> calm t"

definition settled :: "u8 list \<Rightarrow> u8 list \<Rightarrow> tcb \<Rightarrow> bool" where
  "settled xs ys t \<longleftrightarrow> ep_ok xs ys (length ys) t \<and> snd_nxt t = snd_una t \<and> seq_pos t (snd_una t) = length xs \<and> resting t"

definition link_settled :: "link \<Rightarrow> bool" where
  "link_settled l \<longleftrightarrow> link_inv l \<and> (\<exists>T. \<forall>s. host_ok (hosts l s) (T s) \<and> settled (written l s) (written l (\<not> s)) (T s) \<and>
     src_port (T s) = dst_port (T (\<not> s)))"

text \<open>A block whose connection has just been opened.\<close>

definition fresh :: "tcb \<Rightarrow> bool" where
  "fresh t \<longleftrightarrow> state t = TCP_ESTABLISHED \<and> irs t = 0 \<and> rcv_nxt t = 1 \<and> snd_una t = 1 \<and> snd_nxt t = 1 \<and> snd_max t = 1 \<and>
     cwnd t = 4200 \<and> ssthresh t = 0xFFFFFFFF \<and> ca_state t = TCP_CA_OPEN \<and> t_rxtshift t = 0 \<and> snd_scale t = 5 \<and> MSS \<le> unat (snd_wnd t)"

lemma fresh_settled:
  assumes "idle t" and "fresh t" and "\<not> has_flag f TF_ACKNOW"
  shows "settled [] [] (t\<lparr>t_flags := f, t_timer := g\<rparr>)"
proof -
  have "ep_ok [] [] 0 t" using assms idle_established by (simp add: fresh_def)
  then show ?thesis using assms by (simp add: settled_def) (simp add: idle_def fresh_def resting_def calm_def ssthresh_floor_def seq_pos_def)
qed

lemma settled_start: "settled [] [] t \<Longrightarrow> ep_ok [] [] 0 t \<and> snd_una t = 1"
  using snd_invD(1) [OF ep_okD(10), of "[]" "[]" 0 t] by (auto simp: settled_def seq_pos_def unat_eq_0)

lemma advance_syn:
  "advance_send 0 True t = t\<lparr>snd_nxt := snd_nxt t + 1, snd_max := 1, t_timer := t_timer (advance_send 0 True t)\<rparr>"
  if "snd_nxt t = 0" and "snd_max t = 0"
  using that by (simp add: advance_send_def Let_def SEQ_GT_def)

text \<open>A segment of the handshake carries no byte of the stream and acknowledges at most the SYN.\<close>

lemma handshake_seg_ok:
  assumes "is_segment t seq flags [] d" and "rcv_nxt t = of_nat a" and "a \<le> 1"
  shows "seg_ok [] 0 d"
proof -
  from assms(1) obtain h where "seg_view d = Inr (h, [])" "th_ack h = rcv_nxt t"
    by (auto simp: is_segment_def returns_def segment_header_def)
  then show ?thesis using assms(2,3) by (auto simp: seg_ok_def carries_def acks_def intro!: exI [of _ a])
qed

section \<open>The four moves\<close>

text \<open>A segment without data from port \<open>p\<close> to port \<open>q\<close> that offers the scale and the window of an empty receive buffer.\<close>

lemma unat_win: "unat (ucast (x :: u16) :: u32) = unat x"
  using unsigned_less [of x, where 'a = nat] by (simp add: unsigned_ucast_eq take_bit_nat_eq_self)

definition unread :: "tcb \<Rightarrow> bool" where
  "unread t \<longleftrightarrow> recv_buf_head t \<noteq> recv_buf_tail t \<or> ooo_bytes t \<noteq> 0"

definition bare :: "u16 \<Rightarrow> u16 \<Rightarrow> u32 \<Rightarrow> u32 \<Rightarrow> u8 \<Rightarrow> dgram \<Rightarrow> bool" where
  "bare p q seq a flags d \<longleftrightarrow> (\<exists>t. is_segment t seq flags [] d \<and> rcv_nxt t = a \<and> src_port t = p \<and> dst_port t = q \<and> rcv_scale t = 5 \<and> \<not> unread t)"

lemma open_window:
  assumes "SET_SCALED_WIN t flags (recv_free_space t) = Inr win" and "rcv_scale t = 5" and "\<not> unread t"
  shows "32768 \<le> unat win"
proof -
  have "recv_free_space t = 1048576" using assms(3) by (simp add: recv_free_space_def unread_def)
  then show ?thesis using assms(1,2) by (auto simp: SET_SCALED_WIN_def drop_bit_eq_div unsigned_ucast_eq split: if_splits)
qed

text \<open>A block whose SYN is on its way.\<close>

definition started :: "tcp_state \<Rightarrow> u16 \<Rightarrow> u16 \<Rightarrow> u32 \<Rightarrow> tcb \<Rightarrow> bool" where
  "started st p q ip t \<longleftrightarrow> idle t \<and> state t = st \<and> snd_nxt t = 1 \<and> snd_max t = 1 \<and> src_port t = p \<and> dst_port t = q \<and> dst_ip t = ip"

lemma connect_move:
  assumes "good_env env" and "idle t" and "state t = TCP_CLOSED" and "snd_nxt t = 0" and "snd_max t = 0" and "rcv_nxt t = 0"
  obtains t' w' d where "utcp_connect env (Some t # replicate 5 None) 0 \<lparr>sin_family = AF_INET, sin_addr = ip, sin_port = port\<rparr> w =
      Inr (Some t' # replicate 5 None, w')" and "sent w' = sent w @ [d]" and "seg_ok [] 0 d"
    and "started TCP_SYN_SENT (src_port t) port ip t'" and "bare (src_port t) port 0 0 TH_SYN d"
proof -
  let ?t = "t\<lparr>dst_ip := ip, dst_port := port, dst_udp_port := 1970, state := TCP_SYN_SENT\<rparr>"
  have i: "idle ?t" using assms(2) by (simp add: idle_def)
  obtain d w' where out: "call_output env (?t, w) = Inr (advance_send 0 True ?t, w')" "sent w' = sent w @ [d]"
    and seg: "is_segment ?t 0 (tcp_outflags (state ?t)) [] d"
    by (rule syn_output [OF assms(1) idle_can_send [OF i]]) (use assms in \<open>auto simp: idle_def\<close>)
  have t': "advance_send 0 True ?t = ?t\<lparr>snd_nxt := 1, snd_max := 1, t_timer := t_timer (advance_send 0 True ?t)\<rparr>"
    using advance_syn [of ?t] assms(4,5) by simp
  have "utcp_connect env (Some t # replicate 5 None) 0 \<lparr>sin_family = AF_INET, sin_addr = ip, sin_port = port\<rparr> w =
      Inr (Some (advance_send 0 True ?t) # replicate 5 None, w')"
    using out(1) assms(3) by (simp add: utcp_connect_def utcp_get_tcb_in_state_def utcp_get_tcb_def arr_get_def)
  moreover have "seg_ok [] 0 d" using handshake_seg_ok [OF seg, of 0] assms(6) by simp
  moreover have "started TCP_SYN_SENT (src_port t) port ip (advance_send 0 True ?t)"
    using i by (subst t') (simp add: started_def idle_def)
  moreover have "bare (src_port t) port 0 0 TH_SYN d"
    unfolding bare_def using seg i assms(6) by (intro exI [of _ ?t]) (simp add: idle_def unread_def)
  ultimately show thesis using that out(2) by blast
qed

lemma listen_move:
  assumes env: "good_env env" and "idle t" and "state t = TCP_LISTEN" and "snd_max t = 0" and h: "th_seq h = 0" "th_flags h = TH_SYN" "32768 \<le> unat (th_win h)"
    and opt: "process_window_option buff h t = Inr (t\<lparr>snd_scale := 5, scale_enabled := True, ts_recent := ts, ts_enabled := True\<rparr>)"
  obtains t' w' d where "input_segment env from buff h data (t, w) = Inr (t', w')" and "sent w' = sent w @ [d]" and "seg_ok [] 0 d"
    and "bare (src_port t) (th_sport h) 0 1 (tcp_outflags TCP_SYN_RECV) d"
    and "started TCP_SYN_RECV (src_port t) (th_sport h) (dg_ip from) t'" "irs t' = 0" "rcv_nxt t' = 1" "snd_scale t' = 5" "MSS \<le> unat (snd_wnd t')"
proof -
  let ?t = "t\<lparr>snd_scale := 5, scale_enabled := True, ts_recent := ts, ts_enabled := True, dst_port := th_sport h, dst_ip := dg_ip from,
      dst_udp_port := dg_port from, irs := 0, rcv_nxt := 1, snd_wnd := ucast (th_win h), iss := 0, snd_nxt := 0, snd_una := 0, state := TCP_SYN_RECV\<rparr>"
  have i: "idle ?t" using assms(2) by (simp add: idle_def)
  obtain d w' where out: "call_output env (?t, w) = Inr (advance_send 0 True ?t, w')" "sent w' = sent w @ [d]"
    and seg: "is_segment ?t 0 (tcp_outflags (state ?t)) [] d"
    by (rule syn_output [OF env idle_can_send [OF i]]) (use assms in \<open>auto simp: idle_def\<close>)
  have t': "advance_send 0 True ?t = ?t\<lparr>snd_nxt := 1, snd_max := 1, t_timer := t_timer (advance_send 0 True ?t)\<rparr>"
    using advance_syn [of ?t] assms(4) by simp
  have run: "input_segment env from buff h data (t, w) = Inr (advance_send 0 True ?t, w')"
    using out(1) h opt assms(3) by (simp add: input_segment_def input_listen_def GET_SCALED_WIN_def Let_def)
  have ok: "seg_ok [] 0 d" using handshake_seg_ok [OF seg, of 1] by simp
  have "bare (src_port t) (th_sport h) 0 1 (tcp_outflags TCP_SYN_RECV) d"
    unfolding bare_def using seg i by (intro exI [of _ ?t]) (simp add: idle_def unread_def)
  moreover have "started TCP_SYN_RECV (src_port t) (th_sport h) (dg_ip from) (advance_send 0 True ?t)"
    using i by (subst t') (simp add: started_def idle_def)
  ultimately show thesis
    by (intro that [OF run out(2) ok]) (assumption, assumption, (subst t', use h(3) in \<open>simp add: unat_win\<close>)+)
qed

lemma syn_ack_move:
  assumes env: "good_env env" and o: "started TCP_SYN_SENT p q ip t"
    and h: "th_seq h = 0" "th_ack h = 1" "th_flags h = tcp_outflags TCP_SYN_RECV" "32768 \<le> unat (th_win h)"
    and opt: "\<And>x. process_window_option buff h x = Inr (x\<lparr>snd_scale := 5, scale_enabled := True, ts_recent := ts, ts_enabled := True\<rparr>)"
  obtains t' w' d where "input_segment env from buff h data (t, w) = Inr (t', w')" and "sent w' = sent w @ [d]" and "seg_ok [] 0 d"
    and "bare p q 1 1 TH_ACK d" and "settled [] [] t'" "src_port t' = p" "dst_port t' = q"
proof -
  let ?t = "t\<lparr>snd_una := 1, irs := 0, rcv_nxt := 1, state := TCP_ESTABLISHED, snd_scale := 5, scale_enabled := True, ts_recent := ts,
      ts_enabled := True, snd_wnd := ucast (th_win h), t_rxtshift := 0, t_timer := (t_timer t)(0 := 0), cwnd := 4200, ssthresh := 0xFFFFFFFF,
      ca_state := TCP_CA_OPEN, recover := 0\<rparr>"
  have i: "idle t" and t: "state t = TCP_SYN_SENT" "snd_nxt t = 1" "snd_max t = 1" "src_port t = p" "dst_port t = q"
    using o by (simp_all add: started_def)
  have it: "idle ?t" using i by (simp add: idle_def)
  obtain d t' w' where out: "call_output env (?t\<lparr>t_flags := set_flag (t_flags ?t) TF_ACKNOW\<rparr>, w) = Inr (t', w')" "sent w' = sent w @ [d]"
    and seg: "is_segment ?t (snd_nxt ?t) TH_ACK [] d" and t': "t' = ?t\<lparr>t_flags := t_flags t', t_timer := t_timer t'\<rparr>" and nf: "\<not> has_flag (t_flags t') TF_ACKNOW"
    by (rule ack_output [OF env idle_can_send [OF it] _ idle_no_data [OF it]]) simp_all
  have "input_segment env from buff h data (t, w) = Inr (t', w')"
    using out(1) h t opt i by (simp add: input_segment_def input_syn_sent_def GET_SCALED_WIN_def idle_def cc_init_def has_flag_def)
  moreover have "seg_ok [] 0 d" using handshake_seg_ok [OF seg, of 1] by simp
  moreover have "fresh ?t" using t h(4) by (simp add: fresh_def unat_win)
  then have "settled [] [] t'" by (subst t', intro fresh_settled [OF it _ nf])
  moreover have "src_port t' = p" "dst_port t' = q" by (subst t', simp add: t)+
  moreover have "bare p q 1 1 TH_ACK d"
    unfolding bare_def using seg t i by (intro exI [of _ ?t]) (simp add: idle_def unread_def)
  ultimately show thesis using that out(2) by blast
qed

lemma ack_move:
  assumes o: "started TCP_SYN_RECV p q ip t" and t': "irs t = 0" "rcv_nxt t = 1" "snd_scale t = 5" "MSS \<le> unat (snd_wnd t)"
    and h: "th_ack h = 1" "th_flags h = TH_ACK"
    and opt: "\<And>x. process_window_option buff h x = Inr (x\<lparr>ts_recent := ts, ts_enabled := True\<rparr>)"
  obtains t' w' where "input_segment env from buff h [] (t, w) = Inr (t', w')" and "sent w' = sent w"
    and "settled [] [] t'" "src_port t' = p" "dst_port t' = q"
proof -
  let ?t = "t\<lparr>state := TCP_ESTABLISHED, snd_una := 1, t_rxtshift := 0, t_timer := (t_timer t)(0 := 0), cwnd := 4200, ssthresh := 0xFFFFFFFF,
      ca_state := TCP_CA_OPEN, recover := 0, ts_recent := ts, ts_enabled := True\<rparr>"
  have i: "idle t" and t: "state t = TCP_SYN_RECV" "snd_nxt t = 1" "snd_max t = 1" using o by (simp_all add: started_def)
  have "\<exists>win. GET_SCALED_WIN ?t h = Inr win" using t'(3) by (simp add: GET_SCALED_WIN_def)
  then obtain win where win: "GET_SCALED_WIN ?t h = Inr win" ..
  define x where "x = (if win > snd_wnd t then ?t\<lparr>snd_wnd := win\<rparr> else ?t)"
  define w1 where "w1 = (if win > snd_wnd t then cond_broadcast w else w)"
  have ix: "idle x" "state x = TCP_ESTABLISHED" using i by (simp_all add: idle_def x_def)
  have "\<not> has_flag (t_flags x) TF_ACKNOW" using ix(1) by (simp add: idle_def)
  from quiet_output [OF ix(2) idle_no_data [OF ix(1)] this, of env w1] have out: "call_output env (x, w1) = Inr (x, w1)" .
  have "input_syn_recv env h (t, w) = Inr (?t\<lparr>ts_recent := ts_recent t, ts_enabled := ts_enabled t\<rparr>, w)"
    using h t(2) i by (simp add: input_syn_recv_def idle_def cc_init_def has_flag_def)
  moreover have "handle_ack env buff h 0 (?t, w) = Inr (x, w1)"
    using h win t by (simp add: handle_ack_def handle_dup_ack_def SEQ_GT_def x_def w1_def)
  ultimately have "input_segment env from buff h [] (t, w) = Inr (x, w1)"
    using t(1) out by (simp add: input_segment_def handle_received_data_def opt handle_data_def)
  moreover have "sent w1 = sent w" by (simp add: w1_def cond_broadcast_def)
  moreover have "fresh x" using t t' by (auto simp: fresh_def x_def word_less_nat_alt)
  with ix(1) have "settled [] [] (x\<lparr>t_flags := t_flags x, t_timer := t_timer x\<rparr>)" by (rule fresh_settled) (use ix(1) in \<open>simp add: idle_def\<close>)
  ultimately show thesis using that o by (simp add: started_def x_def)
qed

text \<open>The listening thread takes a segment to the only socket of the host.\<close>

lemma segment_step:
  assumes seg: "is_segment t seq flags payload d" and len: "length payload \<le> MSS" and h: "host_ok h x"
    and m: "src_port x = dst_port t" "state x = TCP_LISTEN \<or> dst_port x = src_port t \<and> dst_ip x = ip"
    and handled: "\<And>buff hdr ts. length buff = 1500 \<Longrightarrow> th_sport hdr = src_port t \<Longrightarrow> th_seq hdr = seq \<Longrightarrow> th_ack hdr = rcv_nxt t \<Longrightarrow>
      th_flags hdr = flags \<Longrightarrow> SET_SCALED_WIN t flags (recv_free_space t) = Inr (th_win hdr) \<Longrightarrow>
      (\<And>y. process_window_option buff hdr y = Inr (if has_flag flags TH_SYN
        then y\<lparr>snd_scale := rcv_scale t, scale_enabled := True, ts_recent := ts, ts_enabled := True\<rparr>
        else y\<lparr>ts_recent := ts, ts_enabled := True\<rparr>)) \<Longrightarrow>
      \<exists>x' w'. input_segment env (d\<lparr>dg_ip := ip\<rparr>) buff hdr payload (x, h_world h) = Inr (x', w') \<and> Q x' w'"
  obtains h' x' where "host_step env (Received (d\<lparr>dg_ip := ip\<rparr>)) h h'" and "host_ok h' x'" and "Q x' (h_world h')"
proof -
  have tbl: "h_table h = Some x # replicate 5 None" and "length (h_buff h) = 1500" using h by (simp_all add: host_ok_def)
  have bytes: "dg_bytes (d\<lparr>dg_ip := ip\<rparr>) = dg_bytes d" by simp
  show thesis
  proof (rule segment_arrives [OF seg len \<open>length (h_buff h) = 1500\<close> bytes])
    fix buff n hdr ts
    assume r: "recv_into (h_buff h) (dg_bytes (d\<lparr>dg_ip := ip\<rparr>)) = (buff, n)" "length buff = 1500" "deserialize_utcp_packet buff n = Inr (hdr, payload)"
      "th_sport hdr = src_port t" "th_dport hdr = dst_port t" "th_seq hdr = seq" "th_ack hdr = rcv_nxt t" "th_flags hdr = flags"
      "SET_SCALED_WIN t flags (recv_free_space t) = Inr (th_win hdr)"
      and opt: "\<And>y. process_window_option buff hdr y = Inr (if has_flag flags TH_SYN
        then y\<lparr>snd_scale := rcv_scale t, scale_enabled := True, ts_recent := ts, ts_enabled := True\<rparr>
        else y\<lparr>ts_recent := ts, ts_enabled := True\<rparr>)"
    from handled [OF r(2,4,6-9) opt] obtain x' w' where x: "input_segment env (d\<lparr>dg_ip := ip\<rparr>) buff hdr payload (x, h_world h) = Inr (x', w')" "Q x' w'" by blast
    have "match x hdr (dg_ip (d\<lparr>dg_ip := ip\<rparr>))" using m r(4,5) by (auto simp: match_def)
    from input_delivers [OF r(1,3) this x(1)]
    have "host_step env (Received (d\<lparr>dg_ip := ip\<rparr>)) h (h\<lparr>h_buff := buff, h_table := Some x' # replicate 5 None, h_world := w'\<rparr>)"
      by (intro host_step.input) (simp add: tbl)
    then show thesis by (rule that [of _ x']) (use x r(2) in \<open>simp_all add: host_ok_def\<close>)
  qed
qed

lemma receive_step:
  assumes d: "bare p q seq a flags d" and h: "host_ok h x" and m: "src_port x = q" "state x = TCP_LISTEN \<or> dst_port x = p \<and> dst_ip x = ip"
    and handled: "\<And>buff hdr ts. th_sport hdr = p \<Longrightarrow> th_seq hdr = seq \<Longrightarrow> th_ack hdr = a \<Longrightarrow> th_flags hdr = flags \<Longrightarrow> 32768 \<le> unat (th_win hdr) \<Longrightarrow>
      (\<And>y. process_window_option buff hdr y = Inr (if has_flag flags TH_SYN
        then y\<lparr>snd_scale := 5, scale_enabled := True, ts_recent := ts, ts_enabled := True\<rparr>
        else y\<lparr>ts_recent := ts, ts_enabled := True\<rparr>)) \<Longrightarrow>
      \<exists>x' w'. input_segment env (d\<lparr>dg_ip := ip\<rparr>) buff hdr [] (x, h_world h) = Inr (x', w') \<and> Q x' w'"
  obtains h' x' where "host_step env (Received (d\<lparr>dg_ip := ip\<rparr>)) h h'" and "host_ok h' x'" and "Q x' (h_world h')"
proof -
  from d obtain t where t: "is_segment t seq flags [] d" "rcv_nxt t = a" "src_port t = p" "dst_port t = q" "rcv_scale t = 5" "\<not> unread t"
    by (auto simp: bare_def)
  show thesis
  proof (rule segment_step [OF t(1) _ h, of ip env Q], goal_cases)
    case (4 buff hdr ts)
    show ?case by (rule handled [of hdr buff ts]) (use 4 t open_window in \<open>simp_all\<close>)
  qed (use m t that in simp_all)
qed

lemma listen_step:
  assumes "good_env env" and "bare p q 0 0 TH_SYN d" and "host_ok h x" and "idle x" and "state x = TCP_LISTEN" and "snd_max x = 0" and "src_port x = q"
  obtains h' x' d' where "host_step env (Received (d\<lparr>dg_ip := ip\<rparr>)) h h'" and "host_ok h' x'"
    and "sent (h_world h') = sent (h_world h) @ [d']" and "seg_ok [] 0 d'" and "bare q p 0 1 (tcp_outflags TCP_SYN_RECV) d'"
    and "started TCP_SYN_RECV q p ip x'" "irs x' = 0" "rcv_nxt x' = 1" "snd_scale x' = 5" "MSS \<le> unat (snd_wnd x')"
proof (rule receive_step [OF assms(2,3), of ip env "\<lambda>x' w'. \<exists>d'. sent w' = sent (h_world h) @ [d'] \<and> seg_ok [] 0 d' \<and>
    bare q p 0 1 (tcp_outflags TCP_SYN_RECV) d' \<and> started TCP_SYN_RECV q p ip x' \<and> irs x' = 0 \<and> rcv_nxt x' = 1 \<and> snd_scale x' = 5 \<and> MSS \<le> unat (snd_wnd x')"], goal_cases)
  case (3 buff hdr ts)
  have "process_window_option buff hdr x = Inr (x\<lparr>snd_scale := 5, scale_enabled := True, ts_recent := ts, ts_enabled := True\<rparr>)" using 3(7) by simp
  from listen_move [OF assms(1,4-6) 3(3,5,6) this, of "d\<lparr>dg_ip := ip\<rparr>" "[]" "h_world h"] show ?case using 3(2) assms(7) by (simp, metis)
qed (use assms that in auto)

lemma syn_ack_step:
  assumes "good_env env" and "bare q p 0 1 (tcp_outflags TCP_SYN_RECV) d" and "host_ok h x" and "started TCP_SYN_SENT p q ip x"
  obtains h' x' d' where "host_step env (Received (d\<lparr>dg_ip := ip\<rparr>)) h h'" and "host_ok h' x'"
    and "sent (h_world h') = sent (h_world h) @ [d']" and "seg_ok [] 0 d'" and "bare p q 1 1 TH_ACK d'"
    and "settled [] [] x'" "src_port x' = p" "dst_port x' = q"
proof (rule receive_step [OF assms(2,3), of ip env "\<lambda>x' w'. \<exists>d'. sent w' = sent (h_world h) @ [d'] \<and> seg_ok [] 0 d' \<and>
    bare p q 1 1 TH_ACK d' \<and> settled [] [] x' \<and> src_port x' = p \<and> dst_port x' = q"], goal_cases)
  case (3 buff hdr ts)
  have "process_window_option buff hdr y = Inr (y\<lparr>snd_scale := 5, scale_enabled := True, ts_recent := ts, ts_enabled := True\<rparr>)" for y
    using 3(7) by simp
  from syn_ack_move [OF assms(1,4) 3(3-6) this, of "d\<lparr>dg_ip := ip\<rparr>" "[]" "h_world h"] show ?case by metis
qed (use assms that in \<open>auto simp: started_def\<close>)

lemma ack_step:
  assumes "bare p q 1 1 TH_ACK d" and "host_ok h x" and "started TCP_SYN_RECV q p ip x" "irs x = 0" "rcv_nxt x = 1" "snd_scale x = 5" "MSS \<le> unat (snd_wnd x)"
  obtains h' x' where "host_step env (Received (d\<lparr>dg_ip := ip\<rparr>)) h h'" and "host_ok h' x'"
    and "sent (h_world h') = sent (h_world h)" and "settled [] [] x'" "src_port x' = q" "dst_port x' = p"
proof (rule receive_step [OF assms(1,2), of ip env "\<lambda>x' w'. sent w' = sent (h_world h) \<and> settled [] [] x' \<and> src_port x' = q \<and> dst_port x' = p"], goal_cases)
  case (3 buff hdr ts)
  have "process_window_option buff hdr y = Inr (y\<lparr>ts_recent := ts, ts_enabled := True\<rparr>)" for y
    using 3(7) by (simp add: has_flag_def)
  from ack_move [OF assms(3-7) 3(4,5) this, of env "d\<lparr>dg_ip := ip\<rparr>" "h_world h"] show ?case by metis
qed (use assms that in \<open>auto simp: started_def\<close>)

section \<open>The lookup\<close>

text \<open>The descriptors, from \<open>i\<close> on, whose block satisfies \<open>P\<close>.\<close>

definition slots :: "(tcb \<Rightarrow> bool) \<Rightarrow> nat \<Rightarrow> tcb option list \<Rightarrow> nat list" where
  "slots P i tbl = map fst (filter (\<lambda>(j, x). case x of None \<Rightarrow> False | Some t \<Rightarrow> P t) (enumerate i tbl))"

lemma slots_simps [simp]:
  "slots P i [] = []" "slots P i (None # tbl) = slots P (Suc i) tbl"
  "slots P i (Some t # tbl) = (if P t then i # slots P (Suc i) tbl else slots P (Suc i) tbl)"
  by (simp_all add: slots_def)

lemma slots_empty: "slots P i tbl = [] \<longleftrightarrow> (\<forall>t. Some t \<in> set tbl \<longrightarrow> \<not> P t)"
proof (induction tbl arbitrary: i)
  case (Cons x tbl)
  then show ?case by (cases x) auto
qed simp

lemma find_tcb_from_slots:
  "find_tcb_from i lm tbl h ip =
     (let exact = slots (\<lambda>t. src_port t = th_dport h \<and> dst_port t = th_sport h \<and> dst_ip t = ip) i tbl;
          listening = slots (\<lambda>t. state t = TCP_LISTEN \<and> src_port t = th_dport h) i tbl
      in if exact \<noteq> [] then Some (hd exact) else if listening \<noteq> [] then Some (last listening) else lm)"
  by (induction i lm tbl h ip rule: find_tcb_from.induct) (auto simp: Let_def)

lemma parses_header:
  assumes "recv_into buff bytes = (buff', n)" and "length buff = 1500" and "20 \<le> length bytes"
  shows "\<exists>data. deserialize_utcp_packet buff' n = Inr (hdr_of_bytes (take 20 bytes), data)"
proof -
  have n: "n = min 1500 (length bytes)" "buff' = take n bytes @ drop n buff" "length buff' = 1500"
    using assms by (auto simp: recv_into_def Let_def)
  have "take 20 buff' = take 20 bytes" "20 \<le> n" "n \<le> 1500" using n(1,2) assms(3) by (simp_all add: min_def)
  then show ?thesis using n(3) by (simp add: deserialize_utcp_packet_def Let_def)
qed

section \<open>Properties\<close>

text \<open>A socket just created and bound.\<close>

abbreviation bound :: "u32 \<Rightarrow> u16 \<Rightarrow> tcb" where
  "bound ip port \<equiv> new_tcb\<lparr>src_ip := ip, src_port := port\<rparr>"

lemma bound_simps [simp]:
  "snd_nxt new_tcb = 0" "snd_max new_tcb = 0" "rcv_nxt new_tcb = 0"
  by (simp_all add: new_tcb_def)

lemma bind_single:
  "utcp_bind (Some new_tcb # replicate 5 None) 0 \<lparr>sin_family = AF_INET, sin_addr = ip, sin_port = port\<rparr> =
     Inr (Some (bound ip port) # replicate 5 None)"
  by (simp add: utcp_bind_def utcp_get_tcb_in_state_def utcp_get_tcb_def arr_get_def)

lemma listen_single:
  "utcp_listen (Some (bound ip port) # replicate 5 None) 0 = Inr (Some ((bound ip port)\<lparr>state := TCP_LISTEN\<rparr>) # replicate 5 None)"
  by (simp add: utcp_listen_def utcp_get_tcb_in_state_def utcp_get_tcb_def arr_get_def)

text \<open>Two hosts as a fresh link.\<close>

abbreviation link_of :: "host \<Rightarrow> host \<Rightarrow> link" where
  "link_of c s \<equiv> \<lparr>hosts = (\<lambda>x. if x then s else c), written = (\<lambda>_. []), got = (\<lambda>_. [])\<rparr>"

definition opened :: "link \<Rightarrow> bool" where
  "opened l \<longleftrightarrow> link_start l \<and> link_settled l"

lemma openedI:
  assumes "host_ok c t" "host_ok s x" and "settled [] [] t" "settled [] [] x" and "src_port t = dst_port x" "src_port x = dst_port t"
    and "\<forall>d \<in> set (sent (h_world c)) \<union> set (sent (h_world s)). seg_ok [] 0 d"
  shows "opened (link_of c s)"
proof -
  let ?T = "\<lambda>b. if b then x else t"
  have start: "link_start (link_of c s)" using assms settled_start by (auto simp: link_start_def)
  have "\<forall>b. host_ok (hosts (link_of c s) b) (?T b) \<and> settled (written (link_of c s) b) (written (link_of c s) (\<not> b)) (?T b) \<and>
      src_port (?T b) = dst_port (?T (\<not> b))"
    using assms by simp
  then show ?thesis unfolding opened_def link_settled_def using start link_start_inv [OF start] by (intro conjI exI [of _ ?T])
qed

text \<open>The SYN is out; the three segments arrive.\<close>

lemma handshake_moves:
  assumes env: "good_env ec" "good_env es" and c: "host_ok c t" "started TCP_SYN_SENT p q ips t" "bare p q 0 0 TH_SYN d1" "sent (h_world c) = [d1]" "seg_ok [] 0 d1"
    and s: "host_ok s ((bound b q)\<lparr>state := TCP_LISTEN\<rparr>)" "sent (h_world s) = []"
  obtains c2 s1 s2 d2 d3 where "host_step es (Received (d1\<lparr>dg_ip := ipc\<rparr>)) s s1" and "sent (h_world s1) = [d2]"
    and "host_step ec (Received (d2\<lparr>dg_ip := ips\<rparr>)) c c2" and "sent (h_world c2) = [d1, d3]"
    and "host_step es (Received (d3\<lparr>dg_ip := ipc\<rparr>)) s1 s2" and "sent (h_world s2) = [d2]" and "opened (link_of c2 s2)"
proof -
  obtain s1 x1 d2 where s1: "host_step es (Received (d1\<lparr>dg_ip := ipc\<rparr>)) s s1" "host_ok s1 x1" "sent (h_world s1) = sent (h_world s) @ [d2]" "seg_ok [] 0 d2"
    and b2: "bare q p 0 1 (tcp_outflags TCP_SYN_RECV) d2" and x1: "started TCP_SYN_RECV q p ipc x1" "irs x1 = 0" "rcv_nxt x1 = 1" "snd_scale x1 = 5"
      "MSS \<le> unat (snd_wnd x1)"
    by (rule listen_step [OF env(2) c(3) s(1), of ipc]) (simp_all add: idle_new)
  obtain c2 t2 d3 where c2: "host_step ec (Received (d2\<lparr>dg_ip := ips\<rparr>)) c c2" "host_ok c2 t2" "sent (h_world c2) = sent (h_world c) @ [d3]" "seg_ok [] 0 d3"
    and b3: "bare p q 1 1 TH_ACK d3" and t2: "settled [] [] t2" "src_port t2 = p" "dst_port t2 = q"
    by (rule syn_ack_step [OF env(1) b2 c(1,2)])
  obtain s2 x2 where s2: "host_step es (Received (d3\<lparr>dg_ip := ipc\<rparr>)) s1 s2" "host_ok s2 x2" "sent (h_world s2) = sent (h_world s1)"
    and x2: "settled [] [] x2" "src_port x2 = q" "dst_port x2 = p" by (rule ack_step [OF b3 s1(2) x1])
  have "opened (link_of c2 s2)" using c2 s2 t2 x2 c(4,5) s1(3,4) s(2) by (intro openedI [of _ t2 _ x2]) auto
  then show thesis using that s1(1,3) c2(1,3) s2(1,3) c(4) s(2) by simp
qed

lemma handshake_run:
  assumes "good_env ec" and "good_env es" and "host_ok c (bound a p)" and "host_ok s ((bound b q)\<lparr>state := TCP_LISTEN\<rparr>)"
    and "sent (h_world c) = []" and "sent (h_world s) = []"
  obtains c1 c2 s1 s2 d1 d2 d3 where "host_step ec (Connect 0) c c1" and "sent (h_world c1) = [d1]"
    and "host_step es (Received (d1\<lparr>dg_ip := ipc\<rparr>)) s s1" and "sent (h_world s1) = [d2]"
    and "host_step ec (Received (d2\<lparr>dg_ip := ips\<rparr>)) c1 c2" and "sent (h_world c2) = [d1, d3]"
    and "host_step es (Received (d3\<lparr>dg_ip := ipc\<rparr>)) s1 s2" and "sent (h_world s2) = [d2]" and "opened (link_of c2 s2)"
proof -
  let ?s = "(bound b q)\<lparr>state := TCP_LISTEN\<rparr>"
  have c: "h_table c = Some (bound a p) # replicate 5 None" "length (h_buff c) = 1500" using assms(3) by (simp_all add: host_ok_def)
  obtain t1 w1 d1 where con: "utcp_connect ec (h_table c) 0 \<lparr>sin_family = AF_INET, sin_addr = ips, sin_port = q\<rparr> (h_world c) =
      Inr (Some t1 # replicate 5 None, w1)" "sent w1 = [d1]" "seg_ok [] 0 d1" and o1: "started TCP_SYN_SENT p q ips t1" and b1: "bare p q 0 0 TH_SYN d1"
    using connect_move [where t = "bound a p" and ip = ips and port = q and w = "h_world c", OF assms(1) idle_new(2)] assms(5) c(1) by auto
  define c1 where "c1 = c\<lparr>h_table := Some t1 # replicate 5 None, h_world := w1\<rparr>"
  have c1: "host_step ec (Connect 0) c c1" "host_ok c1 t1" "sent (h_world c1) = [d1]"
    using host_step.connect [OF con(1)] c con(2) by (simp_all add: c1_def host_ok_def)
  obtain c2 s1 s2 d2 d3 where "host_step es (Received (d1\<lparr>dg_ip := ipc\<rparr>)) s s1" "sent (h_world s1) = [d2]"
    "host_step ec (Received (d2\<lparr>dg_ip := ips\<rparr>)) c1 c2" "sent (h_world c2) = [d1, d3]"
    "host_step es (Received (d3\<lparr>dg_ip := ipc\<rparr>)) s1 s2" "sent (h_world s2) = [d2]" "opened (link_of c2 s2)"
    by (rule handshake_moves [OF assms(1,2) c1(2) o1 b1 c1(3) con(3) assms(4,6)])
  then show thesis by (rule that [OF c1(1,3)])
qed

text \<open>
  C7: The three-way handshake: a client with a new socket connects to a listening one; when the SYN, the SYN with
  the acknowledgement and the acknowledgement arrive, every call returns, one segment goes out in
  each of the first three moves and none in the last, and the two hosts are a link from which the end-to-end
  theorems start: both connections are established with empty streams.
\<close>

theorem three_way_handshake:
  assumes "good_env ec" and "good_env es" and "host_ok c (bound a p)" and "host_ok s ((bound b q)\<lparr>state := TCP_LISTEN\<rparr>)"
    and "sent (h_world c) = []" and "sent (h_world s) = []"
  shows "\<exists>c1 c2 s1 s2 d1 d2 d3. host_step ec (Connect 0) c c1 \<and> sent (h_world c1) = [d1] \<and>
    host_step es (Received (d1\<lparr>dg_ip := ipc\<rparr>)) s s1 \<and> sent (h_world s1) = [d2] \<and>
    host_step ec (Received (d2\<lparr>dg_ip := ips\<rparr>)) c1 c2 \<and> sent (h_world c2) = [d1, d3] \<and>
    host_step es (Received (d3\<lparr>dg_ip := ipc\<rparr>)) s1 s2 \<and> sent (h_world s2) = [d2] \<and>
    link_start \<lparr>hosts = (\<lambda>x. if x then s2 else c2), written = (\<lambda>_. []), got = (\<lambda>_. [])\<rparr>"
  using handshake_run [OF assms, of ipc ips] unfolding opened_def by metis

theorem three_way_handshake_witness:
  "\<exists>c1 c2 s1 s2 d1 d2 d3. host_step env0 (Connect 0) (host_est\<lparr>h_table := Some (bound 1 7) # replicate 5 None\<rparr>) c1 \<and>
    sent (h_world c1) = [d1] \<and>
    host_step env0 (Received (d1\<lparr>dg_ip := 1\<rparr>)) (host_est\<lparr>h_table := Some ((bound 2 9)\<lparr>state := TCP_LISTEN\<rparr>) # replicate 5 None\<rparr>) s1 \<and>
    host_step env0 (Received (d2\<lparr>dg_ip := 2\<rparr>)) c1 c2 \<and> host_step env0 (Received (d3\<lparr>dg_ip := 1\<rparr>)) s1 s2 \<and>
    duplex.reachable (\<lambda>_. env0) \<lparr>hosts = (\<lambda>x. if x then s2 else c2), written = (\<lambda>_. []), got = (\<lambda>_. [])\<rparr>"
proof -
  let ?c = "host_est\<lparr>h_table := Some (bound 1 7) # replicate 5 None\<rparr>"
  let ?s = "host_est\<lparr>h_table := Some ((bound 2 9)\<lparr>state := TCP_LISTEN\<rparr>) # replicate 5 None\<rparr>"
  have "host_ok ?c (bound 1 7)" "host_ok ?s ((bound 2 9)\<lparr>state := TCP_LISTEN\<rparr>)" "sent (h_world ?c) = []" "sent (h_world ?s) = []"
    by (simp_all add: host_ok_def host_est_def world0_def)
  from three_way_handshake [OF good_env0 good_env0 this, of 1 2] show ?thesis using duplex.reachable.init by meson
qed

text \<open>
  C36: A lost SYN is not sent again. When the retransmission timer of a connecting socket expires, nothing
  goes out, because the rolled-back sequence number no longer looks like a new SYN; and from
  then on even a late SYN with the right acknowledgement is ignored, so the connect call waits forever.
\<close>

theorem lost_syn_not_retransmitted:
  assumes env: "good_env env" and "state t = TCP_SYN_SENT" and "t_flags t = 0" and "snd_una t = 0" and "snd_max t = 1" and "unat (t_rxtshift t) < 12"
  shows "returns (utcp_timers env TCPT_REXMT (t, w)) (\<lambda>(t', w'). sent w' = sent w \<and> wait_until_established t' = Blocked \<and>
    (\<forall>buff h w2. th_ack h = 1 \<longrightarrow> input_syn_sent env buff h (t', w2) = Inr (t', w2)))"
proof -
  obtain t2 w2 where run: "utcp_timers_rexmt env (t, w) = call_output env (t2, w2)" and conn: "same_conn t t2"
    and w2: "appended w w2 = []" "grows w w2" and t2: "snd_nxt t2 = 0" "snd_max t2 = 1" "t_flags t2 = 0"
    using rexmt_prepare [OF env assms(6), of w] assms(3-5) by metis
  have st: "state t2 = TCP_SYN_SENT" using conn assms(2) by (simp add: same_conn_def)
  then have "output_data_length t2 = 0" by (simp add: output_data_length_def)
  then have "call_output env (t2, w2) = Inr (t2, w2)"
    using t2 st by (simp add: call_output_def utcp_output_def output_loop.simps [of env False 0 t2] output_iter_def Let_def)
  moreover have "sent w2 = sent w" using w2 by (auto simp: appended_def grows_def)
  ultimately show ?thesis
    using run t2 st by (simp add: utcp_timers_def input_syn_sent_def wait_until_established_def)
qed

theorem lost_syn_not_retransmitted_witness:
  "returns (utcp_timers env0 TCPT_REXMT (new_tcb\<lparr>state := TCP_SYN_SENT, snd_nxt := 1, snd_max := 1\<rparr>, world0)) (\<lambda>(t', w'). sent w' = [] \<and>
    wait_until_established t' = Blocked)"
  using lost_syn_not_retransmitted [of env0 "new_tcb\<lparr>state := TCP_SYN_SENT, snd_nxt := 1, snd_max := 1\<rparr>" world0] good_env0
  by (simp add: new_tcb_def world0_def) (auto simp: returns_def)

text \<open>
  The lookup of the connection for a segment, against a reference: the first block whose two ports and
  peer address match, else the last listening block with the destination port, else none.
\<close>

theorem find_tcb_reference:
  "find_tcb tbl h ip =
     (if slots (\<lambda>t. src_port t = th_dport h \<and> dst_port t = th_sport h \<and> dst_ip t = ip) 0 tbl \<noteq> []
      then Some (hd (slots (\<lambda>t. src_port t = th_dport h \<and> dst_port t = th_sport h \<and> dst_ip t = ip) 0 tbl))
      else if slots (\<lambda>t. state t = TCP_LISTEN \<and> src_port t = th_dport h) 0 tbl \<noteq> []
      then Some (last (slots (\<lambda>t. state t = TCP_LISTEN \<and> src_port t = th_dport h) 0 tbl))
      else None)"
  unfolding find_tcb_def find_tcb_from_slots by simp

text \<open>
  C37: Unexpected input ends the process: a failed receive and a datagram shorter than a header call
  \<^verbatim>\<open>err_sys\<close>, and a segment for a port that no socket has makes the thread lock through a null pointer before
  the check meant to report it.
\<close>

theorem unexpected_datagram:
  assumes "length buff = 1500"
  shows "utcp_input env None buff tbl w = err_sys ''UTCP recvfrom failed'' \<and>
    (length (dg_bytes d) < 20 \<longrightarrow> utcp_input env (Some d) buff tbl w =
      err_sys ''Can not parse utcp packet. Are you sure this was sent correctly?'') \<and>
    (20 \<le> length (dg_bytes d) \<and> (\<forall>t. Some t \<in> set tbl \<longrightarrow> src_port t \<noteq> th_dport (hdr_of_bytes (take 20 (dg_bytes d)))) \<longrightarrow>
      utcp_input env (Some d) buff tbl w = Inl Null_deref)"
proof (intro conjI impI; (elim conjE)?)
  show "utcp_input env None buff tbl w = err_sys ''UTCP recvfrom failed''" by (simp add: utcp_input_def Recvfrom_def err_sys_def)
  show "utcp_input env (Some d) buff tbl w = err_sys ''Can not parse utcp packet. Are you sure this was sent correctly?''"
    if "length (dg_bytes d) < 20"
    using that assms by (simp add: utcp_input_def Recvfrom_def recv_into_def Let_def deserialize_utcp_packet_def err_sys_def)
  assume l: "20 \<le> length (dg_bytes d)" and no: "\<forall>t. Some t \<in> set tbl \<longrightarrow> src_port t \<noteq> th_dport (hdr_of_bytes (take 20 (dg_bytes d)))"
  obtain buff' n where r: "recv_into buff (dg_bytes d) = (buff', n)" by fastforce
  from parses_header [OF r assms l] obtain data where "deserialize_utcp_packet buff' n = Inr (hdr_of_bytes (take 20 (dg_bytes d)), data)" by blast
  moreover have "find_tcb tbl (hdr_of_bytes (take 20 (dg_bytes d))) (dg_ip d) = None"
    using no by (auto simp: find_tcb_def find_tcb_from_slots slots_empty)
  ultimately show "utcp_input env (Some d) buff tbl w = Inl Null_deref" using r by (simp add: utcp_input_def Recvfrom_def)
qed

theorem unexpected_datagram_witness:
  "utcp_input env0 (Some \<lparr>dg_ip = 1, dg_port = 2, dg_bytes = replicate 20 0\<rparr>) (zero_bytes 1500) (table_of (bound 2 9)) world0 = Inl Null_deref"
  using unexpected_datagram [of "zero_bytes 1500" env0 "table_of (bound 2 9)" world0 "\<lparr>dg_ip = 1, dg_port = 2, dg_bytes = replicate 20 0\<rparr>"]
  by (simp add: table_of_def hdr_of_bytes_def of_be16_def)

end
