(* ===== verification/Timing.thy ===== *)
theory Timing
  imports Handshake
begin

text \<open>
  The timers over whole executions. Whatever the network delivers, the retransmission timeout of every
  block stays between 200 ms and 64 s, no timer is ever negative (the slow timer
  would never count it down) and the backoff table is only read inside its bounds. On an established connection, data in flight is
  always covered by a running retransmission timer, so that it is sent again after at most 64 s. Where no data is in flight
  and the peer's window is closed nothing is covered: the code has no persist timer, and a lost window update stops
  the connection.
\<close>

section \<open>Invariants of timers\<close>

definition same_timing :: "tcb \<Rightarrow> tcb \<Rightarrow> bool" where
  "same_timing t t' \<longleftrightarrow> t_rxtcur t' = t_rxtcur t \<and> t_rxtshift t' = t_rxtshift t \<and> t_timer t' = t_timer t \<and>
     snd_una t' = snd_una t \<and> snd_max t' = snd_max t"

text \<open>Ticks of 10 ms: the timeout is 20 to 6400 ticks, the acknowledgement delay 20.\<close>

definition timed :: "tcb \<Rightarrow> bool" where
  "timed t \<longleftrightarrow> 20 \<le> unat (t_rxtcur t) \<and> unat (t_rxtcur t) \<le> 6400 \<and> unat (t_rxtshift t) \<le> 12 \<and>
     unat (t_timer t TCPT_REXMT) \<le> 6400 \<and> unat (t_timer t TCPT_DELACK) \<le> 20 \<and>
     (\<forall>i. i \<noteq> TCPT_REXMT \<and> i \<noteq> TCPT_DELACK \<longrightarrow> t_timer t i = 0)"

text \<open>Everything sent and not yet acknowledged is covered by the retransmission timer.\<close>

definition guarded :: "tcb \<Rightarrow> bool" where
  "guarded t \<longleftrightarrow> timed t \<and> (snd_una t \<noteq> snd_max t \<longrightarrow> t_timer t TCPT_REXMT \<noteq> 0)"

text \<open>What the operations demand of an invariant of the timers, so that each of them keeps it.\<close>

locale timing_invariant =
  fixes P :: "tcb \<Rightarrow> bool"
  assumes other: "same_timing t t' \<Longrightarrow> P t \<Longrightarrow> P t'"
    and timed: "P t \<Longrightarrow> timed t"
    and sent: "P t \<Longrightarrow> P (advance_send n b t)"
    and delack: "P t \<Longrightarrow> unat x \<le> 20 \<Longrightarrow> P (set_timer TCPT_DELACK x t)"
    and counted: "P t \<Longrightarrow> 0 < sint (t_timer t i) \<Longrightarrow> i \<noteq> TCPT_REXMT \<or> t_timer t i \<noteq> 1 \<Longrightarrow> P (set_timer i (t_timer t i - 1) t)"
    and expired: "timed t \<Longrightarrow> unat (t_rxtshift t) < 12 \<Longrightarrow> P (rexmt_armed (of_nat (min 64 (2 ^ Suc (unat (t_rxtshift t))))) t)"
    and rearmed: "timed t \<Longrightarrow> rearm_rexmt t = Inr t' \<Longrightarrow> P t'"

lemma sint_of_int16: "- 32768 \<le> k \<Longrightarrow> k < 32768 \<Longrightarrow> sint (of_int k :: i16) = k"
  by (simp add: signed_of_int signed_take_bit_int_eq_self)

lemma i16_small:
  assumes "unat (x :: i16) < 32768"
  shows "sint x = int (unat x)"
proof -
  have "sint (of_int (int (unat x)) :: i16) = int (unat x)" by (rule sint_of_int16) (use assms in linarith)+
  moreover have "of_int (int (unat x)) = x" by simp
  ultimately show ?thesis by (simp only:)
qed

lemma backed_off_range:
  assumes "20 \<le> unat rto" "unat rto \<le> 6400" "0 < m" "m \<le> 64"
  shows "unat (ucast (backed_off_rto rto (of_nat m)) :: i16) \<le> 6400" "ucast (backed_off_rto rto (of_nat m)) \<noteq> (0 :: i16)"
proof -
  have v: "unat (ucast (backed_off_rto rto (of_nat m)) :: i16) = min 6400 (unat rto * m)"
    using assms by (intro backed_off_rto_value)
  then show "unat (ucast (backed_off_rto rto (of_nat m)) :: i16) \<le> 6400" by simp
  have "0 < unat (ucast (backed_off_rto rto (of_nat m)) :: i16)" unfolding v using assms by simp
  then show "ucast (backed_off_rto rto (of_nat m)) \<noteq> (0 :: i16)" by (simp add: unat_gt_0)
qed

lemma rto_word:
  assumes "20 \<le> unat (rto :: u32)" "unat rto \<le> 6400"
  shows "unat (ucast rto :: i16) \<le> 6400" "ucast rto \<noteq> (0 :: i16)"
proof -
  have v: "unat (ucast rto :: i16) = unat rto" using assms by (simp add: unsigned_ucast_eq take_bit_nat_eq_self)
  show "unat (ucast rto :: i16) \<le> 6400" using v assms by simp
  show "ucast rto \<noteq> (0 :: i16)" using v assms by (metis unsigned_0 not_numeral_le_zero)
qed

lemma timed_positive: "timed t \<Longrightarrow> sint (t_timer t i) = int (unat (t_timer t i))"
  by (rule i16_small) (cases "i = 0 \<or> i = 4", auto simp: timed_def)

lemma timer_range:
  assumes "timed t"
  shows "0 \<le> sint (t_timer t i)" "sint (t_timer t i) \<le> 6400" "t_timer t i \<noteq> 0 \<Longrightarrow> 0 < sint (t_timer t i)"
proof -
  have "unat (t_timer t i) \<le> 6400" using assms by (cases "i = 0 \<or> i = 4") (auto simp: timed_def)
  then show "0 \<le> sint (t_timer t i)" "sint (t_timer t i) \<le> 6400" using timed_positive [OF assms, of i] by linarith+
  show "0 < sint (t_timer t i)" if "t_timer t i \<noteq> 0"
  proof -
    have "0 < unat (t_timer t i)" using that by (simp add: unat_gt_0)
    then show ?thesis using timed_positive [OF assms, of i] by linarith
  qed
qed

lemma unat_dec: "(x :: i16) \<noteq> 0 \<Longrightarrow> unat (x - 1) = unat x - 1"
  by (simp add: unat_minus_one)

lemma timed_count:
  assumes "timed t" and "0 < sint (t_timer t i)"
  shows "timed (set_timer i (t_timer t i - 1) t)"
proof -
  have "0 < unat (t_timer t i)" using timed_positive [OF assms(1), of i] assms(2) by linarith
  then have "unat (t_timer t i - 1) \<le> unat (t_timer t i)" and "i = 0 \<or> i = 4"
    using unat_dec [of "t_timer t i"] assms(1) by (auto simp: unat_gt_0 timed_def)
  then show ?thesis using assms(1) by (auto simp: timed_def)
qed

lemma timed_rearm:
  assumes "timed t" and "rearm_rexmt t = Inr t'"
  shows "guarded t'"
proof -
  have r: "20 \<le> unat (t_rxtcur t)" "unat (t_rxtcur t) \<le> 6400" "unat (t_rxtshift t) < 13" using assms(1) by (simp_all add: timed_def)
  have m: "0 < min 64 (2 ^ unat (t_rxtshift t) :: nat)" "min 64 (2 ^ unat (t_rxtshift t) :: nat) \<le> 64" by simp_all
  show ?thesis
    using assms tcp_backoff_get(1) [OF r(3)] backed_off_range [OF r(1,2) m] rto_word [OF r(1,2)]
    by (auto simp: rearm_rexmt_def guarded_def timed_def split: if_splits)
qed

lemma timed_expired:
  assumes "timed t" and "unat (t_rxtshift t) < 12"
  shows "guarded (rexmt_armed (of_nat (min 64 (2 ^ Suc (unat (t_rxtshift t))))) t)"
proof -
  have r: "20 \<le> unat (t_rxtcur t)" "unat (t_rxtcur t) \<le> 6400" using assms(1) by (simp_all add: timed_def)
  then have pos: "t_rxtcur t > 0" by (simp add: word_less_nat_alt)
  have shift: "unat (t_rxtshift t + 1) = Suc (unat (t_rxtshift t))" using assms(2) by (simp add: unat_word_ariths)
  show ?thesis
    using assms backed_off_range [OF r, of "min 64 (2 ^ Suc (unat (t_rxtshift t)))"] pos shift
    by (auto simp: rexmt_armed_def guarded_def timed_def)
qed

lemma timed_send: "timed t \<Longrightarrow> timed (advance_send n b t)"
  using rto_word [of "t_rxtcur t"] by (auto simp: advance_send_def timed_def Let_def)

lemma guarded_send: "guarded t \<Longrightarrow> guarded (advance_send n b t)"
  using rto_word [of "t_rxtcur t"] by (auto simp: advance_send_def guarded_def timed_def Let_def)

lemma timed_other: "same_timing t t' \<Longrightarrow> timed t \<Longrightarrow> timed t'"
  by (simp add: same_timing_def timed_def)

interpretation tm: timing_invariant timed
proof unfold_locales
  show "timed (set_timer 4 x t)" if "timed t" "unat x \<le> 20" for t x using that by (simp add: timed_def)
  show "timed t'" if "timed t" "rearm_rexmt t = Inr t'" for t t' using timed_rearm [OF that] by (simp add: guarded_def)
  show "timed (rexmt_armed (of_nat (min 64 (2 ^ Suc (unat (t_rxtshift t))))) t)" if "timed t" "unat (t_rxtshift t) < 12" for t
    using timed_expired [OF that] by (simp add: guarded_def)
  show "timed (advance_send n b t)" if "timed t" for t n b using that by (rule timed_send)
  show "timed (set_timer i (t_timer t i - 1) t)" if "timed t" "0 < sint (t_timer t i)" for t i using that by (rule timed_count)
qed (rule timed_other)

interpretation cv: timing_invariant guarded
proof unfold_locales
  fix t :: tcb and i x
  show "guarded (set_timer 4 x t)" if "guarded t" "unat x \<le> 20" using that by (simp add: timed_def guarded_def)
  show "guarded (set_timer i (t_timer t i - 1) t)" if "guarded t" "0 < sint (t_timer t i)" "i \<noteq> 0 \<or> t_timer t i \<noteq> 1"
    using that timed_count [of t i] by (auto simp: guarded_def)
  show "guarded t'" if "same_timing t t'" "guarded t" for t' using that timed_other [of t t'] by (simp add: guarded_def same_timing_def)
  show "timed t" if "guarded t" using that by (simp add: guarded_def)
qed (rule guarded_send timed_expired timed_rearm; assumption)+

section \<open>Every operation keeps them\<close>

lemma same_timing_frames:
  "same_but_lstm t t' \<Longrightarrow> same_timing t t'"
  "same_but_options t t' \<Longrightarrow> same_timing t t'"
  "same_but_drain t t' \<Longrightarrow> same_timing t t'"
  unfolding same_timing_def same_but_lstm_def same_but_options_def same_but_drain_def
  by ((erule ssubst, simp)+)

lemma same_timing_trans: "same_timing a b \<Longrightarrow> same_timing b c \<Longrightarrow> same_timing a c"
  by (simp add: same_timing_def)

lemma same_timing_updates [simp]:
  "same_timing t (x\<lparr>t_flags := f\<rparr>) = same_timing t x"
  "same_timing t (x\<lparr>t_rtt := r\<rparr>) = same_timing t x"
  "same_timing t (x\<lparr>t_idle := r\<rparr>) = same_timing t x"
  "same_timing t (x\<lparr>snd_nxt := r\<rparr>) = same_timing t x"
  "same_timing t (x\<lparr>snd_wnd := r\<rparr>) = same_timing t x"
  "same_timing t (x\<lparr>t_dupacks := d\<rparr>) = same_timing t x"
  "same_timing t (x\<lparr>cwnd := r\<rparr>) = same_timing t x"
  "same_timing t (x\<lparr>ssthresh := r\<rparr>) = same_timing t x"
  "same_timing t (x\<lparr>ca_state := c\<rparr>) = same_timing t x"
  "same_timing t (x\<lparr>recover := r\<rparr>) = same_timing t x"
  "same_timing t (x\<lparr>send_buf := b\<rparr>) = same_timing t x"
  "same_timing t (x\<lparr>send_buf_tail := r\<rparr>) = same_timing t x"
  "same_timing t (x\<lparr>recv_buf := b\<rparr>) = same_timing t x"
  "same_timing t (x\<lparr>recv_buf_tail := r\<rparr>) = same_timing t x"
  "same_timing t (x\<lparr>recv_buf_head := r\<rparr>) = same_timing t x"
  "same_timing t (x\<lparr>rcv_wnd := r\<rparr>) = same_timing t x"
  "same_timing t (x\<lparr>rcv_nxt := r\<rparr>) = same_timing t x"
  "same_timing t (x\<lparr>ooo_head := q\<rparr>) = same_timing t x"
  "same_timing t (x\<lparr>ooo_bytes := r\<rparr>) = same_timing t x"
  "same_timing t (x\<lparr>src_ip := r\<rparr>) = same_timing t x"
  "same_timing t (x\<lparr>src_port := p\<rparr>) = same_timing t x"
  "same_timing t (x\<lparr>dst_ip := r\<rparr>) = same_timing t x"
  "same_timing t (x\<lparr>dst_port := p\<rparr>) = same_timing t x"
  "same_timing t (x\<lparr>dst_udp_port := p\<rparr>) = same_timing t x"
  "same_timing t (x\<lparr>state := s\<rparr>) = same_timing t x"
  "same_timing t t"
  by (simp_all add: same_timing_def)

lemma cc_aimd_timing: "cc_aimd acked t = Inr t' \<Longrightarrow> same_timing t t'"
  by (auto simp: cc_aimd_def Let_def split: if_splits)

lemma cc_pure_timing: "same_timing t (cc_timeout f t)" "same_timing t (cc_init t)"
  by (simp_all add: cc_timeout_def cc_init_def Let_def)

lemma insert_ooo_timing: "insert_ooo_segment env t seq data w = (t', w') \<Longrightarrow> same_timing t t'"
  by (auto simp: insert_ooo_segment_def Let_def try_malloc_def split: prod.splits option.splits if_splits)

abbreviation keeps :: "(tcb \<Rightarrow> bool) \<Rightarrow> st res \<Rightarrow> bool" where
  "keeps P m \<equiv> ensures m (\<lambda>(t', w'). P t')"

context timing_invariant
begin

lemma cancelled: "P t \<Longrightarrow> P (cancel_delack t)"
  using delack [OF other [of t "t\<lparr>t_flags := clear_flag (t_flags t) TF_DELACK\<rparr>"], of 0] by (simp add: cancel_delack_def)

lemma keeps_output:
  assumes "P t"
  shows "keeps P (call_output env (t, w))"
proof -
  have "ensures (utcp_output env t w) (\<lambda>(_, t', w'). P t')"
    unfolding utcp_output_unfold
  proof (rule output_loop_rule [where I = "\<lambda>t w. P t"])
    fix force t1 w1 c n t2 w2
    assume I: "P t1" and it: "output_iter env (tcp_outflags (state t1)) force t1 w1 = Inr (c, n, t2, w2)"
    from it show "P t2" by (cases rule: output_iter_cases) (simp_all add: I cancelled sent)
  qed (rule other [OF _ assms], simp)
  then show ?thesis by (auto simp: call_output_def ensures_def rbind_eq_Inr)
qed

lemma keeps_output_of: "same_timing t t1 \<Longrightarrow> P t \<Longrightarrow> keeps P (call_output env (t1, w))"
  using keeps_output other by blast

lemma keeps_aimd: "same_timing t t1 \<Longrightarrow> P t \<Longrightarrow> keeps P (aimd_step acked (t1, w))"
  using other same_timing_trans by (auto simp: aimd_step_def ensures_def rbind_eq_Inr dest!: cc_aimd_timing)

lemma keeps_resend:
  assumes "same_timing t t1" "P t" "\<And>x. same_timing x (f x)"
  shows "keeps P (rbind (retransmit_step env (t1, w)) (\<lambda>(t2, w2). Inr (f t2, w2)))"
  using other [OF assms(1,2)] other [OF assms(3)] by (auto simp: retransmit_step_def ensures_def rbind_eq_Inr)

lemma keeps_resend_only: "same_timing t t1 \<Longrightarrow> P t \<Longrightarrow> keeps P (retransmit_step env (t1, w))"
  using keeps_resend [of t t1 "\<lambda>x. x"] by simp

lemmas keeps_branches = keeps_output_of keeps_aimd keeps_resend keeps_resend_only

lemma keeps_cong_control:
  assumes "P t"
  shows "keeps P (cong_control ops env ev (t, w))"
proof -
  have pure: "P t1" if "same_timing t t1" for t1 using other that assms by blast
  have tmo: "P (cc_timeout f (t\<lparr>recover := r\<rparr>))" for f r
    using other [OF cc_pure_timing(1) pure] by simp
  show ?thesis
    using tmo pure cc_pure_timing
    by (cases ops; cases ev)
      (auto simp: new_reno_ack_def new_reno_dup_ack_def lstm_reno_ack_def lstm_reno_dup_ack_def Let_def
        intro!: keeps_branches [OF _ assms])
qed

lemma keeps_log: "P t \<Longrightarrow> keeps P (log_lstm_event env t rtt acked dup to w)"
  using log_lstm_event_frame [of env t rtt acked dup to w] other same_timing_frames(1) by (fastforce simp: ensures_def)

lemma keeps_timeout:
  assumes "timed t"
  shows "keeps P (utcp_timers_rexmt env (t, w))"
proof (cases "unat (t_rxtshift t) < 12")
  case True
  let ?t = "rexmt_armed (of_nat (min 64 (2 ^ Suc (unat (t_rxtshift t))))) t"
  have "unat (t_rxtshift t + 1) = Suc (unat (t_rxtshift t))" using True by (simp add: unat_word_ariths)
  with True tcp_backoff_get(1) [of "Suc (unat (t_rxtshift t))"]
  have get: "arr_get tcp_backoff (unat (t_rxtshift t + 1)) = Inr (of_nat (min 64 (2 ^ Suc (unat (t_rxtshift t)))))" by simp
  have "keeps P (rbind (cong_control (cc_ops t1) env ev (t1\<lparr>snd_nxt := snd_una t1, t_rtt := 0\<rparr>, w1)) (call_output env))"
    if "P t1" for t1 w1 ev
    by (rule ensures_rbind [OF keeps_cong_control]) (use other [OF _ that] keeps_output in auto)
  then show ?thesis
    unfolding utcp_timers_rexmt_eq [OF get] by (intro ensures_rbind [OF keeps_log [OF expired [OF assms True]]]) auto
next
  case False
  then have "t_rxtshift t = 12" using assms word_unat_eq_iff [of "t_rxtshift t" 12] by (simp add: timed_def)
  then show ?thesis by (simp add: utcp_timers_rexmt_def tcp_backoff_get(2))
qed

lemma keeps_tick:
  assumes "P t"
  shows "keeps P (tick_timer env i (t, w))"
proof (cases "0 < sint (t_timer t i)")
  case True
  let ?t = "set_timer i (t_timer t i - 1) t"
  have delayed: "keeps P (call_output env (x\<lparr>t_flags := f\<rparr>, w))" if "P x" for x f by (rule keeps_output_of [OF _ that]) simp
  have rexmt: "keeps P (utcp_timers_rexmt env (?t, w))" if "i = 0"
    using timed_count [OF timed [OF assms] True] by (rule keeps_timeout)
  show ?thesis
  proof (cases "i = 0 \<and> t_timer t i = 1")
    case last: True
    then show ?thesis using rexmt True by (auto simp: tick_timer_def utcp_timers_def Let_def)
  next
    case False
    then have "P ?t" using counted [OF assms True] by blast
    with True rexmt delayed [OF this] show ?thesis by (auto simp: tick_timer_def utcp_timers_def Let_def)
  qed
qed (simp add: tick_timer_def assms)

lemma keeps_slowtimo:
  assumes "P t"
  shows "keeps P (slowtimo_tcb env (t, w))"
proof -
  have ticks: "keeps P (tick_timers env timers (t1, w1))" if "P t1" for timers t1 w1
    using that
  proof (induction timers arbitrary: t1 w1)
    case (Cons i timers)
    show ?case unfolding tick_timers.simps by (rule ensures_rbind [OF keeps_tick [OF Cons.prems]]) (use Cons.IH in auto)
  qed simp
  show ?thesis using assms other [OF _ assms] by (auto simp: slowtimo_tcb_def Let_def simp del: tick_timers.simps intro!: ticks)
qed

lemma keeps_new_ack:
  assumes "P t"
  shows "keeps P (handle_new_ack env buff hdr (t, w))"
proof -
  have slide: "ensures (slide_window hdr t) timed"
    using timed [OF assms] by (auto simp: slide_window_def Let_def ensures_def rbind_eq_Inr timed_def)
  have rtt: "ensures (measure_rtt env buff hdr (t1, w1)) (\<lambda>(_, t2, _). timed t2)" if "timed t1" for t1 w1
  proof -
    have "timed ((utcp_xmit_timer r t1)\<lparr>t_rtt := 0\<rparr>)" for r
      using that unat_clamp_rto by (simp add: timed_def utcp_xmit_timer_def Let_def)
    then show ?thesis using that by (auto simp: measure_rtt_def ensures_def rbind_eq_Inr Let_def split: option.splits if_splits)
  qed
  have rearm: "ensures (rearm_rexmt t1) P" if "timed t1" for t1 using rearmed [OF that] by (simp add: ensures_def)
  have event: "keeps P (rbind (cong_control (cc_ops t1) env ev (t1, w1)) (\<lambda>(t2, w2). log_lstm_event env t2 a b c d w2))"
    if "P t1" for t1 w1 ev a b c d
    by (rule ensures_rbind [OF keeps_cong_control [OF that]]) (use keeps_log in auto)
  show ?thesis
    unfolding handle_new_ack_def prod.case Let_def
    by (rule ensures_rbind [OF slide], rule ensures_rbind [OF rtt], assumption, clarify, rule ensures_rbind [OF rearm], assumption, rule event)
qed

lemma keeps_dup_ack:
  assumes "P t"
  shows "keeps P (handle_dup_ack env hdr n (t, w))"
proof -
  have event: "keeps P (rbind (cong_control ops env ev (t1, w)) (\<lambda>(t2, w2). log_lstm_event env t2 a b c d w2))"
    if "same_timing t t1" for ops t1 ev a b c d
    by (rule ensures_rbind [OF keeps_cong_control [OF other [OF that assms]]]) (use keeps_log in auto)
  show ?thesis
    using assms other [OF _ assms] unfolding handle_dup_ack_def prod.case Let_def
    by (intro ensures_rbind [where Q = "\<lambda>_. True"]) (auto simp: ensures_def [of _ "\<lambda>_. True"] intro!: event)
qed

lemma keeps_place_data:
  assumes "P t"
  shows "keeps P (place_data env seq data (t, w))"
proof -
  have policy: "P (ack_policy g t1)" if "same_timing t t1" for g t1
    using delack [OF other [OF _ assms], of "t1\<lparr>t_flags := f\<rparr>" 0 for f] delack [OF other [OF _ assms], of "t1\<lparr>t_flags := f\<rparr>" 20 for f] that
    by (simp add: ack_policy_def)
  have drain: "ensures (drain_ooo_queue t1) (same_timing t)" if "same_timing t t1" for t1
    by (rule ensures_mono [OF drain_frame]) (use same_timing_trans [OF that same_timing_frames(3)] in blast)
  have "keeps P (accept_in_order data (t, w))"
    unfolding accept_in_order_def prod.case Let_def
    by (rule ensures_rbind [where Q = "\<lambda>_. True"], simp add: ensures_def, rule ensures_rbind [OF drain]) (simp_all add: policy)
  then have "keeps P (rbind (accept_in_order data (t, w)) (call_output env))"
    by (rule ensures_rbind) (use keeps_output in auto)
  moreover have "keeps P (call_output env (t1\<lparr>t_flags := f\<rparr>, w1))" if "insert_ooo_segment env t seq data w = (t1, w1)" for t1 w1 f
    by (rule keeps_output_of [OF _ assms]) (use insert_ooo_timing [OF that] in simp)
  ultimately show ?thesis
    using assms by (auto simp: place_data_def Let_def split: prod.splits)
qed

lemma keeps_received:
  assumes "P t" and "length buff = 1500"
  shows "keeps P (handle_received_data env buff hdr data (t, w))"
proof -
  have data: "keeps P (handle_data env (th_seq hdr) data (t1, w1))" if "P t1" for t1 w1
    using keeps_place_data [OF that] keeps_output_of [OF _ that] by (auto simp: handle_data_def Let_def)
  have ack: "keeps P (handle_ack env buff hdr n (t1, w1))" if "P t1" for t1 w1 n
    using keeps_new_ack [OF that] keeps_dup_ack [OF that] that by (simp add: handle_ack_def)
  have "ensures (process_window_option buff hdr t) P"
    using process_window_option_returns [OF assms(2), of hdr t] other [OF same_timing_frames(2) assms(1)] by (auto simp: returns_def)
  then show ?thesis
    unfolding handle_received_data_def fst_conv snd_conv
    by (rule ensures_rbind) (rule ensures_rbind [OF ack], assumption, use data in auto)
qed

lemma keeps_send: "P t \<Longrightarrow> ensures (send_loop env data (t, w)) (\<lambda>(rest, t', w'). P t')"
proof (induction "length data" arbitrary: data t w rule: less_induct)
  case less
  define n where "n = min (length data) (unat (1048576 - (send_buf_tail t - send_buf_head t)))"
  show ?case
  proof (cases "data = [] \<or> 1048576 - (send_buf_tail t - send_buf_head t) = 0")
    case True
    then show ?thesis using less.prems by (subst send_loop.simps) (auto simp: Let_def)
  next
    case False
    have n: "length (drop n data) < length data" using False by (simp add: n_def unat_gt_0)
    have pass: "ensures (rbind (call_output env (t\<lparr>send_buf := buf, send_buf_tail := k\<rparr>, w)) (send_loop env (drop n data))) (\<lambda>(rest, t', w'). P t')" for buf k
      by (rule ensures_rbind [OF keeps_output_of [OF _ less.prems]]) (use less.hyps [OF n] in auto)
    have "ensures (rbind (ring_buf_write (send_buf t) 1048576 (send_buf_tail t) (take n data) n) (\<lambda>buf.
        rbind (call_output env (t\<lparr>send_buf := buf, send_buf_tail := send_buf_tail t + of_nat n\<rparr>, w)) (send_loop env (drop n data))))
        (\<lambda>(rest, t', w'). P t')"
      by (rule ensures_rbind [where Q = "\<lambda>_. True"]) (simp_all add: ensures_def [of _ "\<lambda>_. True"] pass)
    then show ?thesis
      using False by (subst send_loop.simps) (simp add: Let_def n_def)
  qed
qed

lemma keeps_read:
  assumes "P t"
  shows "ensures (read_wait env len (t, w)) (\<lambda>r. case r of Blocked \<Rightarrow> True | Done (bytes, t', w') \<Rightarrow> P t')"
proof -
  have out: "ensures (rbind (call_output env (t\<lparr>recv_buf_head := a, rcv_wnd := b, t_flags := c\<rparr>, w)) (\<lambda>s. Inr (bytes, s)))
      (\<lambda>(bytes, t', w'). P t')" for a b c bytes
    by (rule ensures_rbind [OF keeps_output_of [OF _ assms]]) auto
  have "ensures (read_available env len (t, w)) (\<lambda>(bytes, t', w'). P t')"
    unfolding read_available_def prod.case Let_def
    by (rule ensures_rbind [where Q = "\<lambda>_. True"]) (use other [OF _ assms] in \<open>auto simp: ensures_def [of _ "\<lambda>_. True"] intro: out\<close>)
  then show ?thesis using assms by (auto simp: read_wait_def ensures_def rbind_eq_Inr)
qed

end

section \<open>All blocks of a host\<close>

text \<open>The handshake sets sequence numbers and stops the retransmission timer.\<close>

lemma timed_options: "length buff = 1500 \<Longrightarrow> timed t \<Longrightarrow> ensures (process_window_option buff hdr t) timed"
  using process_window_option_returns [of buff hdr t] timed_other same_timing_frames(2) by (fastforce simp: returns_def)

lemma timed_fields:
  "timed (t\<lparr>snd_una := a\<rparr>) = timed t" "timed (t\<lparr>snd_nxt := b\<rparr>) = timed t" "timed (t\<lparr>snd_wnd := c\<rparr>) = timed t"
  "timed (t\<lparr>iss := d\<rparr>) = timed t" "timed (t\<lparr>irs := e\<rparr>) = timed t" "timed (t\<lparr>rcv_nxt := f\<rparr>) = timed t"
  "timed (t\<lparr>state := s\<rparr>) = timed t" "timed (t\<lparr>dst_port := p\<rparr>) = timed t" "timed (t\<lparr>dst_ip := i\<rparr>) = timed t"
  "timed (t\<lparr>dst_udp_port := q\<rparr>) = timed t" "timed (t\<lparr>t_flags := g\<rparr>) = timed t"
  by (simp_all add: timed_def)

lemma timed_stop: "timed t \<Longrightarrow> timed (set_timer TCPT_REXMT 0 (t\<lparr>t_rxtshift := 0\<rparr>))"
  by (simp add: timed_def)

lemma timed_listen:
  assumes "length buff = 1500" and "timed t"
  shows "keeps timed (input_listen env from buff hdr (t, w))"
proof -
  have "keeps timed (rbind (process_window_option buff hdr t) (\<lambda>tcb.
      let tcb = tcb\<lparr>dst_port := th_sport hdr, dst_ip := dg_ip from, dst_udp_port := dg_port from, irs := th_seq hdr, rcv_nxt := th_seq hdr + 1\<rparr>
      in rbind (GET_SCALED_WIN tcb hdr) (\<lambda>wnd.
         call_output env (tcb\<lparr>snd_wnd := wnd, iss := 0, snd_nxt := 0, snd_una := 0, state := TCP_SYN_RECV\<rparr>, w))))"
    unfolding Let_def
    by (rule ensures_rbind [OF timed_options [OF assms]], rule ensures_rbind [where Q = "\<lambda>_. True"], simp add: ensures_def)
      (rule tm.keeps_output, simp add: timed_fields)
  then show ?thesis using assms(2) by (simp add: input_listen_def)
qed

lemma timed_syn_sent:
  assumes "length buff = 1500" and "timed t"
  shows "keeps timed (input_syn_sent env buff hdr (t, w))"
proof -
  let ?t1 = "t\<lparr>snd_una := th_ack hdr, irs := th_seq hdr, rcv_nxt := th_seq hdr + 1, state := TCP_ESTABLISHED\<rparr>"
  have out: "keeps timed (call_output env (t2\<lparr>t_flags := f\<rparr>, w2))" if "timed t2" for t2 w2 f
    using that by (intro tm.keeps_output) (simp add: timed_fields)
  have init: "keeps timed (cong_control ops env TCP_CC_EVENT_INIT (set_timer TCPT_REXMT 0 (t2\<lparr>snd_wnd := wnd, t_rxtshift := 0\<rparr>), w))"
    if "timed t2" for t2 ops wnd
    using timed_stop [of "t2\<lparr>snd_wnd := wnd\<rparr>"] that by (intro tm.keeps_cong_control) (simp add: timed_fields)
  have "keeps timed (rbind (process_window_option buff hdr ?t1) (\<lambda>tcb. rbind (GET_SCALED_WIN tcb hdr) (\<lambda>wnd.
      rbind (cong_control (cc_ops tcb) env TCP_CC_EVENT_INIT (set_timer TCPT_REXMT 0 (tcb\<lparr>snd_wnd := wnd, t_rxtshift := 0\<rparr>), w))
      (\<lambda>(tcb, w). call_output env (tcb\<lparr>t_flags := set_flag (t_flags tcb) TF_ACKNOW\<rparr>, w)))))"
    by (rule ensures_rbind [OF timed_options [OF assms(1)]], simp add: timed_fields assms(2),
        rule ensures_rbind [where Q = "\<lambda>_. True"], simp add: ensures_def, rule ensures_rbind [OF init], assumption, use out in auto)
  then show ?thesis using assms(2) by (auto simp: input_syn_sent_def)
qed

lemma timed_syn_recv: "timed t \<Longrightarrow> keeps timed (input_syn_recv env hdr (t, w))"
  using tm.keeps_cong_control [OF timed_stop [of "t\<lparr>state := TCP_ESTABLISHED, snd_una := th_ack hdr\<rparr>"]]
  by (auto simp: input_syn_recv_def timed_fields)

lemma timed_segment:
  assumes "length buff = 1500" and "timed t"
  shows "keeps timed (input_segment env from buff hdr data (t, w))"
proof -
  have "keeps timed (rbind (input_syn_recv env hdr (t, w)) (handle_received_data env buff hdr data))"
    by (rule ensures_rbind [OF timed_syn_recv [OF assms(2)]]) (use tm.keeps_received assms(1) in auto)
  then show ?thesis
    using assms timed_listen timed_syn_sent tm.keeps_received
    by (cases "state t") (simp_all add: input_segment_def)
qed

interpretation timing: block_invariant timed
proof unfold_locales
  show "timed new_tcb" by (simp add: timed_def new_tcb_def calloc_tcb_def)
  fix env t t'
  assume "block_op env t t'" and J: "timed t"
  then show "timed t'"
  proof (cases rule: block_op.cases)
    case (connect port ip w w')
    then show ?thesis
      using tm.keeps_output [of "t\<lparr>dst_ip := ip, dst_port := port, dst_udp_port := 1970, state := TCP_SYN_SENT\<rparr>" env w] J
      by (simp add: timed_fields)
  next
    case (send data w rest w')
    then show ?thesis using tm.keeps_send [OF J, of env data w] by simp
  next
    case (read len w bytes w')
    then show ?thesis using tm.keeps_read [OF J, of env len w] by simp
  next
    case (input buff d hdr data w w')
    then show ?thesis using timed_segment [OF _ J, of buff env d hdr data w] by simp
  next
    case (tick w w')
    then show ?thesis using tm.keeps_slowtimo [OF J, of env w] by simp
  qed (use J in \<open>simp_all add: timed_def\<close>)
qed

section \<open>Data in flight is covered\<close>

text \<open>A fresh connection between two hosts that have run from their start.\<close>

definition live_start :: "(bool \<Rightarrow> env) \<Rightarrow> link \<Rightarrow> bool" where
  "live_start envs l \<longleftrightarrow> link_start l \<and> (\<forall>s. run.reachable (envs s) (hosts l s))"

interpretation live: transition_system "live_start envs" "link_step envs" for envs .

definition guarded_link :: "link \<Rightarrow> bool" where
  "guarded_link l \<longleftrightarrow> (\<forall>s t. host_ok (hosts l s) t \<longrightarrow> guarded t)"

lemma host_ok_unique: "host_ok h t \<Longrightarrow> host_ok h t' \<Longrightarrow> t' = t"
  by (simp add: host_ok_def)

lemma fresh_guarded:
  assumes "ep_ok [] ys N t" and "snd_una t = 1" and "timed t"
  shows "guarded t"
proof -
  note D = snd_invD [OF ep_okD(10) [OF assms(1)]]
  have "seq_pos t (snd_max t) = 0" using D(6) ep_okD(6) [OF assms(1)] by simp
  then have "snd_max t = 1" using D(1) by (simp add: seq_pos_def unat_eq_0)
  then show ?thesis using assms(2,3) by (simp add: guarded_def)
qed

lemma guarded_host_step:
  assumes "host_step env ev h h'" and "host_ok h t" and "state t = TCP_ESTABLISHED" and "guarded t" and "host_ok h' t'"
    and "ev \<in> {Wrote 0 data rest, Read 0 bytes, Received d, Tick}"
  shows "guarded t'"
proof -
  from assms(6) consider (wrote) "ev = Wrote 0 data rest" | (got) "ev = Read 0 bytes" | (received) "ev = Received d" | (ticked) "ev = Tick" by blast
  then show ?thesis
  proof cases
    case wrote
    with assms(1) have "host_step env (Wrote 0 data rest) h h'" by simp
    then obtain t1 w1 where "send_loop env data (t, h_world h) = Inr (rest, t1, w1)" and "host_ok h' t1"
      using host_write [OF _ assms(2)] by metis
    then show ?thesis
      using cv.keeps_send [OF assms(4), of env data "h_world h"] host_ok_unique [OF assms(5)] by auto
  next
    case got
    with assms(1) have "host_step env (Read 0 bytes) h h'" by simp
    then obtain len t1 w1 where "read_wait env len (t, h_world h) = Inr (Done (bytes, t1, w1))" and "host_ok h' t1"
      using host_read [OF _ assms(2)] by metis
    then show ?thesis
      using cv.keeps_read [OF assms(4), of env len "h_world h"] host_ok_unique [OF assms(5)] by auto
  next
    case received
    with assms(1) have "host_step env (Received d) h h'" by simp
    then obtain n hdr dat t1 w1 where "input_segment env d (h_buff h') hdr dat (t, h_world h) = Inr (t1, w1)" and "host_ok h' t1"
      using host_receive [OF _ assms(2)] by metis
    then show ?thesis
      using cv.keeps_received [OF assms(4), of "h_buff h'" env hdr dat "h_world h"] host_ok_unique [OF assms(5)] assms(3,5)
      by (auto simp: input_segment_def host_ok_def)
  next
    case ticked
    with assms(1) have "host_step env Tick h h'" by simp
    then obtain t1 w1 where "slowtimo_tcb env (t, h_world h) = Inr (t1, w1)" and "host_ok h' t1"
      using host_tick [OF _ assms(2)] by metis
    then show ?thesis
      using cv.keeps_slowtimo [OF assms(4), of env "h_world h"] host_ok_unique [OF assms(5)] by auto
  qed
qed

lemma guarded_step:
  assumes "link_inv l" and "guarded_link l" and "link_step envs l l'"
  shows "guarded_link l'"
proof -
  from assms(1,2) obtain T where T: "\<And>s. host_ok (hosts l s) (T s)" "\<And>s. state (T s) = TCP_ESTABLISHED" "\<And>s. guarded (T s)"
    unfolding link_inv_def side_ok_def guarded_link_def by (metis ep_okD(1))
  from assms(3) obtain s ev h data rest bytes d where h: "host_step (envs s) ev (hosts l s) h"
    "ev \<in> {Wrote 0 data rest, Read 0 bytes, Received d, Tick}" "hosts l' = (hosts l)(s := h)"
    by (cases rule: link_step.cases) auto
  then show ?thesis
    using guarded_host_step [OF h(1) T(1,2,3) _ h(2)] T(1,3) host_ok_unique unfolding guarded_link_def
    by (metis fun_upd_apply)
qed

lemma live_guarded:
  assumes "live.reachable envs l" and gs: "\<And>s. good_socket (envs s)"
  shows "link_inv l \<and> guarded_link l"
  using assms(1)
proof (rule live.invariant)
  fix l
  assume l: "live_start envs l"
  have "guarded t" if "host_ok (hosts l s) t" for s t
  proof -
    from l obtain t1 where "host_ok (hosts l s) t1" "ep_ok [] [] 0 t1" "snd_una t1 = 1"
      unfolding live_start_def link_start_def by blast
    moreover have "timed t" using timing.reachable_blocks [of "envs s" "hosts l s"] l that by (auto simp: live_start_def host_ok_def)
    ultimately show ?thesis using fresh_guarded host_ok_unique [OF that] by blast
  qed
  then show "link_inv l \<and> guarded_link l" using l link_start_inv by (simp add: live_start_def guarded_link_def)
qed (use guarded_step link_inv_step gs in blast)

section \<open>What a running timer leads to\<close>

fun ticks :: "env \<Rightarrow> nat \<Rightarrow> st \<Rightarrow> st res" where
  "ticks env 0 s = Inr s"
| "ticks env (Suc n) s = rbind (slowtimo_tcb env s) (ticks env n)"

text \<open>The part of a tick after the retransmission timer: at most the delayed acknowledgement goes out.\<close>

lemma tick_zero: "t_timer t i = 0 \<Longrightarrow> tick_timer env i (t, w) = Inr (t, w)"
  by (simp add: tick_timer_def)

lemma tick_idle_timers:
  assumes "timed t"
  shows "tick_timers env [1, 2, 3, 4] (t, w) = tick_timer env 4 (t, w)"
proof -
  have "t_timer t 1 = 0" "t_timer t 2 = 0" "t_timer t 3 = 0" using assms by (simp_all add: timed_def)
  then show ?thesis using tick_zero [of t 1 env w] tick_zero [of t 2 env w] tick_zero [of t 3 env w]
    by (cases "tick_timer env 4 (t, w)") simp_all
qed

definition same_peer :: "tcb \<Rightarrow> tcb \<Rightarrow> bool" where
  "same_peer t t' \<longleftrightarrow> same_conn t t' \<and> snd_wnd t' = snd_wnd t \<and> t_rxtshift t' = t_rxtshift t"

lemma tick_delack:
  assumes env: "good_env env" and cs: "can_send t"
  shows "returns (tick_timer env 4 (t, w)) (\<lambda>(t', w'). same_peer t t' \<and> grows w w' \<and> (t_timer t 0 \<noteq> 0 \<longrightarrow> t_timer t' 0 = t_timer t 0))"
proof (cases "0 < sint (t_timer t 4) \<and> t_timer t 4 = 1")
  case True
  let ?t = "(set_timer 4 0 t)\<lparr>t_flags := set_flag (clear_flag (t_flags t) TF_DELACK) TF_ACKNOW\<rparr>"
  have "can_send ?t" using cs by (simp add: can_send_def)
  from utcp_output_returns [OF env this, of w] obtain k t' w' where out: "utcp_output env ?t w = Inr (k, t', w')" by (auto simp: returns_def)
  have "same_but_output ?t t'" "grows w w'" "t_timer ?t 0 \<noteq> 0 \<longrightarrow> t_timer t' 0 = t_timer ?t 0"
    using utcp_output_frame [of env ?t w] utcp_output_rexmt [of ?t env w] out by (auto simp: grows_def extends_def)
  moreover from this(1) have "same_peer t t'"
    using same_conn_output [of ?t t'] by (auto simp: same_peer_def same_conn_def same_but_output_simps)
  ultimately show ?thesis
    using True out by (simp add: tick_timer_def utcp_timers_def call_output_def)
next
  case False
  then show ?thesis by (auto simp: tick_timer_def Let_def same_peer_def)
qed

text \<open>A tick of an established connection, by the retransmission timer.\<close>

definition idled :: "tcb \<Rightarrow> tcb" where
  "idled t = (if t_rtt t > 0 then t\<lparr>t_idle := t_idle t + 1, t_rtt := t_rtt t + 1\<rparr> else t\<lparr>t_idle := t_idle t + 1\<rparr>)"

lemma slowtimo_established:
  assumes "state t = TCP_ESTABLISHED"
  shows "slowtimo_tcb env (t, w) = rbind (tick_timer env 0 (idled t, w)) (tick_timers env [1, 2, 3, 4])"
  using assms by (simp add: slowtimo_tcb_def idled_def Let_def)

lemma idled_simps [simp]:
  "same_timing t (idled t)" "same_conn t (idled t)" "t_timer (idled t) = t_timer t" "t_rxtshift (idled t) = t_rxtshift t"
  "snd_wnd (idled t) = snd_wnd t" "t_rxtcur (idled t) = t_rxtcur t" "state (idled t) = state t" "rcv_scale (idled t) = rcv_scale t"
  "snd_una (idled t) = snd_una t" "send_buf (idled t) = send_buf t"
  by (simp_all add: idled_def)

lemma tick_before_timeout:
  assumes env: "good_env env" and cov: "guarded t" and est: "state t = TCP_ESTABLISHED" and cs: "can_send t" and run: "1 < unat (t_timer t 0)"
  shows "returns (slowtimo_tcb env (t, w)) (\<lambda>(t', w'). same_peer t t' \<and> grows w w' \<and> unat (t_timer t' 0) = unat (t_timer t 0) - 1)"
proof -
  let ?t = "set_timer 0 (t_timer t 0 - 1) (idled t)"
  have "timed t" using cov by (simp add: guarded_def)
  then have pos: "0 < sint (t_timer t 0)" using timed_positive [of t 0] run by linarith
  have dec: "unat (t_timer t 0 - 1) = unat (t_timer t 0) - 1" using run by (intro unat_dec) auto
  then have ne: "t_timer t 0 - 1 \<noteq> 0" using run by (metis unsigned_0 diff_is_0_eq not_le)
  have "timed ?t" using timed_count [of "idled t" 0] timed_other [of t "idled t"] cov pos by (simp add: guarded_def)
  moreover have "tick_timer env 0 (idled t, w) = Inr (?t, w)" using pos ne by (simp add: tick_timer_def)
  ultimately have eq: "slowtimo_tcb env (t, w) = tick_timer env 4 (?t, w)"
    by (simp only: slowtimo_established [OF est] rbind_simps tick_idle_timers)
  have "can_send ?t" using cs by (simp add: can_send_def)
  from tick_delack [OF env this, of w] show ?thesis
    unfolding eq using dec ne idled_simps(2) [of t] same_conn_trans [of t "idled t"]
    by (auto elim!: returns_mono simp: same_peer_def same_conn_def)
qed

lemma tick_timeout:
  assumes env: "good_env env" and cov: "guarded t" and inv: "snd_inv S t" and est: "state t = TCP_ESTABLISHED" and sc: "unat (rcv_scale t) < 32"
    and last: "t_timer t 0 = 1" and shift: "unat (t_rxtshift t) < 12" and unacked: "seq_pos t (snd_una t) < snd_written t" and wnd: "snd_wnd t \<noteq> 0"
  shows "returns (slowtimo_tcb env (t, w)) (\<lambda>(t', w'). grows w w' \<and> t_rxtshift t' = t_rxtshift t + 1 \<and> snd_wnd t' = snd_wnd t \<and> t_timer t' 0 \<noteq> 0 \<and> (\<exists>d \<in> set (appended w w').
    returns (seg_view d) (\<lambda>(h, data). th_seq h = snd_una t \<and> data = sub_stream S (seq_pos t (snd_una t))
      (min MSS (min (unat (snd_wnd t)) (snd_written t - seq_pos t (snd_una t)))))))"
proof -
  let ?t = "set_timer 0 0 (idled t)"
  have c: "same_conn t ?t" using idled_simps(2) [of t] by (simp add: same_conn_def)
  have pos: "seq_pos ?t q = seq_pos t q" "snd_written ?t = snd_written t" for q
    using c by (simp_all add: seq_pos_def snd_written_def same_conn_def)
  have "snd_inv S ?t" by (rule snd_inv_rollback [OF inv]) (simp_all add: idled_def)
  moreover have "unat (t_rxtcur ?t) \<le> 6400" using cov by (simp add: guarded_def timed_def)
  ultimately obtain t1 w1 d ds where t1: "utcp_timers env 0 (?t, w) = Inr (t1, w1)" "t_rxtshift t1 = t_rxtshift t + 1" "appended w w1 = d # ds"
      "unat (t_timer t1 0) = min 6400 ((if t_rxtcur t = 0 then 100 else unat (t_rxtcur t)) * min 64 (2 ^ Suc (unat (t_rxtshift t))))"
    and d: "returns (seg_view d) (\<lambda>(h, data). th_seq h = snd_una t \<and> data = sub_stream S (seq_pos t (snd_una t))
      (min MSS (min (unat (snd_wnd t)) (snd_written t - seq_pos t (snd_una t)))))"
    using rexmt_goes_back [of env S ?t w] assms pos by (auto simp: returns_def)
  have "snd_wnd t1 = snd_wnd t"
    by (rule rexmt_prepare [OF env, of ?t w])
      (use shift t1(1) ensuresD [OF call_output_frame] in \<open>fastforce simp: utcp_timers_def same_but_output_simps\<close>)+
  moreover have "0 < unat (t_timer t1 0)" unfolding t1(4) by (simp add: unat_gt_0)
  then have "t_timer t1 0 \<noteq> 0" by (simp add: unat_gt_0)
  moreover have step: "tick_timer env 0 (idled t, w) = Inr (t1, w1)" using t1(1) last by (simp add: tick_timer_def)
  moreover have "same_conn t t1" "grows w w1"
    using safe_step_tick [of env "idled t" w 0] step idled_simps(2) [of t] by (auto simp: safe_step_def same_conn_def)
  moreover have "guarded (idled t)" using cv.other [OF _ cov] by simp
  then have "timed t1" using cv.keeps_tick [of "idled t" env 0 w] step by (simp add: guarded_def)
  moreover have "can_send t1" using \<open>same_conn t t1\<close> sc snd_invD(2) [OF inv] by (simp add: same_conn_def can_send_def)
  ultimately show ?thesis
    using tick_delack [OF env, of t1 w1] t1(2,3) d grows_trans [of w w1]
    unfolding slowtimo_established [OF est] step rbind_simps
    by (simp only: tick_idle_timers) (auto elim!: returns_mono simp: same_peer_def)
qed

lemma ticks_resend:
  assumes "good_env env" and "guarded t" and "snd_inv S t" and "state t = TCP_ESTABLISHED" and "unat (rcv_scale t) < 32"
    and "unat (t_rxtshift t) < 12" and "seq_pos t (snd_una t) < snd_written t" and "snd_wnd t \<noteq> 0" and "unat (t_timer t 0) = Suc n"
  shows "returns (ticks env (Suc n) (t, w)) (\<lambda>(t', w'). grows w w' \<and> t_rxtshift t' = t_rxtshift t + 1 \<and> snd_wnd t' = snd_wnd t \<and> t_timer t' 0 \<noteq> 0 \<and> (\<exists>d \<in> set (appended w w').
    returns (seg_view d) (\<lambda>(h, data). th_seq h = snd_una t \<and> data = sub_stream S (seq_pos t (snd_una t))
      (min MSS (min (unat (snd_wnd t)) (snd_written t - seq_pos t (snd_una t)))))))"
  using assms(2-)
proof (induction n arbitrary: t w)
  case 0
  have "t_timer t 0 = 1" using word_unat_eq_iff [of "t_timer t 0" 1] 0(8) by simp
  from tick_timeout [OF assms(1) 0(1-4) this 0(5-7), of w] show ?case
    by (cases "slowtimo_tcb env (t, w)") (simp_all only: ticks.simps rbind_simps)
next
  case (Suc n)
  have cs: "can_send t" using Suc.prems(4) snd_invD(2) [OF Suc.prems(2)] by (simp add: can_send_def)
  from tick_before_timeout [OF assms(1) Suc.prems(1,3) cs, of w] Suc.prems(8)
  obtain t1 w1 where step: "slowtimo_tcb env (t, w) = Inr (t1, w1)" and t1: "same_conn t t1" "snd_wnd t1 = snd_wnd t" "t_rxtshift t1 = t_rxtshift t"
    "grows w w1" "unat (t_timer t1 0) = Suc n"
    by (auto simp: returns_def same_peer_def)
  have gs: "good_socket env" using assms(1) by (simp add: good_env_def good_socket_def)
  have "guarded t1" using cv.keeps_slowtimo [OF Suc.prems(1), of env w] step by simp
  moreover have "snd_inv S t1" using safe_step_slowtimo [of env t w] step Suc.prems(2,3) gs by (auto simp: safe_step_def)
  moreover have pos: "seq_pos t1 q = seq_pos t q" "snd_written t1 = snd_written t" "snd_una t1 = snd_una t" for q
    using t1(1) by (simp_all add: same_conn_def seq_pos_def snd_written_def)
  ultimately have "returns (ticks env (Suc n) (t1, w1)) (\<lambda>(t', w'). grows w1 w' \<and> t_rxtshift t' = t_rxtshift t + 1 \<and> snd_wnd t' = snd_wnd t \<and> t_timer t' 0 \<noteq> 0 \<and> (\<exists>d \<in> set (appended w1 w').
    returns (seg_view d) (\<lambda>(h, data). th_seq h = snd_una t \<and> data = sub_stream S (seq_pos t (snd_una t))
      (min MSS (min (unat (snd_wnd t)) (snd_written t - seq_pos t (snd_una t)))))))"
    using Suc.IH [of t1 w1] Suc.prems t1 by (simp add: same_conn_def)
  moreover have "ticks env (Suc (Suc n)) (t, w) = ticks env (Suc n) (t1, w1)" by (simp add: step)
  moreover have "grows w w'" "set (appended w1 w') \<subseteq> set (appended w w')" if "grows w1 w'" for w'
    using grows_trans [OF t1(4) that] by auto
  ultimately show ?case by (simp only:) (erule returns_mono, blast)
qed

text \<open>What all ticks keep, and the thirteenth timeout in a row.\<close>

lemma ticks_add: "ticks env (m + n) s = rbind (ticks env m s) (ticks env n)"
proof (induction m arbitrary: s)
  case (Suc m)
  then show ?case by (cases "slowtimo_tcb env s") simp_all
qed simp

lemma ticks_keep:
  assumes "good_socket env"
  shows "guarded t \<Longrightarrow> snd_inv S t \<Longrightarrow> state t = TCP_ESTABLISHED \<Longrightarrow>
    ensures (ticks env n (t, w)) (\<lambda>(t', w'). guarded t' \<and> snd_inv S t' \<and> same_conn t t')"
proof (induction n arbitrary: t w)
  case (Suc n)
  have "ensures (slowtimo_tcb env (t, w)) (\<lambda>(t', w'). guarded t' \<and> snd_inv S t' \<and> same_conn t t')"
    using cv.keeps_slowtimo [OF Suc.prems(1), of env w] safe_step_slowtimo [of env t w] Suc.prems(2,3) assms
    by (auto simp: safe_step_def ensures_def)
  then show ?case
    unfolding ticks.simps
  proof (rule ensures_rbind)
    fix x :: st
    assume "case x of (t', w') \<Rightarrow> guarded t' \<and> snd_inv S t' \<and> same_conn t t'"
    then show "ensures (ticks env n x) (\<lambda>(t', w'). guarded t' \<and> snd_inv S t' \<and> same_conn t t')"
      using Suc.IH [of "fst x" "snd x"] Suc.prems(3) same_conn_trans by (cases x) (auto simp: same_conn_def elim!: ensures_mono)
  qed
qed simp

lemma ticks_thirteenth:
  assumes "good_env env" and "guarded t" and "state t = TCP_ESTABLISHED" and "can_send t" and "t_rxtshift t = 12" and "unat (t_timer t 0) = Suc n"
  shows "ticks env (Suc n) (t, w) = Inl Out_of_bounds"
  using assms(2-)
proof (induction n arbitrary: t w)
  case 0
  have "t_timer t 0 = 1" using word_unat_eq_iff [of "t_timer t 0" 1] 0(5) by simp
  then have "tick_timer env 0 (idled t, w) = utcp_timers env 0 (set_timer 0 0 (idled t), w)" by (simp add: tick_timer_def)
  also have "\<dots> = Inl Out_of_bounds" using 0(4) by (simp add: utcp_timers_def utcp_timers_rexmt_def tcp_backoff_get(2))
  finally show ?case using 0(2) by (simp add: slowtimo_established)
next
  case (Suc n)
  from tick_before_timeout [OF assms(1) Suc.prems(1-3), of w] Suc.prems(5)
  obtain t1 w1 where step: "slowtimo_tcb env (t, w) = Inr (t1, w1)" and t1: "same_conn t t1" "t_rxtshift t1 = t_rxtshift t"
    "unat (t_timer t1 0) = Suc n"
    by (auto simp: returns_def same_peer_def)
  have "guarded t1" using cv.keeps_slowtimo [OF Suc.prems(1), of env w] step by simp
  moreover have "ticks env (Suc (Suc n)) (t, w) = ticks env (Suc n) (t1, w1)" by (simp add: step)
  ultimately show ?case
    using Suc.IH [of t1 w1] Suc.prems t1 same_conn_can_send [OF t1(1)] by (simp add: same_conn_def)
qed

lemma guarded_running:
  assumes "guarded t" and "snd_inv S t" and "snd_una t \<noteq> snd_max t"
  shows "t_timer t 0 \<noteq> 0" and "seq_pos t (snd_una t) < snd_written t"
proof -
  have "seq_pos t (snd_una t) \<noteq> seq_pos t (snd_max t)" using assms(3) by (simp add: seq_pos_def flip: word_unat_eq_iff)
  then show "seq_pos t (snd_una t) < snd_written t" using snd_invD(4-6) [OF assms(2)] by simp
  show "t_timer t 0 \<noteq> 0" using assms(1,3) by (simp add: guarded_def)
qed

lemma timer_ticks:
  assumes "guarded t" and "t_timer t 0 \<noteq> 0"
  obtains n where "unat (t_timer t 0) = Suc n" and "Suc n \<le> 6400"
  using assms by (auto simp: guarded_def timed_def) (metis unat_eq_0 not0_implies_Suc)

lemma silent_peer_fails:
  assumes env: "good_env env"
  shows "guarded t \<Longrightarrow> snd_inv S t \<Longrightarrow> state t = TCP_ESTABLISHED \<Longrightarrow> unat (rcv_scale t) < 32 \<Longrightarrow> snd_wnd t \<noteq> 0 \<Longrightarrow>
    t_timer t 0 \<noteq> 0 \<Longrightarrow> seq_pos t (snd_una t) < snd_written t \<Longrightarrow> unat (t_rxtshift t) + k = 12 \<Longrightarrow>
    \<exists>n \<le> Suc k * 6400. ticks env n (t, w) = Inl Out_of_bounds"
proof (induction k arbitrary: t w)
  case 0
  have cs: "can_send t" using 0(4) snd_invD(2) [OF 0(2)] by (simp add: can_send_def)
  have s: "t_rxtshift t = 12" using 0(8) word_unat_eq_iff [of "t_rxtshift t" 12] by simp
  obtain n where n: "unat (t_timer t 0) = Suc n" "Suc n \<le> 6400" by (rule timer_ticks [OF 0(1,6)])
  show ?case using ticks_thirteenth [OF env 0(1,3) cs s n(1), of w] n(2) by (intro exI [of _ "Suc n"]) (simp del: ticks.simps)
next
  case (Suc k)
  have gs: "good_socket env" using env by (simp add: good_env_def good_socket_def)
  obtain n where n: "unat (t_timer t 0) = Suc n" "Suc n \<le> 6400" by (rule timer_ticks [OF Suc.prems(1,6)])
  have "unat (t_rxtshift t) < 12" using Suc.prems(8) by simp
  from ticks_resend [OF env Suc.prems(1-4) this Suc.prems(7,5) n(1), of w]
  obtain t1 w1 where run: "ticks env (Suc n) (t, w) = Inr (t1, w1)" and t1: "t_rxtshift t1 = t_rxtshift t + 1" "snd_wnd t1 = snd_wnd t" "t_timer t1 0 \<noteq> 0"
    by (auto simp: returns_def simp del: ticks.simps)
  have k: "guarded t1" "snd_inv S t1" "same_conn t t1" using ticks_keep [OF gs Suc.prems(1-3), of "Suc n" w] run by (auto simp del: ticks.simps)
  have "unat (t_rxtshift t1) = Suc (unat (t_rxtshift t))" using t1(1) Suc.prems(8) by (simp add: unat_word_ariths)
  then obtain m where m: "m \<le> Suc k * 6400" "ticks env m (t1, w1) = Inl Out_of_bounds"
    using Suc.IH [of t1 w1] Suc.prems k t1 by (auto simp: same_conn_def seq_pos_def snd_written_def)
  have "ticks env (Suc n + m) (t, w) = Inl Out_of_bounds" unfolding ticks_add run rbind_simps by (rule m(2))
  then show ?case using m(1) n(2) by (intro exI [of _ "Suc n + m"]) simp
qed

section \<open>A closed window\<close>

text \<open>
  A connection at rest: no timer runs, no acknowledgement is due, nothing is left to read and nothing may be sent; and one whose peer has
  closed its window, so that nothing more may be sent whatever the application writes.
\<close>

definition at_rest :: "tcb \<Rightarrow> bool" where
  "at_rest t \<longleftrightarrow> state t = TCP_ESTABLISHED \<and> (\<forall>i. t_timer t i = 0) \<and> \<not> has_flag (t_flags t) TF_ACKNOW \<and>
     recv_buf_head t = recv_buf_tail t \<and> output_data_length t = 0"

definition shut :: "tcb \<Rightarrow> bool" where
  "shut t \<longleftrightarrow> at_rest t \<and> snd_wnd t = 0"

lemma closed_no_data: "snd_wnd t = 0 \<Longrightarrow> output_data_length t = 0"
  by (auto simp: output_data_length_def send_window_def Let_def not_less)

lemma shut_output: "shut t \<Longrightarrow> call_output env (t, w) = Inr (t, w)"
  by (rule quiet_output) (simp_all add: shut_def at_rest_def)

lemma rest_tick: "at_rest t \<Longrightarrow> \<exists>t'. slowtimo_tcb env (t, w) = Inr (t', w) \<and> at_rest t' \<and> snd_wnd t' = snd_wnd t"
proof -
  assume r: "at_rest t"
  have "snd_nxt (idled t) = snd_nxt t" "send_window (idled t) = send_window t" "buffered_data (idled t) = buffered_data t"
    by (simp_all add: idled_def send_window_def buffered_data_def Let_def)
  then have len: "output_data_length (idled t) = output_data_length t" by (simp only: output_data_length_def idled_simps)
  have "tick_timers env timers (idled t, w) = Inr (idled t, w)" for timers
    using r by (induction timers) (simp_all add: tick_zero at_rest_def)
  then have "slowtimo_tcb env (t, w) = Inr (idled t, w)" using r by (simp add: slowtimo_established tick_zero at_rest_def)
  moreover have "at_rest (idled t)" using r len by (simp add: at_rest_def) (simp add: idled_def)
  ultimately show ?thesis by simp
qed

lemma shut_send: "shut t \<Longrightarrow> ensures (send_loop env data (t, w)) (\<lambda>(rest, t', w'). shut t' \<and> w' = w)"
proof (induction "length data" arbitrary: data t rule: less_induct)
  case less
  define n where "n = min (length data) (unat (1048576 - (send_buf_tail t - send_buf_head t)))"
  show ?case
  proof (cases "data = [] \<or> 1048576 - (send_buf_tail t - send_buf_head t) = 0")
    case True
    then show ?thesis using less.prems by (subst send_loop.simps) (auto simp: Let_def)
  next
    case False
    have n: "length (drop n data) < length data" using False by (simp add: n_def unat_gt_0)
    have sh: "shut (t\<lparr>send_buf := buf, send_buf_tail := k\<rparr>)" for buf k using less.prems by (simp add: shut_def at_rest_def closed_no_data)
    have "ensures (rbind (ring_buf_write (send_buf t) 1048576 (send_buf_tail t) (take n data) n) (\<lambda>buf.
        rbind (call_output env (t\<lparr>send_buf := buf, send_buf_tail := send_buf_tail t + of_nat n\<rparr>, w)) (send_loop env (drop n data))))
        (\<lambda>(rest, t', w'). shut t' \<and> w' = w)"
      by (rule ensures_rbind [where Q = "\<lambda>_. True"]) (simp_all add: ensures_def [of _ "\<lambda>_. True"] shut_output [OF sh] less.hyps [OF n sh])
    then show ?thesis using False by (subst send_loop.simps) (simp add: Let_def n_def)
  qed
qed

text \<open>Steps in which the network delivers nothing, and only the first application writes.\<close>

inductive undelivered :: "(bool \<Rightarrow> env) \<Rightarrow> link \<Rightarrow> link \<Rightarrow> bool" for envs :: "bool \<Rightarrow> env" where
  app_write: "host_step (envs False) (Wrote 0 data rest) (hosts l False) h \<Longrightarrow>
    undelivered envs l (l\<lparr>hosts := (hosts l)(False := h), written := (written l)(False := written l False @ take (length data - length rest) data)\<rparr>)"
| app_read: "host_step (envs s) (Read 0 bytes) (hosts l s) h \<Longrightarrow>
    undelivered envs l (l\<lparr>hosts := (hosts l)(s := h), got := (got l)(s := got l s @ bytes)\<rparr>)"
| timer: "host_step (envs s) Tick (hosts l s) h \<Longrightarrow> undelivered envs l (l\<lparr>hosts := (hosts l)(s := h)\<rparr>)"

text \<open>The first side is shut out by its peer, the second at rest.\<close>

definition stuck :: "bool \<Rightarrow> host \<Rightarrow> bool" where
  "stuck s h \<longleftrightarrow> (\<exists>t. host_ok h t \<and> at_rest t \<and> (\<not> s \<longrightarrow> snd_wnd t = 0))"

lemma stuck_write:
  assumes "stuck False h" and "host_step env (Wrote 0 data rest) h h'"
  shows "stuck False h' \<and> sent (h_world h') = sent (h_world h)"
proof -
  from assms(1) obtain t where t: "host_ok h t" "shut t" unfolding stuck_def shut_def by blast
  from host_write [OF assms(2) t(1)] obtain t' where "send_loop env data (t, h_world h) = Inr (rest, t', h_world h')" "host_ok h' t'" by metis
  then show ?thesis using shut_send [OF t(2), of env data "h_world h"] by (auto simp: stuck_def shut_def)
qed

lemma stuck_tick:
  assumes "stuck s h" and "host_step env Tick h h'"
  shows "stuck s h' \<and> sent (h_world h') = sent (h_world h)"
proof -
  from assms(1) obtain t where t: "host_ok h t" "at_rest t" "\<not> s \<longrightarrow> snd_wnd t = 0" unfolding stuck_def by blast
  from host_tick [OF assms(2) t(1)] obtain t' w' where "slowtimo_tcb env (t, h_world h) = Inr (t', w')" "host_ok h' t'" "sent (h_world h') = sent w'"
    by metis
  then show ?thesis using rest_tick [OF t(2), of env "h_world h"] t(3) by (auto simp: stuck_def)
qed

lemma stuck_read: "stuck s h \<Longrightarrow> \<not> host_step env (Read 0 bytes) h h'"
  unfolding stuck_def by (auto elim!: host_read simp: read_wait_def at_rest_def)

lemma undelivered_stuck:
  assumes "\<forall>s. stuck s (hosts l s)" and "undelivered envs l l'"
  shows "(\<forall>s. stuck s (hosts l' s) \<and> sent (h_world (hosts l' s)) = sent (h_world (hosts l s))) \<and> got l' = got l"
  using assms(2)
proof cases
  case (app_write data rest h)
  then show ?thesis using stuck_write [OF spec [OF assms(1)] app_write(2)] assms(1) by simp
next
  case (app_read s bytes h)
  then show ?thesis using stuck_read assms(1) by blast
next
  case (timer s h)
  then show ?thesis using stuck_tick [OF spec [OF assms(1)] timer(2)] assms(1) by simp
qed

section \<open>Properties\<close>

text \<open>
  C22: Whatever the calls, datagrams and timer rounds, in every block of every reachable host the retransmission timeout lies between
  200 ms and 64 s (20 and 6400 ticks), no timer, kept in a signed 16-bit field, is negative or above 64 s, and at most twelve timeouts have been
  counted in a row.
\<close>

theorem timers_bounded:
  assumes "run.reachable env h" and "Some t \<in> set (h_table h)"
  shows "20 \<le> unat (t_rxtcur t) \<and> unat (t_rxtcur t) \<le> 6400 \<and> unat (t_rxtshift t) \<le> TCP_MAXRXTSHIFT \<and>
    0 \<le> sint (t_timer t i) \<and> sint (t_timer t i) \<le> 6400"
proof -
  have t: "timed t" using timing.reachable_blocks [OF assms(1)] assms(2) by blast
  then show ?thesis using timer_range(1,2) [OF t, of i] by (simp add: timed_def)
qed

theorem timers_bounded_witness: "20 \<le> unat (t_rxtcur new_tcb) \<and> sint (t_timer new_tcb TCPT_REXMT) \<le> 6400"
  using timers_bounded [OF host1_reachable, of new_tcb] by (simp add: host1_def)

text \<open>
  C20: Data in flight is always covered: on a connection between two hosts that ran from their start, whatever is lost, repeated
  or reordered, a side that has sent data which is not acknowledged has its retransmission timer running, for at most 64 s.
\<close>

theorem flight_covered_by_timer:
  assumes "live.reachable envs l" and "\<And>s. good_socket (envs s)"
  shows "\<exists>t. h_table (hosts l s) ! 0 = Some t \<and>
    (snd_una t \<noteq> snd_max t \<longrightarrow> 0 < sint (t_timer t TCPT_REXMT) \<and> sint (t_timer t TCPT_REXMT) \<le> 6400)"
proof -
  from live_guarded [OF assms] obtain t where t: "host_ok (hosts l s) t" "guarded t"
    unfolding link_inv_def side_ok_def guarded_link_def by blast
  then have "snd_una t \<noteq> snd_max t \<longrightarrow> 0 < sint (t_timer t 0) \<and> sint (t_timer t 0) \<le> 6400"
    using timer_range [of t 0] by (simp add: guarded_def)
  then show ?thesis using t(1) by (auto simp: host_ok_def)
qed

text \<open>Two hosts that open a socket each, bind, listen and connect.\<close>

lemma reachable_bound:
  "run.reachable env0 (host1\<lparr>h_table := Some (bound a p) # replicate 5 None\<rparr>)"
  "run.reachable env0 (host1\<lparr>h_table := Some ((bound a p)\<lparr>state := TCP_LISTEN\<rparr>) # replicate 5 None\<rparr>)"
proof -
  let ?h = "host1\<lparr>h_table := Some (bound a p) # replicate 5 None\<rparr>"
  have "host_step env0 (Bind 0) host1 ?h"
    by (rule host_step.bind [where addr = "\<lparr>sin_family = AF_INET, sin_addr = a, sin_port = p\<rparr>"]) (simp add: host1_def bind_single)
  then show r: "run.reachable env0 ?h" using run.reachable.step [OF host1_reachable] by blast
  have "host_step env0 (Listen 0) ?h (?h\<lparr>h_table := Some ((bound a p)\<lparr>state := TCP_LISTEN\<rparr>) # replicate 5 None\<rparr>)"
    by (rule host_step.listen) (simp add: listen_single)
  then show "run.reachable env0 (host1\<lparr>h_table := Some ((bound a p)\<lparr>state := TCP_LISTEN\<rparr>) # replicate 5 None\<rparr>)"
    using run.reachable.step [OF r] by fastforce
qed

lemma live_example: "\<exists>l. live_start (\<lambda>_. env0) l"
proof -
  let ?c = "host1\<lparr>h_table := Some (bound 1 7) # replicate 5 None\<rparr>"
  let ?s = "host1\<lparr>h_table := Some ((bound 2 9)\<lparr>state := TCP_LISTEN\<rparr>) # replicate 5 None\<rparr>"
  have h: "host_ok ?c (bound 1 7)" "host_ok ?s ((bound 2 9)\<lparr>state := TCP_LISTEN\<rparr>)" "sent (h_world ?c) = []" "sent (h_world ?s) = []"
    by (simp_all add: host_ok_def host1_def host0_def world0_def)
  obtain c1 c2 s1 s2 d1 d2 d3 where "host_step env0 (Connect 0) ?c c1" "host_step env0 (Received (d1\<lparr>dg_ip := 1\<rparr>)) ?s s1"
    "host_step env0 (Received (d2\<lparr>dg_ip := 2\<rparr>)) c1 c2" "host_step env0 (Received (d3\<lparr>dg_ip := 1\<rparr>)) s1 s2" and l: "opened (link_of c2 s2)"
    by (rule handshake_run [OF good_env0 good_env0 h, of 1 2])
  then have "run.reachable env0 c2" "run.reachable env0 s2"
    using reachable_bound run.reachable.step by meson+
  with l show ?thesis by (intro exI [of _ "link_of c2 s2"]) (simp add: live_start_def opened_def)
qed

theorem flight_covered_by_timer_witness:
  "\<exists>l t. live.reachable (\<lambda>_. env0) l \<and> h_table (hosts l True) ! 0 = Some t \<and>
    (snd_una t \<noteq> snd_max t \<longrightarrow> 0 < sint (t_timer t TCPT_REXMT) \<and> sint (t_timer t TCPT_REXMT) \<le> 6400)"
  using live_example live.reachable.init flight_covered_by_timer [of "\<lambda>_. env0", OF _ good_socket0, where s = True] by blast

text \<open>The sample connection, with its timer about to run out.\<close>

lemma sample_guarded: "guarded (set_timer TCPT_REXMT 3 sample_tcb)" "snd_inv (\<lambda>_. 0) (set_timer TCPT_REXMT 3 sample_tcb)"
  using snd_inv_rollback [OF sample_inv, of "set_timer TCPT_REXMT 3 sample_tcb"]
  by (simp_all add: guarded_def timed_def sample_tcb_def calloc_tcb_def)

text \<open>
  C21: Unacknowledged data is sent again within 64 s: with the peer's window open and fewer than twelve timeouts in a row, the ticks
  that the retransmission timer has left all return, and a segment that starts at the first unacknowledged byte and carries the stream goes out in them.
\<close>

theorem unacknowledged_resent:
  assumes "good_env env" and "guarded t" and "snd_inv S t" and "state t = TCP_ESTABLISHED" and "unat (rcv_scale t) < 32"
    and "unat (t_rxtshift t) < 12" and "snd_una t \<noteq> snd_max t" and "snd_wnd t \<noteq> 0"
  shows "unat (t_timer t TCPT_REXMT) \<le> 6400 \<and>
    returns (ticks env (unat (t_timer t TCPT_REXMT)) (t, w)) (\<lambda>(t', w'). \<exists>d \<in> set (appended w w').
      returns (seg_view d) (\<lambda>(h, data). th_seq h = snd_una t \<and> data = sub_stream S (seq_pos t (snd_una t))
        (min MSS (min (unat (snd_wnd t)) (snd_written t - seq_pos t (snd_una t))))))"
proof -
  note r = guarded_running [OF assms(2,3,7)]
  obtain n where n: "unat (t_timer t 0) = Suc n" "Suc n \<le> 6400" by (rule timer_ticks [OF assms(2) r(1)])
  show ?thesis using ticks_resend [OF assms(1-6) r(2) assms(8) n(1), of w] n by (auto elim!: returns_mono)
qed

theorem unacknowledged_resent_witness:
  "returns (ticks env0 3 (set_timer TCPT_REXMT 3 sample_tcb, world0)) (\<lambda>(t', w'). \<exists>d \<in> set (appended world0 w').
      returns (seg_view d) (\<lambda>(h, data). th_seq h = 1 \<and> data = sub_stream (\<lambda>_. 0) 0 MSS))"
  using unacknowledged_resent [OF good_env0 sample_guarded, of world0]
  by (auto elim!: returns_mono simp: sample_tcb_def seq_pos_def snd_written_def)

text \<open>
  C23: A silent peer ends the process: when unacknowledged data gets no answer, the timeouts go on until, after at most 832 s (13 times 64 s of
  ticks), the thirteenth in a row reads the backoff table past its end. Nothing bounds the number of timeouts, and the connection is never given up.
\<close>

theorem silent_peer_fatal:
  assumes "good_env env" and "guarded t" and "snd_inv S t" and "state t = TCP_ESTABLISHED" and "unat (rcv_scale t) < 32"
    and "snd_una t \<noteq> snd_max t" and "snd_wnd t \<noteq> 0"
  shows "\<exists>n \<le> 83200. ticks env n (t, w) = Inl Out_of_bounds"
proof -
  note r = guarded_running [OF assms(2,3,6)]
  have "unat (t_rxtshift t) \<le> 12" using assms(2) by (simp add: guarded_def timed_def)
  then have "unat (t_rxtshift t) + (12 - unat (t_rxtshift t)) = 12" by simp
  from silent_peer_fails [OF assms(1-5,7) r this, of w] obtain n where
    "n \<le> Suc (12 - unat (t_rxtshift t)) * 6400" "ticks env n (t, w) = Inl Out_of_bounds" by blast
  moreover have "Suc (12 - unat (t_rxtshift t)) * 6400 \<le> 83200" by simp
  ultimately show ?thesis using order_trans by blast
qed

theorem silent_peer_fatal_witness: "\<exists>n \<le> 83200. ticks env0 n (set_timer TCPT_REXMT 3 sample_tcb, world0) = Inl Out_of_bounds"
  using silent_peer_fatal [OF good_env0 sample_guarded, of world0] by (simp add: sample_tcb_def)

text \<open>
  C24: A lost window update stops a connection for good. When a side has filled its peer's window and got everything acknowledged, and the
  update that opens the window again is lost, then no matter how long the timers of both sides run and how much the application
  writes, neither side ever sends a datagram again and no application reads another byte: the persist timer does nothing.
\<close>

theorem closed_window_deadlock:
  assumes "(undelivered envs)\<^sup>*\<^sup>* l l'"
    and "host_ok (hosts l False) t" and "at_rest t" and "snd_wnd t = 0" and "host_ok (hosts l True) t'" and "at_rest t'"
  shows "sent (h_world (hosts l' s)) = sent (h_world (hosts l s)) \<and> got l' s = got l s \<and>
    \<not> host_step (envs s) (Read 0 bytes) (hosts l' s) h"
proof -
  have start: "\<forall>s. stuck s (hosts l s)" using assms(2-) by (simp add: stuck_def all_bool_eq) blast
  have "(\<forall>s. stuck s (hosts l' s) \<and> sent (h_world (hosts l' s)) = sent (h_world (hosts l s))) \<and> got l' = got l"
    using assms(1) start
  proof (induction rule: converse_rtranclp_induct)
    case (step y z)
    then show ?case using undelivered_stuck [of y envs z] by metis
  qed simp
  then show ?thesis using stuck_read by metis
qed

theorem closed_window_deadlock_witness:
  "\<exists>l l' :: link. undelivered (\<lambda>_. env0) l l' \<and> written l' False = [1, 2, 3] \<and> got l' True = [] \<and> sent (h_world (hosts l' False)) = []"
proof -
  let ?t = "est_tcb\<lparr>snd_wnd := 0\<rparr>" and ?data = "[1, 2, 3] :: u8 list"
  let ?h = "host_est\<lparr>h_table := Some ?t # replicate 5 None\<rparr>"
  let ?l = "link0\<lparr>hosts := (hosts link0)(False := ?h)\<rparr>"
  have r: "at_rest ?t" "at_rest est_tcb" "host_ok ?h ?t" "host_ok host_est est_tcb"
    by (simp_all add: at_rest_def est_tcb_def closed_no_data host_ok_def host_est_def)
      (simp add: output_data_length_def buffered_data_def Let_def)
  have "snd_inv S ?t" for S using snd_inv_rollback [OF est_tcb_ok(1), of ?t] by simp
  then have "send_pre (list_stream ?data) ?data ?t"
    using est_tcb_ok(4,5) sub_stream_new [of "[]" ?data "list_stream ?data"] by (simp add: send_pre_def snd_written_def)
  moreover have "can_send ?t" "snd_written ?t - seq_pos ?t (snd_una ?t) + length ?data \<le> SEND_BUF_SIZE"
    using est_tcb_ok(3,5) by (simp_all add: can_send_def snd_written_def)
  ultimately obtain t w where "send_loop env0 ?data (?t, world0) = Inr ([], t, w)" using send_loop_fits [OF good_env0] by metis
  then have "utcp_send env0 (h_table ?h) 0 ?data (h_world ?h) = Inr ([], (h_table ?h)[nat 0 := Some t], w)"
    using est_tcb_ok(4) by (simp add: utcp_send_def utcp_get_tcb_in_state_def utcp_get_tcb_def arr_get_def host_est_def)
  from host_step.send [OF this] have "host_step env0 (Wrote 0 ?data []) (hosts ?l False) (?h\<lparr>h_table := (h_table ?h)[nat 0 := Some t], h_world := w\<rparr>)" by simp
  from undelivered.app_write [of "\<lambda>_. env0", OF this] obtain l' where
    step: "undelivered (\<lambda>_. env0) ?l l'" and "written l' False = ?data" by (fastforce simp: link0_def)
  moreover from step have "(undelivered (\<lambda>_. env0))\<^sup>*\<^sup>* ?l l'" by (rule r_into_rtranclp)
  from closed_window_deadlock [OF this, of ?t est_tcb] r have "sent (h_world (hosts l' s)) = []" "got l' s = []" for s by (simp_all add: link0_def host_est_def world0_def)
  ultimately show ?thesis by blast
qed

end
