(* ===== verification/Programs.thy ===== *)
theory Programs
  imports Handshake
begin

text \<open>
  The two programs on top of the library: \<^verbatim>\<open>src/client.c\<close> sends a file, \<^verbatim>\<open>src/server.c\<close> stores what it
  receives, both after \<^verbatim>\<open>init_zlog\<close> of \<^verbatim>\<open>src/logging.c\<close>. Their steps are those of the main
  threads, interleaved with the steps of the two library threads on each side. Output to the terminal is left out.
\<close>

section \<open>Setting up\<close>

text \<open>
  The outcomes of \<^verbatim>\<open>dzlog_init\<close> and of the lookup of the category \<^verbatim>\<open>lstm_data\<close>; the other two
  categories only print.
\<close>

definition init_zlog :: "int \<Rightarrow> bool \<Rightarrow> world \<Rightarrow> world res" where
  "init_zlog rc lstm_category w =
     (if rc \<noteq> 0 then err_sys ''zlog init failed! Check if zlog.conf exists in the current directory.''
      else Inr (w\<lparr>lstm_logger := lstm_category\<rparr>))"

text \<open>What the system answers while a program starts.\<close>

record start_outcome =
  o_zlog :: int
  o_category :: bool
  o_package :: init_outcome
  o_lstm_socket :: int
  o_lstm_connect :: int
  o_lstm_getfl :: int
  o_lstm_setfl :: int

abbreviation (input) INADDR_ANY :: u32 where "INADDR_ANY \<equiv> 0"

text \<open>The client up to the SYN; \<^verbatim>\<open>utcp_connect\<close> then waits (\<open>utcp_connect_wait\<close>). The address is 40.82.162.155.\<close>

definition client_open :: "env \<Rightarrow> start_outcome \<Rightarrow> host \<Rightarrow> (int \<times> host) res" where
  "client_open env out h =
     rbind (init_zlog (o_zlog out) (o_category out) (h_world h)) (\<lambda>w.
     rbind (utcp_package_init (o_package out) (h_pkg h)) (\<lambda>pkg.
     case lstm_client_init (o_lstm_socket out) (o_lstm_connect out) (o_lstm_getfl out) (o_lstm_setfl out) w of (_, w) \<Rightarrow>
     rbind (utcp_socket env (o_package out) pkg (h_table h) w) (\<lambda>(fd, pkg, tbl, w).
     rbind (utcp_bind tbl fd \<lparr>sin_family = AF_INET, sin_addr = INADDR_ANY, sin_port = 8292\<rparr>) (\<lambda>tbl.
     rbind (utcp_connect env tbl fd \<lparr>sin_family = AF_INET, sin_addr = 0x2852A29B, sin_port = 7654\<rparr> w) (\<lambda>(tbl, w).
     Inr (fd, h\<lparr>h_pkg := pkg, h_table := tbl, h_world := w\<rparr>))))))"

text \<open>The server up to \<^verbatim>\<open>utcp_accept\<close>.\<close>

definition server_open :: "env \<Rightarrow> start_outcome \<Rightarrow> host \<Rightarrow> (int \<times> host) res" where
  "server_open env out h =
     rbind (init_zlog (o_zlog out) (o_category out) (h_world h)) (\<lambda>w.
     rbind (utcp_socket env (o_package out) (h_pkg h) (h_table h) w) (\<lambda>(fd, pkg, tbl, w).
     rbind (utcp_bind tbl fd \<lparr>sin_family = AF_INET, sin_addr = INADDR_ANY, sin_port = 7654\<rparr>) (\<lambda>tbl.
     rbind (utcp_listen tbl fd) (\<lambda>tbl.
     Inr (fd, h\<lparr>h_pkg := pkg, h_table := tbl, h_world := w\<rparr>)))))"

section \<open>The transfer\<close>

text \<open>
  Where the client is: about to read a chunk of what is left of the file, inside \<^verbatim>\<open>utcp_send\<close> with bytes of a chunk
  still to write, inside \<^verbatim>\<open>utcp_drain\<close>, or past it, where it closes its files and the socket of the inference server and ends.
\<close>

datatype client_pc = Reading "u8 list" | Sending "u8 list" "u8 list" | Draining | Finished

text \<open>The file to send, if it can be opened.\<close>

definition client_fopen :: "u8 list option \<Rightarrow> client_pc res" where
  "client_fopen fptr = (case fptr of None \<Rightarrow> err_sys ''Could not open test_file.txt'' | Some file \<Rightarrow> Inr (Reading file))"

abbreviation (input) CHUNK_SIZE :: nat where "CHUNK_SIZE \<equiv> 64000"
abbreviation (input) TARGET_SIZE :: u64 where "TARGET_SIZE \<equiv> 1000000000"

definition fread :: "nat \<Rightarrow> u8 list \<Rightarrow> u8 list \<times> u8 list" where
  "fread n file = (take n file, drop n file)"

text \<open>After a call of \<^verbatim>\<open>utcp_send\<close> that wrote all but \<open>rest\<close>.\<close>

definition after_send :: "u8 list \<Rightarrow> u8 list \<Rightarrow> client_pc" where
  "after_send rest file = (if rest = [] then Reading file else Sending rest file)"

record transfer =
  net :: link
  client :: client_pc
  serving :: bool
  total_received :: u64
  out_file :: "u8 list"

text \<open>The client is the side \<^verbatim>\<open>False\<close>, the server the side \<^verbatim>\<open>True\<close>.\<close>

definition client_wrote :: "u8 list \<Rightarrow> u8 list \<Rightarrow> tcb option list \<Rightarrow> world \<Rightarrow> link \<Rightarrow> link" where
  "client_wrote data rest tbl w l =
     l\<lparr>hosts := (hosts l)(False := (hosts l False)\<lparr>h_table := tbl, h_world := w\<rparr>),
       written := (written l)(False := written l False @ take (length data - length rest) data)\<rparr>"

definition server_got :: "u8 list \<Rightarrow> tcb option list \<Rightarrow> world \<Rightarrow> link \<Rightarrow> link" where
  "server_got bytes tbl w l =
     l\<lparr>hosts := (hosts l)(True := (hosts l True)\<lparr>h_table := tbl, h_world := w\<rparr>),
       got := (got l)(True := got l True @ bytes)\<rparr>"

inductive client_step :: "env \<Rightarrow> transfer \<Rightarrow> transfer \<Rightarrow> bool" for env :: env where
  send: "client x = Reading file \<Longrightarrow> fread CHUNK_SIZE file = (buffer, file') \<Longrightarrow> length buffer > 0 \<Longrightarrow>
     utcp_send env (h_table (hosts (net x) False)) 0 buffer (h_world (hosts (net x) False)) = Inr (rest, tbl, w) \<Longrightarrow>
     client_step env x (x\<lparr>net := client_wrote buffer rest tbl w (net x), client := after_send rest file'\<rparr>)"
| resume: "client x = Sending data file \<Longrightarrow>
     utcp_send_resume env (h_table (hosts (net x) False)) 0 data (h_world (hosts (net x) False)) = Inr (rest, tbl, w) \<Longrightarrow>
     client_step env x (x\<lparr>net := client_wrote data rest tbl w (net x), client := after_send rest file\<rparr>)"
| eof: "client x = Reading file \<Longrightarrow> fread CHUNK_SIZE file = (buffer, file') \<Longrightarrow> length buffer = 0 \<Longrightarrow>
     client_step env x (x\<lparr>client := Draining\<rparr>)"
| drained: "client x = Draining \<Longrightarrow> utcp_drain (h_table (hosts (net x) False)) 0 = Inr (Done ()) \<Longrightarrow>
     client_step env x (x\<lparr>client := Finished\<rparr>)"

inductive server_step :: "env \<Rightarrow> transfer \<Rightarrow> transfer \<Rightarrow> bool" for env :: env where
  read: "serving x \<Longrightarrow> total_received x < TARGET_SIZE \<Longrightarrow>
     utcp_read env (h_table (hosts (net x) True)) 0 65536 (h_world (hosts (net x) True)) = Inr (Done (bytes, tbl, w)) \<Longrightarrow>
     server_step env x (x\<lparr>net := server_got bytes tbl w (net x), serving := (bytes \<noteq> []),
       total_received := total_received x + of_nat (length bytes), out_file := out_file x @ bytes\<rparr>)"
| full: "serving x \<Longrightarrow> \<not> total_received x < TARGET_SIZE \<Longrightarrow> server_step env x (x\<lparr>serving := False\<rparr>)"

inductive transfer_step :: "(bool \<Rightarrow> env) \<Rightarrow> transfer \<Rightarrow> transfer \<Rightarrow> bool" for envs :: "bool \<Rightarrow> env" where
  client: "client_step (envs False) x x' \<Longrightarrow> transfer_step envs x x'"
| server: "server_step (envs True) x x' \<Longrightarrow> transfer_step envs x x'"
| deliver: "host_step (envs s) (Received d) (hosts (net x) s) h \<Longrightarrow> deliverable (net x) s d \<Longrightarrow>
     transfer_step envs x (x\<lparr>net := (net x)\<lparr>hosts := (hosts (net x))(s := h)\<rparr>\<rparr>)"
| timer: "host_step (envs s) Tick (hosts (net x) s) h \<Longrightarrow>
     transfer_step envs x (x\<lparr>net := (net x)\<lparr>hosts := (hosts (net x))(s := h)\<rparr>\<rparr>)"

text \<open>The connection is established and the client has opened a file, shorter than 2 GiB.\<close>

definition transfer_start :: "u8 list \<Rightarrow> transfer \<Rightarrow> bool" where
  "transfer_start file x \<longleftrightarrow> link_start (net x) \<and> client_fopen (Some file) = Inr (client x) \<and> serving x \<and> total_received x = 0 \<and>
     out_file x = [] \<and> length file < 2147483647"

interpretation transfer: transition_system "transfer_start contents" "transfer_step envs" for contents envs .

section \<open>The invariant of the transfer\<close>

fun pending :: "client_pc \<Rightarrow> u8 list" where
  "pending (Reading file) = file"
| "pending (Sending data file) = data @ file"
| "pending Draining = []"
| "pending Finished = []"

definition transfer_inv :: "u8 list \<Rightarrow> (bool \<Rightarrow> env) \<Rightarrow> transfer \<Rightarrow> bool" where
  "transfer_inv file envs x \<longleftrightarrow> duplex.reachable envs (net x) \<and> written (net x) False @ pending (client x) = file \<and>
     out_file x = got (net x) True \<and> total_received x = of_nat (length (out_file x)) \<and> length file < 2147483647"

text \<open>What is left to write is the end of the data.\<close>

lemma send_loop_rest: "send_loop env data s = Inr (rest, s') \<Longrightarrow> \<exists>k. data = k @ rest"
proof (induction "length data" arbitrary: data s rule: less_induct)
  case less
  obtain t w where s: "s = (t, w)" by fastforce
  define n where "n = min (length data) (unat (SEND_BUF_SIZE - (send_buf_tail t - send_buf_head t)))"
  show ?case
  proof (cases "n = 0")
    case True
    then show ?thesis
      using less.prems by (auto simp: send_loop.simps [of env data] s Let_def n_def min_def unat_eq_0 split: if_splits)
  next
    case False
    then have "data \<noteq> []" "SEND_BUF_SIZE - (send_buf_tail t - send_buf_head t) \<noteq> 0" by (auto simp: n_def)
    with less.prems obtain s1 where rec: "send_loop env (drop n data) s1 = Inr (rest, s')"
      by (auto simp: send_loop.simps [of env data] s Let_def rbind_eq_Inr n_def)
    have "length (drop n data) < length data" using False \<open>data \<noteq> []\<close> by simp
    from less.hyps [OF this rec] show ?thesis by (metis append.assoc append_take_drop_id)
  qed
qed

lemma utcp_send_rest:
  "utcp_send env tbl fd data w = Inr (rest, tbl', w') \<Longrightarrow> take (length data - length rest) data @ rest = data"
  "utcp_send_resume env tbl fd data w = Inr (rest, tbl', w') \<Longrightarrow> take (length data - length rest) data @ rest = data"
  by (auto simp: utcp_send_def utcp_send_resume_def rbind_eq_Inr err_sys_def dest!: send_loop_rest split: if_splits)

text \<open>The steps of the programs are steps of the link.\<close>

lemma client_wrote_step:
  assumes "utcp_send env (h_table (hosts l False)) 0 data (h_world (hosts l False)) = Inr (rest, tbl, w) \<or>
      utcp_send_resume env (h_table (hosts l False)) 0 data (h_world (hosts l False)) = Inr (rest, tbl, w)"
    and "length (written l False) + length data < 2147483647" and "env = envs False"
  shows "link_step envs l (client_wrote data rest tbl w l)"
proof -
  have "host_step (envs False) (Wrote 0 data rest) (hosts l False) ((hosts l False)\<lparr>h_table := tbl, h_world := w\<rparr>)"
    using assms(1,3) by (auto intro: host_step.send host_step.send_on)
  from link_step.app_write [of envs False, OF this assms(2)] show ?thesis by (simp add: client_wrote_def)
qed

lemma server_got_step:
  assumes "utcp_read (envs True) (h_table (hosts l True)) 0 65536 (h_world (hosts l True)) = Inr (Done (bytes, tbl, w))"
  shows "link_step envs l (server_got bytes tbl w l)"
  using link_step.app_read [of envs True, OF host_step.read [OF assms]] by (simp add: server_got_def)

lemma pending_after_send: "pending (after_send rest file) = rest @ file"
  by (simp add: after_send_def)

lemma written_client_wrote [simp]:
  "written (client_wrote data rest tbl w l) False = written l False @ take (length data - length rest) data"
  "got (client_wrote data rest tbl w l) = got l"
  by (simp_all add: client_wrote_def)

lemma server_got_simps [simp]:
  "written (server_got bytes tbl w l) = written l" "got (server_got bytes tbl w l) True = got l True @ bytes"
  by (simp_all add: server_got_def)

lemma transfer_wrote:
  assumes inv: "transfer_inv file envs x" and pend: "pending (client x) = data @ file'"
    and run: "utcp_send (envs False) (h_table (hosts (net x) False)) 0 data (h_world (hosts (net x) False)) = Inr (rest, tbl, w) \<or>
      utcp_send_resume (envs False) (h_table (hosts (net x) False)) 0 data (h_world (hosts (net x) False)) = Inr (rest, tbl, w)"
  shows "transfer_inv file envs (x\<lparr>net := client_wrote data rest tbl w (net x), client := after_send rest file'\<rparr>)"
proof -
  have "length (written (net x) False) + length data < 2147483647" using inv pend by (auto simp: transfer_inv_def)
  from client_wrote_step [where l = "net x" and envs = envs, OF run this refl] inv have "duplex.reachable envs (client_wrote data rest tbl w (net x))"
    by (auto simp: transfer_inv_def intro: duplex.reachable.step)
  moreover have "take (length data - length rest) data @ rest = data" using run utcp_send_rest by blast
  ultimately show ?thesis using inv pend by (auto simp: transfer_inv_def pending_after_send)
qed

lemma transfer_inv_step:
  assumes inv: "transfer_inv file envs x" and "transfer_step envs x x'"
  shows "transfer_inv file envs x'"
  using assms(2)
proof cases
  case client
  from client(1) show ?thesis
  proof cases
    case (send f buffer f' rest tbl w)
    have "pending (client x) = buffer @ f'" using send(2,3) by (auto simp: fread_def)
    from transfer_wrote [OF inv this disjI1 [OF send(5)]] show ?thesis by (simp add: send(1))
  next
    case (resume data f rest tbl w)
    have "pending (client x) = data @ f" using resume(2) by simp
    from transfer_wrote [OF inv this disjI2 [OF resume(3)]] show ?thesis by (simp add: resume(1))
  next
    case (eof f buffer f')
    then show ?thesis using inv by (auto simp: transfer_inv_def fread_def)
  next
    case drained
    then show ?thesis using inv by (auto simp: transfer_inv_def)
  qed
next
  case server
  from server(1) show ?thesis
  proof cases
    case (read bytes tbl w)
    have "duplex.reachable envs (server_got bytes tbl w (net x))"
      using server_got_step [where l = "net x" and envs = envs, OF read(4)] inv by (auto simp: transfer_inv_def intro: duplex.reachable.step)
    then show ?thesis using inv by (simp add: transfer_inv_def read(1))
  next
    case full
    then show ?thesis using inv by (simp add: transfer_inv_def)
  qed
next
  case (deliver s d h)
  then show ?thesis using inv duplex.reachable.step [OF _ link_step.deliver [of envs s d "net x" h]] by (simp add: transfer_inv_def)
next
  case (timer s h)
  then show ?thesis using inv duplex.reachable.step [OF _ link_step.timer [of envs s "net x" h]] by (simp add: transfer_inv_def)
qed

lemma reachable_transfer_inv:
  assumes "transfer.reachable file envs x"
  shows "transfer_inv file envs x"
  using assms
proof (rule transfer.invariant)
  show "transfer_inv file envs y" if "transfer_start file y" for y
    using that by (auto simp: transfer_start_def transfer_inv_def link_start_def client_fopen_def dest!: sym [of _ "client y"] intro: duplex.reachable.init)
qed (rule transfer_inv_step)

section \<open>From the start of the programs to the connection\<close>

text \<open>Outcomes with which a program starts; the inference server may be missing.\<close>

definition good_start :: "start_outcome \<Rightarrow> bool" where
  "good_start out \<longleftrightarrow> o_zlog out = 0 \<and> 0 \<le> o_socket (o_package out) \<and> 0 \<le> o_bind (o_package out) \<and>
     0 \<le> o_getsockname (o_package out) \<and> o_listening (o_package out) = 0 \<and> o_ticking (o_package out) = 0"

lemma package_starts:
  assumes "good_start out"
  obtains pkg' where "utcp_package_init (o_package out) pkg = Inr pkg'" and "utcp_package_init (o_package out) pkg' = Inr pkg'"
proof -
  have "\<exists>pkg'. utcp_package_init (o_package out) pkg = Inr pkg' \<and> utcp_initialized pkg'"
    using assms by (cases "utcp_initialized pkg") (simp_all add: good_start_def utcp_package_init_def start_thread_def)
  then show thesis using that by (auto simp: utcp_package_init_def)
qed

lemma first_socket:
  assumes "utcp_package_init out pkg = Inr pkg'" and "malloc env (mallocs w)"
  shows "utcp_socket env out pkg (replicate 6 None) w = Inr (0, pkg', Some new_tcb # replicate 5 None, w\<lparr>mallocs := Suc (mallocs w)\<rparr>)"
proof -
  have "first_free (replicate 6 None) = 0" by (simp add: numeral_eq_Suc)
  then show ?thesis using assms by (simp add: utcp_socket_def try_malloc_def Let_def) (simp add: numeral_eq_Suc)
qed

lemma server_opens:
  assumes "good_env env" and "good_start out" and "host_start h"
  obtains h' where "server_open env out h = Inr (0, h')" and "host_ok h' ((bound 0 7654)\<lparr>state := TCP_LISTEN\<rparr>)"
    and "sent (h_world h') = sent (h_world h)"
proof -
  obtain pkg where pkg: "utcp_package_init (o_package out) (h_pkg h) = Inr pkg" using package_starts [OF assms(2)] by metis
  let ?w = "(h_world h)\<lparr>lstm_logger := o_category out\<rparr>"
  have "malloc env (mallocs ?w)" using assms(1) by (simp add: good_env_def)
  note sock = first_socket [OF pkg this]
  have h: "h_table h = replicate 6 None" "length (h_buff h) = 1500" using assms(3) by (simp_all add: host_start_def)
  have "init_zlog (o_zlog out) (o_category out) (h_world h) = Inr ?w" using assms(2) by (simp add: init_zlog_def good_start_def)
  then have "server_open env out h = Inr (0, h\<lparr>h_pkg := pkg, h_table := Some ((bound 0 7654)\<lparr>state := TCP_LISTEN\<rparr>) # replicate 5 None,
      h_world := ?w\<lparr>mallocs := Suc (mallocs ?w)\<rparr>\<rparr>)"
    unfolding server_open_def h(1) by (simp add: sock bind_single listen_single del: replicate.simps)
  then show thesis by (rule that) (use h in \<open>simp_all add: host_ok_def\<close>)
qed

lemma client_opens:
  assumes env: "good_env env" and "good_start out" and "host_start h" and "sent (h_world h) = []"
  obtains h' t d where "client_open env out h = Inr (0, h')" and "host_ok h' t" and "sent (h_world h') = [d]" and "seg_ok [] 0 d"
    and "started TCP_SYN_SENT 8292 7654 0x2852A29B t" and "bare 8292 7654 0 0 TH_SYN d"
proof -
  obtain pkg where pkg: "utcp_package_init (o_package out) (h_pkg h) = Inr pkg" "utcp_package_init (o_package out) pkg = Inr pkg"
    using package_starts [OF assms(2)] by metis
  obtain r w where w: "lstm_client_init (o_lstm_socket out) (o_lstm_connect out) (o_lstm_getfl out) (o_lstm_setfl out)
      ((h_world h)\<lparr>lstm_logger := o_category out\<rparr>) = (r, w)" by fastforce
  then have sent: "sent w = []" using assms(4) by (auto simp: lstm_client_init_def Let_def split: if_splits)
  have "malloc env (mallocs w)" using assms(1) by (simp add: good_env_def)
  note sock = first_socket [OF pkg(2) this]
  have h: "h_table h = replicate 6 None" "length (h_buff h) = 1500" using assms(3) by (simp_all add: host_start_def)
  have z: "init_zlog (o_zlog out) (o_category out) (h_world h) = Inr ((h_world h)\<lparr>lstm_logger := o_category out\<rparr>)"
    using assms(2) by (simp add: init_zlog_def good_start_def)
  obtain t w1 d where con: "utcp_connect env (Some (bound 0 8292) # replicate 5 None) 0 \<lparr>sin_family = AF_INET, sin_addr = 0x2852A29B, sin_port = 7654\<rparr>
      (w\<lparr>mallocs := Suc (mallocs w)\<rparr>) = Inr (Some t # replicate 5 None, w1)" "sent w1 = [d]" "seg_ok [] 0 d"
    "started TCP_SYN_SENT 8292 7654 0x2852A29B t" "bare 8292 7654 0 0 TH_SYN d"
    using connect_move [where t = "bound 0 8292" and ip = "0x2852A29B" and port = 7654 and w = "w\<lparr>mallocs := Suc (mallocs w)\<rparr>", OF env idle_new(2)] sent
    by auto
  have "client_open env out h = Inr (0, h\<lparr>h_pkg := pkg, h_table := Some t # replicate 5 None, h_world := w1\<rparr>)"
    unfolding client_open_def h(1) by (simp add: z pkg w sock bind_single con(1) del: replicate.simps)
  then show thesis by (rule that [OF _ _ _ con(3-5)]) (use h con(2) in \<open>simp_all add: host_ok_def\<close>)
qed

section \<open>Properties\<close>

lemma opened_returns:
  assumes "opened (link_of c s)"
  shows "utcp_connect_wait (h_table c) 0 = Inr (Done 0)" and "utcp_accept (h_table s) 0 = Inr (Done 0)"
proof -
  from assms obtain T where T: "host_ok (if b then s else c) (T b)" "settled [] [] (T b)" for b
    unfolding opened_def link_settled_def by auto
  have "state (T b) = TCP_ESTABLISHED" for b using settled_start [OF T(2)] ep_okD(1) by blast
  then show "utcp_connect_wait (h_table c) 0 = Inr (Done 0)" "utcp_accept (h_table s) 0 = Inr (Done 0)"
    using T(1) [of False] T(1) [of True]
    by (simp_all add: host_ok_def utcp_connect_wait_def utcp_accept_def utcp_get_tcb_def arr_get_def wait_until_established_def)
qed

lemma programs_meet:
  assumes "good_env ec" and "good_env es" and "good_start oc" and "good_start os" and "host_start c" and "host_start s"
    and "sent (h_world c) = []" and "sent (h_world s) = []"
  obtains c1 c2 s0 s1 s2 d1 d2 d3 where "server_open es os s = Inr (0, s0)" and "client_open ec oc c = Inr (0, c1)" and "sent (h_world c1) = [d1]"
    and "host_step es (Received (d1\<lparr>dg_ip := ipc\<rparr>)) s0 s1" and "sent (h_world s1) = [d2]"
    and "host_step ec (Received (d2\<lparr>dg_ip := 0x2852A29B\<rparr>)) c1 c2" and "sent (h_world c2) = [d1, d3]"
    and "host_step es (Received (d3\<lparr>dg_ip := ipc\<rparr>)) s1 s2" and "opened (link_of c2 s2)"
proof -
  obtain s0 where s0: "server_open es os s = Inr (0, s0)" "host_ok s0 ((bound 0 7654)\<lparr>state := TCP_LISTEN\<rparr>)" "sent (h_world s0) = []"
    by (rule server_opens [OF assms(2,4,6)]) (simp add: assms(8))
  obtain c1 t1 d1 where c1: "client_open ec oc c = Inr (0, c1)" "host_ok c1 t1" "sent (h_world c1) = [d1]" "seg_ok [] 0 d1"
    and o1: "started TCP_SYN_SENT 8292 7654 0x2852A29B t1" and b1: "bare 8292 7654 0 0 TH_SYN d1"
    by (rule client_opens [OF assms(1,3,5,7)])
  show thesis by (rule handshake_moves [OF assms(1,2) c1(2) o1 b1 c1(3,4) s0(2,3)]) (rule that [OF s0(1) c1(1,3)])
qed

text \<open>
  From the start of the two programs to the connection: on fresh hosts and with system calls that succeed,
  whether or not the inference server answers, the server listens and the client's SYN is out; when the three segments of the
  handshake arrive, the client's connect and the server's accept return, and the file transfer starts from a fresh
  link.
\<close>

theorem programs_connect:
  assumes "good_env ec" and "good_env es" and "good_start oc" and "good_start os" and "host_start c" and "host_start s"
    and "sent (h_world c) = []" and "sent (h_world s) = []"
  shows "\<exists>c1 c2 s0 s1 s2 d1 d2 d3. server_open es os s = Inr (0, s0) \<and> client_open ec oc c = Inr (0, c1) \<and> sent (h_world c1) = [d1] \<and>
    host_step es (Received (d1\<lparr>dg_ip := ipc\<rparr>)) s0 s1 \<and> sent (h_world s1) = [d2] \<and>
    host_step ec (Received (d2\<lparr>dg_ip := 0x2852A29B\<rparr>)) c1 c2 \<and> sent (h_world c2) = [d1, d3] \<and>
    host_step es (Received (d3\<lparr>dg_ip := ipc\<rparr>)) s1 s2 \<and>
    utcp_connect_wait (h_table c2) 0 = Inr (Done 0) \<and> utcp_accept (h_table s2) 0 = Inr (Done 0) \<and>
    link_start \<lparr>hosts = (\<lambda>x. if x then s2 else c2), written = (\<lambda>_. []), got = (\<lambda>_. [])\<rparr>"
proof -
  obtain c1 c2 s0 s1 s2 d1 d2 d3 where "server_open es os s = Inr (0, s0)" "client_open ec oc c = Inr (0, c1)" "sent (h_world c1) = [d1]"
    "host_step es (Received (d1\<lparr>dg_ip := ipc\<rparr>)) s0 s1" "sent (h_world s1) = [d2]"
    "host_step ec (Received (d2\<lparr>dg_ip := 0x2852A29B\<rparr>)) c1 c2" "sent (h_world c2) = [d1, d3]"
    "host_step es (Received (d3\<lparr>dg_ip := ipc\<rparr>)) s1 s2" and l: "opened (link_of c2 s2)"
    by (rule programs_meet [OF assms])
  moreover have "utcp_connect_wait (h_table c2) 0 = Inr (Done 0)" "utcp_accept (h_table s2) 0 = Inr (Done 0)"
    using opened_returns [OF l] by simp_all
  moreover have "link_start (link_of c2 s2)" using l by (simp add: opened_def)
  ultimately show ?thesis by blast
qed

theorem programs_connect_witness:
  "\<exists>c1 s0 d1. server_open env0 \<lparr>o_zlog = 0, o_category = True, o_package = out0, o_lstm_socket = 4, o_lstm_connect = 0, o_lstm_getfl = 2, o_lstm_setfl = 0\<rparr>
      (host_est\<lparr>h_table := replicate 6 None\<rparr>) = Inr (0, s0) \<and>
    client_open env0 \<lparr>o_zlog = 0, o_category = True, o_package = out0, o_lstm_socket = 4, o_lstm_connect = -1, o_lstm_getfl = 2, o_lstm_setfl = 0\<rparr>
      (host_est\<lparr>h_table := replicate 6 None\<rparr>) = Inr (0, c1) \<and> sent (h_world c1) = [d1]"
proof -
  let ?h = "host_est\<lparr>h_table := replicate 6 None\<rparr>"
  let ?os = "\<lparr>o_zlog = 0, o_category = True, o_package = out0, o_lstm_socket = 4, o_lstm_connect = 0, o_lstm_getfl = 2, o_lstm_setfl = 0\<rparr>"
  let ?oc = "\<lparr>o_zlog = 0, o_category = True, o_package = out0, o_lstm_socket = 4, o_lstm_connect = -1, o_lstm_getfl = 2, o_lstm_setfl = 0\<rparr>"
  have "good_start ?oc" "good_start ?os" "host_start ?h" "sent (h_world ?h) = []"
    by (simp_all add: good_start_def out0_def host_start_def host_est_def world0_def)
  from programs_connect [OF good_env0 good_env0 this(1,2) this(3,3) this(4,4), of 1] show ?thesis by blast
qed

text \<open>
  C6: The file transfer: at every moment of every run, what the server has stored is a prefix of the client's file and its
  counter is the length of it; and when the client's drain returns, the server's side has received the whole file.
\<close>

theorem file_transfer:
  assumes "transfer.reachable file envs x" and "\<And>s. good_socket (envs s)"
  shows "(\<exists>us. file = out_file x @ us) \<and> total_received x = of_nat (length (out_file x)) \<and>
    (client x = Draining \<and> utcp_drain (h_table (hosts (net x) False)) 0 = Inr (Done ()) \<longrightarrow>
      (\<exists>t. h_table (hosts (net x) True) ! 0 = Some t \<and> unat (rcv_nxt t - 1) = length file))"
proof -
  have inv: "duplex.reachable envs (net x)" "written (net x) False @ pending (client x) = file" "out_file x = got (net x) True"
      "total_received x = of_nat (length (out_file x))"
    using reachable_transfer_inv [OF assms(1)] by (simp_all add: transfer_inv_def)
  note li = reachable_link_inv [OF inv(1) assms(2)]
  have "\<exists>us. file = out_file x @ us"
    using link_invE [OF li, of True] inv(2,3) by (metis append.assoc)
  moreover have "\<exists>t. h_table (hosts (net x) True) ! 0 = Some t \<and> unat (rcv_nxt t - 1) = length file"
    if d: "client x = Draining" "utcp_drain (h_table (hosts (net x) False)) 0 = Inr (Done ())"
  proof -
    from link_invE [OF li, of False, unfolded not_False_eq_True] obtain t t' where t: "h_table (hosts (net x) False) ! 0 = Some t" "h_table (hosts (net x) True) ! 0 = Some t'"
      "unat (send_buf_head t) \<le> unat (rcv_nxt t' - 1)" "unat (rcv_nxt t' - 1) \<le> length (written (net x) False)"
      "unat (send_buf_tail t) = length (written (net x) False)" by metis
    moreover have "send_buf_head t = send_buf_tail t"
      using d(2) t(1) by (auto simp: utcp_drain_def utcp_get_tcb_def arr_get_def err_sys_def rbind_eq_Inr split: if_splits)
    ultimately show ?thesis using inv(2) d(1) by auto
  qed
  ultimately show ?thesis using inv(4) by simp
qed

theorem file_transfer_witness:
  "\<exists>x us. transfer.reachable [1, 2, 3] (\<lambda>_. env0) x \<and> client x = Draining \<and> written (net x) False = [1, 2, 3] \<and> [1, 2, 3] = out_file x @ us"
proof -
  define x where "x = \<lparr>net = link0, client = Reading [1, 2, 3], serving = True, total_received = 0, out_file = []\<rparr>"
  obtain t w where run: "utcp_send env0 (h_table host_est) 0 [1, 2, 3] (h_world host_est) = Inr ([], (h_table host_est)[nat 0 := Some t], w)"
    using send_example by blast
  let ?x = "x\<lparr>net := client_wrote [1, 2, 3] [] ((h_table host_est)[nat 0 := Some t]) w (net x), client := after_send [] []\<rparr>"
  have "transfer_start [1, 2, 3] x" using link0_start by (simp add: transfer_start_def client_fopen_def x_def)
  moreover have "fread 64000 ([1, 2, 3] :: u8 list) = ([1, 2, 3], [])" by (simp add: fread_def)
  then have "client_step env0 x ?x" using run by (intro client_step.send [of x "[1, 2, 3]"]) (auto simp: x_def link0_def)
  moreover have "client_step env0 ?x (?x\<lparr>client := Draining\<rparr>)" by (intro client_step.eof) (simp_all add: after_send_def fread_def)
  ultimately have "transfer.reachable [1, 2, 3] (\<lambda>_. env0) (?x\<lparr>client := Draining\<rparr>)"
    by (meson transfer.reachable.intros transfer_step.client)
  from file_transfer [OF this good_socket0] this show ?thesis
    by (intro exI [of _ "?x\<lparr>client := Draining\<rparr>"]) (auto simp: x_def link0_def)
qed

end
