(* ===== verification/Wakeups.thy ===== *)
theory Wakeups
  imports Programs
begin

text \<open>
  The condition variable of a block. A call that finds nothing to do waits on it (\<^verbatim>\<open>utcp_read\<close> on an empty buffer,
  \<^verbatim>\<open>utcp_send\<close> on a full one, \<^verbatim>\<open>utcp_drain\<close> on unacknowledged data), and the listening thread broadcasts.
  The lemmas show that no wake-up is lost: a step that lets a waiting call go on has broadcast.
\<close>

section \<open>Steps that signal what they change\<close>

definition signals :: "st \<Rightarrow> st \<Rightarrow> bool" where
  "signals s s' \<longleftrightarrow> recv_buf_head (fst s') = recv_buf_head (fst s) \<and> send_buf_tail (fst s') = send_buf_tail (fst s) \<and>
     wakeups (snd s) \<le> wakeups (snd s') \<and>
     (recv_buf_tail (fst s') \<noteq> recv_buf_tail (fst s) \<or> send_buf_head (fst s') \<noteq> send_buf_head (fst s) \<longrightarrow> wakeups (snd s) < wakeups (snd s'))"

definition same_ends :: "tcb \<Rightarrow> tcb \<Rightarrow> bool" where
  "same_ends t t' \<longleftrightarrow> recv_buf_head t' = recv_buf_head t \<and> recv_buf_tail t' = recv_buf_tail t \<and>
     send_buf_head t' = send_buf_head t \<and> send_buf_tail t' = send_buf_tail t"

lemma signals_trans: "signals a b \<Longrightarrow> signals b c \<Longrightarrow> signals a c"
  unfolding signals_def by (metis order_trans less_le_trans le_less_trans)

lemma signals_quiet: "same_ends t t' \<Longrightarrow> wakeups w \<le> wakeups w' \<Longrightarrow> signals (t, w) (t', w')"
  by (simp add: signals_def same_ends_def)

lemma signals_rbind:
  assumes "ensures m (signals s)" and "\<And>x. signals s x \<Longrightarrow> ensures (f x) (signals x)"
  shows "ensures (rbind m f) (signals s)"
  by (rule ensures_rbind [OF assms(1)]) (auto intro: ensures_mono [OF assms(2)] signals_trans)

lemma signals_from:
  assumes "same_ends t t1" and "ensures m (signals (t1, w))"
  shows "ensures m (signals (t, w))"
  by (rule ensures_mono [OF assms(2)]) (rule signals_trans [OF signals_quiet [OF assms(1) order_refl]])

lemma world_wakeups: "extends w w' \<Longrightarrow> wakeups w' = wakeups w" "cc_world w w' \<Longrightarrow> wakeups w' = wakeups w"
  unfolding extends_def same_but_sent_def cc_world_def by (elim conjE, erule ssubst, simp)+

lemma conn_ends: "same_conn t t' \<Longrightarrow> same_ends t t'"
  by (simp add: same_conn_def same_ends_def)

lemma signals_output: "ensures (call_output env (t, w)) (signals (t, w))"
  by (rule ensures_mono [OF call_output_frame]) (auto intro!: signals_quiet conn_ends same_conn_output simp: world_wakeups)

lemma signals_cong_control: "ensures (cong_control ops env ev (t, w)) (signals (t, w))"
  by (rule ensures_mono [OF cc.frame]) (auto intro!: signals_quiet conn_ends same_conn_cc simp: world_wakeups)

lemma signals_log: "ensures (log_lstm_event env t rtt acked dup to w) (signals (t, w))"
  by (rule ensures_mono [OF log_lstm_event_frame]) (auto intro!: signals_quiet conn_ends same_conn_lstm simp: same_but_rows_simps)

lemma signals_event:
  "ensures (rbind (cong_control ops env ev (t, w)) (\<lambda>(t', w'). log_lstm_event env t' rtt acked dup to w')) (signals (t, w))"
  by (rule signals_rbind [OF signals_cong_control]) (auto intro: signals_log)

section \<open>A segment\<close>

lemma options_ends: "same_but_options t t' \<Longrightarrow> same_ends t t'"
  unfolding same_but_options_def same_ends_def by (erule ssubst) simp

lemma signals_new_ack:
  assumes "SEQ_GT (th_ack hdr) (snd_una t)" and "SEQ_LEQ (th_ack hdr) (snd_max t)"
  shows "ensures (handle_new_ack env buff hdr (t, w)) (signals (t, w))"
proof -
  have "ensures (handle_new_ack env buff hdr (t, w)) (\<lambda>(t', w'). same_rcv t t')"
    using safe_step_new_ack [OF assms, of env w buff] by (auto simp: safe_step_def ensures_def)
  from ensures_conj [OF this handle_new_ack_una] show ?thesis
    by (rule ensures_mono) (auto simp: signals_def same_rcv_def)
qed

lemma signals_dup_ack: "ensures (handle_dup_ack env hdr n (t, w)) (signals (t, w))"
proof -
  have event: "ensures (rbind (cong_control ops env ev (t1, w)) (\<lambda>(t', w'). log_lstm_event env t' rtt acked dup to w')) (signals (t, w))"
    if "same_ends t t1" for ops ev t1 rtt acked dup to
    using that signals_event by (rule signals_from)
  show ?thesis
    unfolding handle_dup_ack_def prod.case Let_def
    by (rule ensures_rbind [where Q = "\<lambda>_. True"]) (auto simp: ensures_def [of _ "\<lambda>_. True"] cond_broadcast_def same_ends_def intro!: event signals_quiet)
qed

lemma signals_place_data: "ensures (place_data env seq data (t, w)) (signals (t, w))"
proof -
  have "ensures (accept_in_order data (t, w)) (signals (t, w))"
  proof -
    have "recv_buf_head (ack_policy g t2) = recv_buf_head t \<and> send_buf_tail (ack_policy g t2) = send_buf_tail t \<and>
      send_buf_head (ack_policy g t2) = send_buf_head t"
      if "same_but_drain (t\<lparr>recv_buf := b, recv_buf_tail := x, rcv_nxt := y\<rparr>) t2" for b x y g t2
      using same_but_drain_simps [OF that] by (simp add: ack_policy_def)
    then show ?thesis
      unfolding accept_in_order_def prod.case Let_def
      by (intro ensures_rbind [where Q = "\<lambda>_. True"] ensures_rbind [OF drain_frame])
        (auto simp: ensures_def [of _ "\<lambda>_. True"] signals_def cond_broadcast_def)
  qed
  then have "ensures (rbind (accept_in_order data (t, w)) (call_output env)) (signals (t, w))"
    by (rule signals_rbind) (use signals_output in auto)
  moreover have "ensures (call_output env (t1\<lparr>t_flags := f\<rparr>, w1)) (signals (t, w))" if "insert_ooo_segment env t seq data w = (t1, w1)" for t1 w1 f
  proof -
    have "same_ends t t1 \<and> wakeups w1 = wakeups w" using that
      by (auto simp: insert_ooo_segment_def Let_def try_malloc_def same_ends_def split: prod.splits option.splits if_splits)
    then have "signals (t, w) (t1\<lparr>t_flags := f\<rparr>, w1)" by (auto intro!: signals_quiet simp: same_ends_def)
    then show ?thesis by (intro ensures_mono [OF signals_output]) (rule signals_trans)
  qed
  moreover have "signals (t, w) (t, w)" by (simp add: signals_def)
  ultimately show ?thesis by (auto simp: place_data_def Let_def split: prod.splits)
qed

lemma signals_received:
  assumes "length buff = 1500"
  shows "ensures (handle_received_data env buff hdr data (t, w)) (signals (t, w))"
proof -
  have out: "ensures (call_output env (t1\<lparr>t_flags := f\<rparr>, w1)) (signals (t1, w1))" for t1 w1 f
    by (rule signals_from [OF _ signals_output]) (simp add: same_ends_def)
  have data: "ensures (handle_data env (th_seq hdr) data x) (signals x)" for x
    using signals_place_data signals_output out by (cases x) (auto simp: handle_data_def Let_def)
  have self: "signals x x" for x by (simp add: signals_def)
  have ack: "ensures (handle_ack env buff hdr n (t1, w1)) (signals (t1, w1))" for t1 w1 n
    using signals_new_ack signals_dup_ack self by (simp add: handle_ack_def)
  obtain t1 where t1: "process_window_option buff hdr t = Inr t1" "same_but_options t t1"
    using process_window_option_returns [OF assms, of hdr t] by (auto simp: returns_def)
  have "same_ends t t1" using options_ends [OF t1(2)] .
  moreover have "ensures (rbind (handle_ack env buff hdr (length data) (t1, w)) (handle_data env (th_seq hdr) data)) (signals (t1, w))"
    by (rule signals_rbind [OF ack data])
  ultimately show ?thesis unfolding handle_received_data_def fst_conv snd_conv t1(1) rbind_simps by (rule signals_from)
qed

lemma signals_listen:
  assumes "length buff = 1500"
  shows "ensures (input_listen env from buff hdr (t, w)) (signals (t, w))"
proof -
  obtain t1 where t1: "process_window_option buff hdr t = Inr t1" "same_but_options t t1"
    using process_window_option_returns [OF assms, of hdr t] by (auto simp: returns_def)
  have "ensures (call_output env (t1\<lparr>dst_port := a, dst_ip := b, dst_udp_port := c, irs := d, rcv_nxt := e,
      snd_wnd := f, iss := 0, snd_nxt := 0, snd_una := 0, state := TCP_SYN_RECV\<rparr>, w)) (signals (t, w))" for a b c d e f
    by (rule signals_from [OF _ signals_output]) (use options_ends [OF t1(2)] in \<open>simp add: same_ends_def\<close>)
  then show ?thesis
    by (auto simp: input_listen_def t1(1) Let_def signals_def [of "(t, w)" "(t, w)"] ensures_def rbind_eq_Inr)
qed

lemma signals_syn_sent:
  assumes "length buff = 1500"
  shows "ensures (input_syn_sent env buff hdr (t, w)) (signals (t, w))"
proof -
  let ?t0 = "t\<lparr>snd_una := th_ack hdr, irs := th_seq hdr, rcv_nxt := th_seq hdr + 1, state := TCP_ESTABLISHED\<rparr>"
  obtain t1 where t1: "process_window_option buff hdr ?t0 = Inr t1" "same_but_options ?t0 t1"
    using process_window_option_returns [OF assms, of hdr ?t0] by (auto simp: returns_def)
  have ends: "same_ends t (set_timer TCPT_REXMT 0 (t1\<lparr>snd_wnd := wnd, t_rxtshift := 0\<rparr>))" for wnd
    using options_ends [OF t1(2)] by (simp add: same_ends_def)
  have out: "ensures (call_output env (t2\<lparr>t_flags := f\<rparr>, w2)) (signals (t2, w2))" for t2 w2 f
    by (rule signals_from [OF _ signals_output]) (simp add: same_ends_def)
  have "ensures (rbind (cong_control ops env TCP_CC_EVENT_INIT (set_timer TCPT_REXMT 0 (t1\<lparr>snd_wnd := wnd, t_rxtshift := 0\<rparr>), w))
      (\<lambda>(tcb, w). call_output env (tcb\<lparr>t_flags := set_flag (t_flags tcb) TF_ACKNOW\<rparr>, w))) (signals (t, w))" for ops wnd
    by (rule signals_from [OF ends], rule signals_rbind [OF signals_cong_control]) (use out in auto)
  then have "ensures (rbind (GET_SCALED_WIN t1 hdr) (\<lambda>wnd. rbind (cong_control (cc_ops t1) env TCP_CC_EVENT_INIT
      (set_timer TCPT_REXMT 0 (t1\<lparr>snd_wnd := wnd, t_rxtshift := 0\<rparr>), w))
      (\<lambda>(tcb, w). call_output env (tcb\<lparr>t_flags := set_flag (t_flags tcb) TF_ACKNOW\<rparr>, w)))) (signals (t, w))"
    by (cases "GET_SCALED_WIN t1 hdr") simp_all
  then show ?thesis
    using t1(1) by (auto simp: input_syn_sent_def signals_def [of "(t, w)" "(t, w)"])
qed

lemma signals_segment:
  assumes "length buff = 1500"
  shows "ensures (input_segment env from buff hdr data (t, w)) (signals (t, w))"
proof -
  have "ensures (cong_control (cc_ops t) env TCP_CC_EVENT_INIT
      (set_timer TCPT_REXMT 0 (t\<lparr>state := TCP_ESTABLISHED, snd_una := snd_nxt t, t_rxtshift := 0\<rparr>), w)) (signals (t, w))"
    by (rule signals_from [OF _ signals_cong_control]) (simp add: same_ends_def)
  then have "ensures (input_syn_recv env hdr (t, w)) (signals (t, w))"
    by (auto simp: input_syn_recv_def signals_def [of "(t, w)" "(t, w)"])
  then have "ensures (rbind (input_syn_recv env hdr (t, w)) (handle_received_data env buff hdr data)) (signals (t, w))"
    by (rule signals_rbind) (use signals_received [OF assms] in auto)
  then show ?thesis
    using signals_listen signals_syn_sent signals_received assms
    by (cases "state t") (simp_all add: input_segment_def signals_def [of "(t, w)" "(t, w)"])
qed

section \<open>Waiting calls\<close>

text \<open>A send takes no byte exactly when the buffer is full.\<close>

lemma send_waits:
  assumes "data \<noteq> []" and "send_loop env data (t, w) = Inr (data, t', w')"
  shows "send_buf_tail t - send_buf_head t = SEND_BUF_SIZE"
proof (rule ccontr)
  assume full: "send_buf_tail t - send_buf_head t \<noteq> SEND_BUF_SIZE"
  define n where "n = min (length data) (unat (1048576 - (send_buf_tail t - send_buf_head t)))"
  have free: "1048576 - (send_buf_tail t - send_buf_head t) \<noteq> 0" using full by simp
  then have n: "0 < n" using assms(1) by (simp add: n_def unat_gt_0)
  from assms free obtain s where "send_loop env (drop n data) s = Inr (data, t', w')"
    by (subst (asm) send_loop.simps) (auto simp: Let_def rbind_eq_Inr n_def)
  from send_loop_rest [OF this] obtain k where "drop n data = k @ data" by blast
  then have "length (drop n data) = length k + length data" by simp
  then show False using n assms(1) by (cases data) simp_all
qed

lemma full_waits: "send_buf_tail t - send_buf_head t = SEND_BUF_SIZE \<Longrightarrow> send_loop env data (t, w) = Inr (data, t, w)"
  by (subst send_loop.simps) (simp add: Let_def)

section \<open>Properties\<close>

text \<open>
  C16: No wake-up is lost: when a datagram arrives, and a call on a block that had to wait before (a read of an
  empty buffer, a send into a full one, a drain with unacknowledged data) could go on afterwards, then the step has broadcast the
  condition variable the call waits on.
\<close>

theorem no_lost_wakeup:
  assumes "input_segment env from buff hdr seg (t, w) = Inr (t', w')" and "length buff = 1500"
    and "read_wait e len (t, x) = Inr Blocked \<and> read_wait e len (t', x) \<noteq> Inr Blocked \<or>
      data \<noteq> [] \<and> send_loop e data (t, x) = Inr (data, t, x) \<and> send_loop e data (t', x) \<noteq> Inr (data, t', x) \<or>
      utcp_drain [Some t] 0 = Inr Blocked \<and> utcp_drain [Some t'] 0 \<noteq> Inr Blocked"
  shows "wakeups w < wakeups w'"
proof -
  have sig: "signals (t, w) (t', w')" and kept: "block_kept t t'"
    using signals_segment [OF assms(2), of env "from" hdr seg t w] input_segment_kept [OF assms(2), of env "from" hdr seg t w] assms(1) by auto
  have "recv_buf_tail t' \<noteq> recv_buf_tail t \<or> send_buf_head t' \<noteq> send_buf_head t"
  proof (rule ccontr)
    assume "\<not> ?thesis"
    then have same: "same_ends t t'" using sig by (simp add: signals_def same_ends_def)
    have "state t' \<in> {TCP_CLOSE_WAIT, TCP_CLOSED} \<Longrightarrow> state t' = state t" using kept by (auto simp: block_kept_def elim: moves.cases)
    then have "read_wait e len (t, x) = Inr Blocked \<Longrightarrow> read_wait e len (t', x) = Inr Blocked"
      using same by (auto simp: read_wait_def same_ends_def rbind_eq_Inr split: if_splits)
    moreover have "data \<noteq> [] \<and> send_loop e data (t, x) = Inr (data, t, x) \<Longrightarrow> send_loop e data (t', x) = Inr (data, t', x)"
      using send_waits [of data e t x t x] full_waits [of t' e data x] same by (simp add: same_ends_def)
    ultimately show False using assms(3) same by (auto simp: same_ends_def utcp_drain_def utcp_get_tcb_def arr_get_def)
  qed
  then show ?thesis using sig by (simp add: signals_def)
qed

text \<open>Two bytes arrive at the sample connection, which had nothing to read.\<close>

theorem no_lost_wakeup_witness:
  "\<exists>d t' w'. input_segment env0 d (zero_bytes 1500) sample_hdr [7, 8] (sample_tcb, world0) = Inr (t', w') \<and> 0 < wakeups w'"
proof -
  let ?d = "\<lparr>dg_ip = 1, dg_port = 1970, dg_bytes = []\<rparr>" and ?R = "\<lambda>i. of_nat (7 + i) :: u8" and ?buff = "zero_bytes 1500" and ?data = "[7, 8] :: u8 list"
  have seg: "stream_segment ?R 0 sample_tcb 0 (th_seq sample_hdr) ?data"
    by (simp add: stream_segment_def sample_hdr_def sub_stream_def upt_rec) (simp add: sample_tcb_def)
  have "returns (handle_received_data env0 ?buff sample_hdr ?data (sample_tcb, world0)) (\<lambda>_. True)"
    by (rule handle_received_data_returns [OF good_env0 _ sample_simps(3) _ _ _ sample_rcv_inv seg])
      (simp_all add: ssthresh_floor_def sample_tcb_def shift_undefined_def)
  then obtain t' w' where run: "handle_received_data env0 ?buff sample_hdr ?data (sample_tcb, world0) = Inr (t', w')" by (auto simp: returns_def)
  then obtain N where N: "N < 2147483648" "rcv_inv ?R N t'" "2 \<le> N"
    using handle_received_data_rcv [OF sample_rcv_inv seg, of ?buff env0 world0] by (auto simp: sample_tcb_def rcv_used_def)
  have "recv_buf_tail t' = of_nat N" by (rule rcv_invD(8) [OF N(2)])
  moreover have "unat (of_nat N :: u32) = N" using N(1) by (intro unat_of_nat32) simp
  ultimately have "recv_buf_tail t' \<noteq> 0" using N(3) by auto
  moreover have "recv_buf_head t' = 0"
    using signals_received [of ?buff env0 sample_hdr ?data sample_tcb world0] run by (simp add: signals_def sample_tcb_def)
  ultimately have "read_wait env0 10 (t', world0) \<noteq> Inr Blocked" by (auto simp: read_wait_def rbind_eq_Inr)
  moreover have "read_wait env0 10 (sample_tcb, world0) = Inr Blocked" by (simp add: read_wait_def) (simp add: sample_tcb_def)
  moreover have step: "input_segment env0 ?d ?buff sample_hdr ?data (sample_tcb, world0) = Inr (t', w')"
    using run by (simp add: input_segment_def)
  ultimately have "wakeups world0 < wakeups w'" using no_lost_wakeup [OF step] by simp blast
  then show ?thesis using step by (auto simp: world0_def)
qed

end
