(* ===== verification/Exchange.thy ===== *)
theory Exchange
  imports Programs
begin

text \<open>
  Data gets through. Safety alone would hold of a stack that sends nothing; here the whole path is followed: an application
  writes at one end of a connection at rest, the segments arrive one after the other, the other application
  reads, the window update that a read sends carries the acknowledgement back, the window opens, more segments go out, until
  everything is acknowledged and the connection is at rest again. Every call on the way returns.
\<close>

section \<open>Segments on the wire\<close>

text \<open>Among the datagrams \<open>D\<close> is a segment with the bytes from position \<open>i\<close> to \<open>j\<close> of the stream.\<close>

definition hop :: "u32 \<Rightarrow> u16 \<Rightarrow> u16 \<Rightarrow> dgram set \<Rightarrow> nat \<Rightarrow> nat \<Rightarrow> bool" where
  "hop a p q D i j \<longleftrightarrow> i < j \<and> j \<le> i + MSS \<and> (\<exists>d \<in> D. \<exists>t payload. is_segment t (1 + of_nat i) TH_ACK payload d \<and>
     length payload = j - i \<and> rcv_nxt t = a \<and> src_port t = p \<and> dst_port t = q)"

text \<open>Everything between the first unacknowledged byte and the next one to send is in segments on the wire.\<close>

abbreviation hops :: "tcb \<Rightarrow> world \<Rightarrow> nat \<Rightarrow> nat \<Rightarrow> bool" where
  "hops t w \<equiv> rtranclp (hop (rcv_nxt t) (src_port t) (dst_port t) (set (sent w)))"

definition airborne :: "tcb \<Rightarrow> world \<Rightarrow> bool" where
  "airborne t w \<longleftrightarrow> hops t w (seq_pos t (snd_una t)) (seq_pos t (snd_nxt t))"

lemma hop_mono: "hop a p q D i j \<Longrightarrow> D \<subseteq> D' \<Longrightarrow> hop a p q D' i j"
  unfolding hop_def by blast

lemma hops_mono: "rtranclp (hop a p q D) i j \<Longrightarrow> D \<subseteq> D' \<Longrightarrow> rtranclp (hop a p q D') i j"
  by (erule rtranclp_mono [THEN predicate2D, rotated]) (auto intro: hop_mono)

lemma hops_le: "rtranclp (hop a p q D) i j \<Longrightarrow> i \<le> j"
  by (induction rule: rtranclp_induct) (auto simp: hop_def)

lemma sent_hop:
  assumes inv: "snd_inv S t" and seg: "is_segment t (snd_nxt t) TH_ACK payload d" and ne: "output_data_length t \<noteq> 0"
    and rd: "ring_buf_read (send_buf t) SEND_BUF_SIZE (snd_nxt t - iss t - 1) (unat (output_data_length t)) = Inr payload"
  shows "hop (rcv_nxt t) (src_port t) (dst_port t) {d} (seq_pos t (snd_nxt t)) (seq_pos t (snd_nxt t) + unat (output_data_length t))"
proof -
  have "1 + of_nat (seq_pos t (snd_nxt t)) = snd_nxt t" using seq_pos_seq [of t "snd_nxt t"] snd_invD(1) [OF inv] by simp
  moreover have "0 < unat (output_data_length t)" "unat (output_data_length t) \<le> MSS"
    using ne output_data_length_le [of t] by (simp_all add: unat_gt_0 word_le_nat_alt)
  ultimately show ?thesis using seg length_ring_buf_read [OF rd] by (auto simp: hop_def)
qed

lemma advance_airborne:
  assumes inv: "snd_inv S t" and n: "n = output_data_length t" "n \<noteq> 0" and air: "airborne t w" and sent: "sent w' = sent w @ [d]"
    and seg: "is_segment t (snd_nxt t) TH_ACK payload d" and rd: "ring_buf_read (send_buf t) SEND_BUF_SIZE (snd_nxt t - iss t - 1) (unat n) = Inr payload"
  shows "airborne (advance_send n False (cancel_delack t)) w'"
proof -
  let ?t = "advance_send n False (cancel_delack t)"
  have same: "same_but_output t ?t" using same_but_output_trans [OF same_but_output_parts(1,2)] .
  then have ports: "rcv_nxt ?t = rcv_nxt t \<and> src_port ?t = src_port t \<and> dst_port ?t = dst_port t \<and> snd_una ?t = snd_una t \<and> iss ?t = iss t"
    unfolding same_but_output_def by (elim ssubst) simp
  have pos: "seq_pos ?t q = seq_pos t q" for q using ports by (simp add: seq_pos_def)
  have "seq_pos t (snd_nxt t + n) = seq_pos t (snd_nxt t) + unat n"
    using snd_inv_fits [OF inv] n snd_invD(8) [OF inv] by (intro seq_pos_advance) simp
  then have nxt: "seq_pos ?t (snd_nxt ?t) = seq_pos t (snd_nxt t) + unat n" by (simp add: pos snd_nxt_advance_send)
  have "hop (rcv_nxt t) (src_port t) (dst_port t) {d} (seq_pos t (snd_nxt t)) (seq_pos t (snd_nxt t) + unat n)"
    using sent_hop [OF inv seg] rd n by simp
  then have "hop (rcv_nxt t) (src_port t) (dst_port t) (set (sent w')) (seq_pos t (snd_nxt t)) (seq_pos ?t (snd_nxt ?t))"
    unfolding nxt by (rule hop_mono) (simp add: sent)
  moreover have "hops t w' (seq_pos t (snd_una t)) (seq_pos t (snd_nxt t))"
    using hops_mono [OF air [unfolded airborne_def]] sent by (metis Un_upper1 set_append)
  ultimately show ?thesis using ports pos unfolding airborne_def by (metis rtranclp.rtrancl_into_rtrancl)
qed

lemma output_data_length_cong:
  assumes "same_but_output t t'" and "snd_nxt t' = snd_nxt t"
  shows "output_data_length t' = output_data_length t"
proof -
  note so = same_but_output_simps [OF assms(1)]
  have "buffered_data t' = buffered_data t" using so assms(2) by (simp add: buffered_data_def Let_def)
  then show ?thesis using so assms(2) send_window_cong [OF assms(1)] by (simp add: output_data_length_def Let_def)
qed

lemma output_loop_airborne:
  assumes env: "good_env env"
  shows "snd_inv S t \<Longrightarrow> state t = TCP_ESTABLISHED \<Longrightarrow> can_send t \<Longrightarrow> airborne t w \<Longrightarrow> \<not> has_flag (t_flags t) TF_ACKNOW \<Longrightarrow>
    returns (output_loop env force k t w) (\<lambda>(_, t', w'). airborne t' w' \<and> output_data_length t' = 0 \<and> \<not> has_flag (t_flags t') TF_ACKNOW)"
proof (induction "window_room t" arbitrary: force k t w rule: less_induct)
  case less
  from output_iter_returns [OF env less.prems(3), of "tcp_outflags (state t)" force w]
  obtain c n t' w' where it: "output_iter env (tcp_outflags (state t)) force t w = Inr (c, n, t', w')" and cs: "can_send t'"
    by (auto simp: returns_def)
  have same: "same_but_output t t'" using output_iter_extends [OF it] by blast
  have "\<forall>k d. - 1 \<le> sendto env k d" using env by (simp add: good_env_def)
  then have kept: "snd_inv S t'" "state t' = TCP_ESTABLISHED" "\<not> has_flag (t_flags t') TF_ACKNOW"
    using output_iter_stream [OF less.prems(1,2) _ it] t_flags_iter [OF it] less.prems(2,5) same_but_output_simps [OF same] by auto
  have flags: "\<not> has_flag TH_ACK (TH_SYN OR TH_FIN)" by (simp add: has_flag_def)
  from it have "airborne t' w' \<and> (\<not> c \<longrightarrow> output_data_length t' = 0)"
  proof (cases rule: output_iter_cases)
    case quiet
    then show ?thesis using less.prems(4) by simp
  next
    case (failed r)
    have "can_send (cancel_delack t)" using less.prems(3) can_send_cong [OF same_but_output_parts(1)] by simp
    moreover have "unat (output_data_length t) \<le> SEND_BUF_SIZE" using output_data_length_le [of t] by (simp add: word_le_nat_alt)
    ultimately show ?thesis 
      using utcp_send_segment_returns [OF env, of "cancel_delack t" "unat (output_data_length t)" "snd_nxt t" "tcp_outflags (state t)" w] failed(4,5)
      by simp
  next
    case (sent d payload)
    show ?thesis
    proof (cases "output_data_length t = 0")
      case True
      have t': "t' = cancel_delack t" using sent(1) True flags less.prems(2) by simp
      have "airborne t w'" using hops_mono [OF less.prems(4) [unfolded airborne_def]] sent(4) by (auto simp: airborne_def)
      then have "airborne t' w'" unfolding t' airborne_def by (simp add: cancel_delack_def seq_pos_def)
      then show ?thesis using True output_data_length_cong [OF same] t' by simp
    next
      case False
      then show ?thesis using advance_airborne [OF less.prems(1) refl _ less.prems(4) sent(4)] sent flags less.prems(2) by simp
    qed
  qed
  with less.hyps [OF _ kept(1,2) cs _ kept(3)] output_iter_room(2) [of env t force w n t' w'] it kept(3) show ?case
    by (cases c) (simp_all add: output_loop.simps [of env force k t w])
qed

text \<open>A call sends all that may be sent.\<close>

lemma output_airborne:
  assumes "good_env env" and "snd_inv S t" and "state t = TCP_ESTABLISHED" and "can_send t" and "airborne t w"
  shows "returns (call_output env (t, w)) (\<lambda>(t', w'). same_but_output t t' \<and> snd_inv S t' \<and> airborne t' w' \<and> output_data_length t' = 0 \<and>
    \<not> has_flag (t_flags t') TF_ACKNOW)"
proof -
  let ?t = "t\<lparr>t_flags := clear_flag (t_flags t) TF_ACKNOW\<rparr>"
  have "snd_inv S ?t" using snd_inv_cong [of t ?t S] assms(2) by (simp add: same_but_output_def)
  moreover have "can_send ?t" "airborne ?t w" using assms(4,5) by (simp_all add: can_send_def airborne_def seq_pos_def)
  ultimately have "returns (call_output env (t, w)) (\<lambda>(t', w'). airborne t' w' \<and> output_data_length t' = 0 \<and> \<not> has_flag (t_flags t') TF_ACKNOW)"
    unfolding call_output_def utcp_output_unfold prod.case
    using assms(3) by (intro returns_rbind [OF output_loop_airborne [OF assms(1)]]) auto
  moreover have "good_socket env" using assms(1) by (simp add: good_env_def good_socket_def)
  ultimately show ?thesis
    using call_output_frame [of env t w] safe_step_call_output [of env t w] assms(2,3) by (auto simp: safe_step_def returns_def)
qed

section \<open>The receiver\<close>

text \<open>The parts of a block that sending depends on. The window of the peer may have opened.\<close>

definition same_sender :: "tcb \<Rightarrow> tcb \<Rightarrow> bool" where
  "same_sender t t' \<longleftrightarrow> state t' = state t \<and> iss t' = iss t \<and> snd_una t' = snd_una t \<and> snd_nxt t' = snd_nxt t \<and> send_buf t' = send_buf t \<and>
     send_buf_tail t' = send_buf_tail t \<and> src_port t' = src_port t \<and> dst_port t' = dst_port t \<and> dst_ip t' = dst_ip t \<and>
     ssthresh t' = ssthresh t \<and> cc_ops t' = cc_ops t \<and> ca_state t' = ca_state t \<and> snd_scale t' = snd_scale t \<and> rcv_scale t' = rcv_scale t \<and>
     cwnd t' = cwnd t \<and> t_rxtshift t' = t_rxtshift t \<and> unat (snd_wnd t) \<le> unat (snd_wnd t')"

definition nothing_buffered :: "tcb \<Rightarrow> bool" where
  "nothing_buffered t \<longleftrightarrow> state t = TCP_ESTABLISHED \<and> can_send t \<and> buffered_data t = 0"

lemma same_sender_trans: "same_sender a b \<Longrightarrow> same_sender b c \<Longrightarrow> same_sender a c"
  by (simp add: same_sender_def)

lemma same_sender_calm: "same_sender t t' \<Longrightarrow> calm t \<Longrightarrow> calm t'"
  by (auto simp: same_sender_def calm_def ssthresh_floor_def)

lemma same_sender_buffered: "same_sender t t' \<Longrightarrow> nothing_buffered t' = nothing_buffered t"
  by (simp add: same_sender_def nothing_buffered_def can_send_def buffered_data_def Let_def)

lemma nothing_buffered_length: "nothing_buffered t \<Longrightarrow> output_data_length t = 0"
  using output_data_length_fits(3) [of t] by (auto simp: nothing_buffered_def)

lemma set_flag_present: "has_flag (x :: u16) TF_ACKNOW \<Longrightarrow> set_flag x TF_ACKNOW = x"
  unfolding has_flag_def set_flag_def by (rule bit_word_eqI) (auto simp: bit_simps and_one_eq bit_0 odd_iff_mod_2_eq_one)

lemma acknowledge_only:
  assumes env: "good_env env" and nb: "nothing_buffered t"
  obtains f g w' where "call_output env (t, w) = Inr (t\<lparr>t_flags := f, t_timer := g\<rparr>, w')"
proof (cases "has_flag (t_flags t) TF_ACKNOW")
  case True
  then have eq: "t\<lparr>t_flags := set_flag (t_flags t) TF_ACKNOW\<rparr> = t" by (simp add: set_flag_present)
  have "can_send t" "state t = TCP_ESTABLISHED" using nb by (simp_all add: nothing_buffered_def)
  then obtain t' w' where "call_output env (t, w) = Inr (t', w')" "t' = t\<lparr>t_flags := t_flags t', t_timer := t_timer t'\<rparr>"
    using ack_output [OF env _ _ nothing_buffered_length [OF nb], of w] unfolding eq by metis
  then show thesis using that by metis
next
  case False
  have "call_output env (t, w) = Inr (t\<lparr>t_flags := t_flags t, t_timer := t_timer t\<rparr>, w)"
    using quiet_output [OF _ nothing_buffered_length [OF nb] False] nb by (simp add: nothing_buffered_def)
  then show thesis by (rule that)
qed

text \<open>The next segment arrives at an empty receive buffer and is taken in whole.\<close>

definition took_in :: "nat \<Rightarrow> tcb \<Rightarrow> tcb \<Rightarrow> bool" where
  "took_in n t t' \<longleftrightarrow> same_sender t t' \<and> recv_buf_head t' = recv_buf_head t \<and> recv_buf_tail t' = recv_buf_head t + of_nat n \<and>
     length (recv_buf t') = RECV_BUF_SIZE \<and> ooo_head t' = [] \<and> ooo_bytes t' = 0 \<and> rcv_nxt t' = rcv_nxt t + of_nat n"

lemma place_data_takes:
  assumes env: "good_env env" and nb: "nothing_buffered t" and buf: "length (recv_buf t) = RECV_BUF_SIZE" "recv_buf_head t = recv_buf_tail t"
    and q: "ooo_head t = []" "ooo_bytes t = 0" and len: "length data \<le> MSS"
  shows "returns (place_data env (rcv_nxt t) data (t, w)) (\<lambda>(t', w'). took_in (length data) t t')"
proof -
  from ring_write_contents [of "recv_buf t" "recv_buf_tail t" "recv_buf_head t" data] buf len obtain ring where
    ring: "ring_buf_write (recv_buf t) RECV_BUF_SIZE (recv_buf_tail t) data (length data) = Inr ring" "length ring = RECV_BUF_SIZE"
    by (auto simp: returns_def)
  let ?t = "t\<lparr>recv_buf := ring, recv_buf_tail := recv_buf_tail t + of_nat (length data), rcv_nxt := rcv_nxt t + of_nat (length data)\<rparr>"
  have acc: "accept_in_order data (t, w) = Inr (ack_policy False ?t, cond_broadcast w)"
    using q by (simp add: accept_in_order_def ring(1) drain_ooo_queue.simps [of ?t] Let_def)
  have took: "took_in (length data) t (ack_policy False ?t\<lparr>t_flags := f, t_timer := g\<rparr>)" for f g
    using ring(2) buf(2) q by (simp add: took_in_def same_sender_def ack_policy_def)
  have "same_sender t (ack_policy False ?t)" by (simp add: same_sender_def ack_policy_def)
  then have "nothing_buffered (ack_policy False ?t)" using nb same_sender_buffered by blast
  then obtain f g w' where "call_output env (ack_policy False ?t, cond_broadcast w) = Inr (ack_policy False ?t\<lparr>t_flags := f, t_timer := g\<rparr>, w')"
    by (rule acknowledge_only [OF env])
  then show ?thesis using took len q buf(2) by (simp add: place_data_def acc)
qed

lemma receive_takes:
  assumes env: "good_env env" and nb: "nothing_buffered t" and rest: "resting t" and buf: "length (recv_buf t) = RECV_BUF_SIZE" "ooo_bytes t = 0"
    and hdr: "th_seq hdr = rcv_nxt t" "th_ack hdr = snd_una t"
    and opt: "\<And>x. process_window_option buff hdr x = Inr (x\<lparr>ts_recent := ts, ts_enabled := True\<rparr>)" and data: "data \<noteq> []" "length data \<le> MSS"
  shows "returns (handle_received_data env buff hdr data (t, w)) (\<lambda>(t', w'). took_in (length data) t t')"
proof -
  let ?t = "t\<lparr>ts_recent := ts, ts_enabled := True\<rparr>"
  have R: "recv_buf_head t = recv_buf_tail t" "ooo_head t = []" "unat (snd_scale t) < 32" using rest by (simp_all add: resting_def calm_def)
  obtain wnd where wnd: "GET_SCALED_WIN ?t hdr = Inr wnd" using GET_SCALED_WIN_returns [of ?t hdr] R(3) by auto
  have no: "\<not> SEQ_GT (snd_una t) (snd_una t)" "\<not> SEQ_LT (rcv_nxt t) (rcv_nxt t)" by (simp_all add: SEQ_sign)
  have "\<exists>t1 w1. handle_ack env buff hdr (length data) (?t, w) = Inr (t1, w1) \<and> (t1 = ?t \<or> wnd > snd_wnd t \<and> t1 = ?t\<lparr>snd_wnd := wnd\<rparr>)"
    using no(1) data(1) wnd hdr(2) by (auto simp: handle_ack_def handle_dup_ack_def)
  then obtain t1 w1 where ack: "handle_ack env buff hdr (length data) (?t, w) = Inr (t1, w1)"
    and t1: "t1 = ?t \<or> wnd > snd_wnd t \<and> t1 = ?t\<lparr>snd_wnd := wnd\<rparr>" by blast
  have same: "same_sender t t1" "rcv_nxt t1 = rcv_nxt t" "recv_buf t1 = recv_buf t" "recv_buf_head t1 = recv_buf_head t"
    "recv_buf_tail t1 = recv_buf_tail t" "ooo_head t1 = ooo_head t" "ooo_bytes t1 = ooo_bytes t"
    using t1 by (auto simp: same_sender_def word_less_nat_alt)
  have "nothing_buffered t1" using same(1) nb same_sender_buffered by blast
  from place_data_takes [OF env this, of data w1] R buf data(2) same
  have "returns (place_data env (rcv_nxt t) data (t1, w1)) (\<lambda>(t', w'). took_in (length data) t1 t')" by simp
  moreover have "took_in n t1 t' \<Longrightarrow> took_in n t t'" for n t' using same by (auto simp: took_in_def intro: same_sender_trans)
  ultimately show ?thesis
    using same no(2) data(1) hdr(1) by (auto simp: handle_received_data_def opt ack handle_data_def elim!: returns_mono)
qed

text \<open>The reader empties the buffer, and the window update acknowledges it.\<close>

lemma read_acknowledges:
  assumes env: "good_env env" and took: "took_in n t0 t" and nb: "nothing_buffered t" and calm: "calm t" and n: "0 < n" "n \<le> MSS" and len: "n \<le> len"
  obtains bytes t1 t' w' d where "read_wait env len (t, w) = Inr (Done (bytes, t', w'))" and "bytes \<noteq> []" and "sent w' = sent w @ [d]"
    and "is_segment t1 (snd_nxt t) TH_ACK [] d" and "rcv_nxt t1 = rcv_nxt t" "src_port t1 = src_port t" "dst_port t1 = dst_port t"
    "rcv_scale t1 = 5" "\<not> unread t1" and "resting t'" "same_sender t t'" "rcv_nxt t' = rcv_nxt t"
proof -
  let ?t = "t\<lparr>recv_buf_head := recv_buf_head t + of_nat n, rcv_wnd := RECV_BUF_SIZE\<rparr>"
  have u: "unat (of_nat n :: u32) = n" using n(2) by (intro unat_of_nat32) simp
  have T: "recv_buf_tail t = recv_buf_head t + of_nat n" "ooo_bytes t = 0" "ooo_head t = []" "length (recv_buf t) = RECV_BUF_SIZE"
    using took by (simp_all add: took_in_def)
  have "(of_nat n :: u32) \<noteq> 0" using u n(1) by auto
  then have ne: "recv_buf_head t \<noteq> recv_buf_tail t" by (simp add: T(1))
  obtain bytes where rd: "ring_buf_read (recv_buf t) RECV_BUF_SIZE (recv_buf_head t) n = Inr bytes"
    using ring_buf_read_returns [OF T(4), of n] n(2) by auto
  have same: "same_sender t ?t" by (simp add: same_sender_def)
  have nb': "nothing_buffered ?t" using nb same_sender_buffered [OF same] by simp
  obtain d t' w' where out: "call_output env (?t\<lparr>t_flags := set_flag (t_flags ?t) TF_ACKNOW\<rparr>, w) = Inr (t', w')" "sent w' = sent w @ [d]"
    "is_segment ?t (snd_nxt ?t) TH_ACK [] d" and t': "t' = ?t\<lparr>t_flags := t_flags t', t_timer := t_timer t'\<rparr>" and nf: "\<not> has_flag (t_flags t') TF_ACKNOW"
    by (rule ack_output [OF env, of ?t w]) (use nb' nothing_buffered_length [OF nb'] in \<open>simp_all add: nothing_buffered_def\<close>)
  have "read_wait env len (t, w) = Inr (Done (bytes, t', w'))"
    using out(1) ne len by (simp add: read_wait_def read_available_def T u rd min_absorb2)
  moreover have "bytes \<noteq> []" using length_ring_buf_read [OF rd] n(1) by auto
  moreover have "same_sender t t'" by (subst t') (simp add: same_sender_def)
  moreover have "recv_buf_head t' = recv_buf_tail t' \<and> ooo_head t' = []" "rcv_nxt t' = rcv_nxt t" by (subst t', simp add: T)+
  ultimately show thesis
    using out(2,3) nf T same_sender_calm [of t t'] calm by (intro that [of bytes t' w' d ?t]) (simp_all add: resting_def unread_def calm_def)
qed

section \<open>The sender\<close>

lemma scaled_open:
  assumes "unat (snd_scale t) \<le> 5" and "32768 \<le> unat (th_win h)"
  shows "\<exists>wnd. GET_SCALED_WIN t h = Inr wnd \<and> MSS \<le> unat wnd"
proof -
  let ?k = "unat (snd_scale t)" and ?w = "ucast (th_win h) :: u32"
  have "(2 :: nat) ^ ?k \<le> 2 ^ 5" using assms(1) by (intro power_increasing) simp_all
  moreover have w: "unat ?w = unat (th_win h)" "unat (th_win h) < 65536" using unsigned_less [of "th_win h", where 'a = nat] by (simp_all add: unat_win)
  ultimately have "2 ^ ?k * unat ?w < 2 ^ 32" using mult_le_mono [of "2 ^ ?k" "2 ^ 5" "unat ?w" 65535] by simp
  then have "unat (push_bit ?k ?w) = 2 ^ ?k * unat ?w"
    unfolding unsigned_push_bit_eq by (simp add: push_bit_eq_mult take_bit_nat_eq_self mult.commute)
  moreover have "1 * unat ?w \<le> 2 ^ ?k * unat ?w" by (rule mult_le_mono1) simp
  ultimately have "MSS \<le> unat (push_bit ?k ?w)" using assms(2) w(1) by linarith
  then show ?thesis using assms w(1) by (simp add: GET_SCALED_WIN_def)
qed

lemma calm_window: "calm t \<Longrightarrow> MSS \<le> unat (send_window t)"
  by (simp add: calm_def send_window_def)

text \<open>Additive increase neither shrinks the window nor adds more than what was acknowledged.\<close>

lemma aimd_grows:
  assumes c: "MSS \<le> unat (cwnd t)" and a: "0 < unat acked" "unat (cwnd t) + unat acked < 4294967296"
  obtains t' where "cc_aimd acked t = Inr t'" and "unat (cwnd t) \<le> unat (cwnd t')" "unat (cwnd t') \<le> unat (cwnd t) + unat acked"
    and "t' = t\<lparr>cwnd := cwnd t', ca_state := ca_state t'\<rparr>" and "ca_state t' = ca_state t \<or> ca_state t' = TCP_CA_OPEN"
proof -
  let ?t = "if ca_state t = TCP_CA_LOSS then t\<lparr>ca_state := TCP_CA_OPEN\<rparr> else t"
  let ?q = "unat (min acked (cwnd t)) * MSS div unat (cwnd t)"
  define k where "k = (if cwnd t < ssthresh t then min acked MSS else of_nat (max ?q 1))"
  have "unat (min acked (cwnd t)) * MSS \<le> unat (min acked (cwnd t)) * unat (cwnd t)" using c by simp
  then have "?q \<le> unat (min acked (cwnd t))" by (metis div_le_mono div_mult_self_is_m div_by_0 zero_le gr_zeroI)
  also have "\<dots> \<le> unat acked" by (simp add: min_def word_le_nat_alt)
  finally have q: "max ?q 1 \<le> unat acked" using a(1) by simp
  then have "unat (of_nat (max ?q 1) :: u32) = max ?q 1" using a(2) by (intro unat_of_nat32) linarith
  then have "unat k \<le> unat acked" using q by (auto simp: k_def min_def word_le_nat_alt)
  moreover from this have "unat (cwnd t + k) = unat (cwnd t) + unat k" using a(2) by (intro unat_add_small32) simp
  moreover have "cc_aimd acked t = Inr (?t\<lparr>cwnd := cwnd t + k\<rparr>)" using c by (auto simp: cc_aimd_def Let_def k_def)
  ultimately show thesis by (intro that [of "?t\<lparr>cwnd := cwnd t + k\<rparr>"]) auto
qed

text \<open>What the processing of an acknowledgement leaves alone.\<close>

definition same_end :: "tcb \<Rightarrow> tcb \<Rightarrow> bool" where
  "same_end t t' \<longleftrightarrow> state t' = state t \<and> iss t' = iss t \<and> snd_nxt t' = snd_nxt t \<and> snd_max t' = snd_max t \<and> send_buf t' = send_buf t \<and>
     rcv_nxt t' = rcv_nxt t \<and>
     recv_buf_head t' = recv_buf_head t \<and> recv_buf_tail t' = recv_buf_tail t \<and> ooo_head t' = ooo_head t \<and> t_flags t' = t_flags t \<and>
     src_port t' = src_port t \<and> dst_port t' = dst_port t \<and> dst_ip t' = dst_ip t \<and> rcv_scale t' = rcv_scale t \<and> snd_scale t' = snd_scale t \<and>
     cc_ops t' = cc_ops t \<and> ssthresh t' = ssthresh t"

lemma same_end_trans: "same_end a b \<Longrightarrow> same_end b c \<Longrightarrow> same_end a c"
  by (simp add: same_end_def)

lemma same_end_frames:
  "same_but_rtt t t' \<Longrightarrow> same_end t t' \<and> snd_una t' = snd_una t \<and> snd_wnd t' = snd_wnd t \<and> cwnd t' = cwnd t \<and> ca_state t' = ca_state t"
  "same_but_lstm t t' \<Longrightarrow> same_end t t' \<and> snd_una t' = snd_una t \<and> snd_wnd t' = snd_wnd t \<and> cwnd t' = cwnd t \<and> ca_state t' = ca_state t \<and> t_rxtshift t' = t_rxtshift t"
  unfolding same_but_rtt_def same_but_lstm_def same_end_def by (erule ssubst, simp)+

lemma rearm_rexmt_shift:
  assumes "unat (t_rxtshift t) \<le> 12"
  obtains t' where "rearm_rexmt t = Inr t'" and "same_but_rtt t t'" and "unat (t_rxtshift t') \<le> 12"
  using rearm_rexmt_returns [OF assms] assms
  by (auto simp: returns_def rearm_rexmt_def rbind_eq_Inr split: if_splits)

lemma new_ack_effect:
  assumes env: "good_env env" and buff: "length buff = 1500" and calm: "calm t"
    and ack: "unat (th_ack hdr) = unat (snd_una t) + m" "0 < m" "unat (th_ack hdr) < 2147483648" "\<not> SEQ_GT (th_ack hdr) (snd_nxt t)"
    and win: "32768 \<le> unat (th_win hdr)"
  shows "returns (handle_new_ack env buff hdr (t, w)) (\<lambda>(t', w'). same_end t t' \<and> calm t' \<and> snd_una t' = th_ack hdr \<and> sent w' = sent w)"
proof -
  note C = calm [unfolded calm_def]
  have m: "unat (th_ack hdr - snd_una t) = m" using ack(1) by (simp add: unat_sub word_le_nat_alt)
  let ?t = "\<lambda>wnd. t\<lparr>snd_una := th_ack hdr, t_dupacks := 0, send_buf_head := send_buf_head t + (th_ack hdr - snd_una t), snd_wnd := wnd\<rparr>"
  obtain wnd where "GET_SCALED_WIN (t\<lparr>snd_una := th_ack hdr, t_dupacks := 0, send_buf_head := send_buf_head t + (th_ack hdr - snd_una t)\<rparr>) hdr = Inr wnd"
    and wnd: "MSS \<le> unat wnd"
    using scaled_open [OF _ win, of "t\<lparr>snd_una := th_ack hdr, t_dupacks := 0, send_buf_head := send_buf_head t + (th_ack hdr - snd_una t)\<rparr>"] C by auto
  then have 1: "slide_window hdr t = Inr (?t wnd)" using ack(4) by (simp add: slide_window_def Let_def)
  obtain rtt t2 w2 where 2: "measure_rtt env buff hdr (?t wnd, cond_broadcast w) = Inr (rtt, t2, w2)" "same_but_rtt (?t wnd) t2" "t_rxtshift t2 = t_rxtshift t" "sent w2 = sent w"
    using measure_rtt_returns [OF env buff, of hdr "?t wnd" "cond_broadcast w"] measure_rtt_frame [of env buff hdr "?t wnd" "cond_broadcast w"]
    by (auto simp: returns_def cond_broadcast_def)
  obtain t3 where 3: "rearm_rexmt t2 = Inr t3" "same_but_rtt t2 t3" "unat (t_rxtshift t3) \<le> 12" by (rule rearm_rexmt_shift [of t2]) (use C 2(3) in simp)
  have s3: "same_end t t3" "snd_una t3 = th_ack hdr" "snd_wnd t3 = wnd" "cwnd t3 = cwnd t" "ca_state t3 = ca_state t"
    using same_end_frames(1) [OF 2(2)] same_end_frames(1) [OF 3(2)] by (auto simp: same_end_def)
  obtain t4 where 4: "cc_aimd (th_ack hdr - snd_una t) t3 = Inr t4" "unat (cwnd t) \<le> unat (cwnd t4)" "unat (cwnd t4) \<le> unat (cwnd t) + m"
    "t4 = t3\<lparr>cwnd := cwnd t4, ca_state := ca_state t4\<rparr>" "ca_state t4 = ca_state t3 \<or> ca_state t4 = TCP_CA_OPEN"
    by (rule aimd_grows [of t3 "th_ack hdr - snd_una t"]) (use C m ack s3 in auto)
  have s4: "same_end t3 t4" "snd_una t4 = snd_una t3" "snd_wnd t4 = snd_wnd t3" "t_rxtshift t4 = t_rxtshift t3" by (subst 4(4), simp add: same_end_def)+
  have cc: "cong_control (cc_ops t3) env (TCP_CC_EVENT_ACK (th_ack hdr - snd_una t) rtt) (t3, w2) = Inr (t4, w2)"
    using C s3 4(1) by (simp add: same_end_def new_reno_ack_def aimd_step_def)
  obtain t5 w5 where 5: "log_lstm_event env t4 rtt (th_ack hdr - snd_una t) False False w2 = Inr (t5, w5)" "same_but_lstm t4 t5" "sent w5 = sent w"
    using log_lstm_event_returns [OF env, of t4 rtt "th_ack hdr - snd_una t" False False w2] log_lstm_event_frame [of env t4 rtt "th_ack hdr - snd_una t" False False w2] 2(4)
    by (auto simp: returns_def same_but_rows_simps)
  note s5 = same_end_frames(2) [OF 5(2)]
  have "same_end t t5" using s3(1) s4(1) s5 same_end_trans by metis
  moreover have "calm t5" using calm s5 s4 s3 4(2,3,5) 3(3) wnd ack(1) \<open>same_end t t5\<close> by (auto simp: calm_def same_end_def ssthresh_floor_def)
  ultimately show ?thesis using s5 s4 s3 5(3) by (simp add: handle_new_ack_def Let_def 1 2(1) 3(1) cc 5(1))
qed

lemma ack_moves:
  assumes env: "good_env env" and buff: "length buff = 1500" and inv: "snd_inv S t" and est: "state t = TCP_ESTABLISHED" and rest: "resting t"
    and q: "seq_pos t (snd_una t) < q" "hops t w q (seq_pos t (snd_nxt t))" and hdr: "th_ack hdr = 1 + of_nat q" "32768 \<le> unat (th_win hdr)"
    and opt: "\<And>x. process_window_option buff hdr x = Inr (x\<lparr>ts_recent := ts, ts_enabled := True\<rparr>)"
  shows "returns (handle_received_data env buff hdr [] (t, w)) (\<lambda>(t', w'). resting t' \<and> airborne t' w' \<and> output_data_length t' = 0 \<and>
    snd_una t' = 1 + of_nat q \<and> rcv_nxt t' = rcv_nxt t \<and> src_port t' = src_port t \<and> dst_port t' = dst_port t)"
proof -
  note D = snd_invD [OF inv]
  let ?t = "t\<lparr>ts_recent := ts, ts_enabled := True\<rparr>" and ?u = "seq_pos t (snd_una t)" and ?n = "seq_pos t (snd_nxt t)" and ?m = "seq_pos t (snd_max t)"
  have seqs: "snd_una t = 1 + of_nat ?u" "snd_nxt t = 1 + of_nat ?n" "snd_max t = 1 + of_nat ?m" using seq_pos_seq [of t] D(1) by simp_all
  have le: "q \<le> ?n" "?n \<le> ?m" "?m < 2147483647" using hops_le [OF q(2)] D(5,6,8) by simp_all
  have small: "unat (1 + of_nat k :: u32) = Suc k" if "k < 2147483647" for k using unat_of_nat32 [of "Suc k"] that by simp
  have un: "unat (th_ack hdr) = unat (snd_una t) + (q - ?u)" "unat (th_ack hdr) < 2147483648"
    using small [of q] small [of ?u] le q(1) seqs(1) hdr(1) by simp_all
  have cmp: "SEQ_GT (th_ack hdr) (snd_una t)" "SEQ_LEQ (th_ack hdr) (snd_max t)" "\<not> SEQ_GT (th_ack hdr) (snd_nxt t)"
    unfolding hdr(1) by (subst seqs, use SEQ_offsets [of q _ 1] le q(1) in \<open>simp add: SEQ_GT_not_LEQ\<close>)+
  have calm: "calm ?t" using rest by (simp add: resting_def calm_def ssthresh_floor_def)
  have "returns (handle_new_ack env buff hdr (?t, w)) (\<lambda>(t', w'). same_end ?t t' \<and> calm t' \<and> snd_una t' = th_ack hdr \<and> sent w' = sent w)"
    using un cmp(3) q(1) by (intro new_ack_effect [OF env buff calm _ _ _ _ hdr(2), of "q - ?u"]) simp_all
  then obtain t1 w1 where ack: "handle_ack env buff hdr 0 (?t, w) = Inr (t1, w1)" and t1: "same_end ?t t1" "calm t1" "snd_una t1 = th_ack hdr" "sent w1 = sent w"
    using cmp by (auto simp: handle_ack_def returns_def)
  have "snd_inv S ?t = snd_inv S t" by (simp add: snd_inv_def seq_pos_def snd_written_def)
  moreover have "good_socket env" using env by (simp add: good_env_def good_socket_def)
  ultimately have inv1: "snd_inv S t1" using safe_step_ack [of env ?t w buff hdr 0] ack inv est by (auto simp: safe_step_def)
  have pos: "seq_pos t1 x = seq_pos t x" for x using t1(1) by (simp add: same_end_def seq_pos_def)
  have "seq_pos t (th_ack hdr) = q" using unat_of_nat32 [of q] le hdr(1) D(1) by (simp add: seq_pos_def)
  then have air: "airborne t1 w1" using q(2) t1 pos by (simp add: airborne_def same_end_def)
  have "state t1 = TCP_ESTABLISHED" "can_send t1" using t1 est snd_invD(2) [OF inv1] by (simp_all add: same_end_def can_send_def calm_def)
  from output_airborne [OF env inv1 this air] obtain t2 w2 where out: "call_output env (t1, w1) = Inr (t2, w2)" "same_but_output t1 t2"
    "airborne t2 w2" "output_data_length t2 = 0" "\<not> has_flag (t_flags t2) TF_ACKNOW" by (auto simp: returns_def)
  note so = same_but_output_simps [OF out(2)]
  have "snd_scale t2 = snd_scale t1 \<and> src_port t2 = src_port t1 \<and> dst_port t2 = dst_port t1" using out(2) unfolding same_but_output_def by (elim ssubst) simp
  then have "resting t2 \<and> snd_una t2 = 1 + of_nat q \<and> rcv_nxt t2 = rcv_nxt t \<and> src_port t2 = src_port t \<and> dst_port t2 = dst_port t"
    using t1 so rest out(5) hdr(1) by (simp add: resting_def calm_def ssthresh_floor_def same_end_def)
  then show ?thesis using out by (simp add: handle_received_data_def opt ack handle_data_def)
qed

section \<open>A turn\<close>

text \<open>One segment is delivered, the application at the other end reads, and its window update is delivered.\<close>

inductive turn :: "(bool \<Rightarrow> env) \<Rightarrow> bool \<Rightarrow> nat \<Rightarrow> link \<Rightarrow> u8 list \<Rightarrow> link \<Rightarrow> bool" for envs :: "bool \<Rightarrow> env" and s :: bool and len :: nat where
  turn: "host_step (envs (\<not> s)) (Received d) (hosts l (\<not> s)) h1 \<Longrightarrow> deliverable l (\<not> s) d \<Longrightarrow> l1 = l\<lparr>hosts := (hosts l)(\<not> s := h1)\<rparr> \<Longrightarrow>
    utcp_read (envs (\<not> s)) (h_table h1) 0 len (h_world h1) = Inr (Done (bytes, tbl, w)) \<Longrightarrow>
    l2 = l1\<lparr>hosts := (hosts l1)(\<not> s := h1\<lparr>h_table := tbl, h_world := w\<rparr>), got := (got l1)(\<not> s := got l1 (\<not> s) @ bytes)\<rparr> \<Longrightarrow>
    host_step (envs s) (Received d') (hosts l2 s) h2 \<Longrightarrow> deliverable l2 s d' \<Longrightarrow> l3 = l2\<lparr>hosts := (hosts l2)(s := h2)\<rparr> \<Longrightarrow>
    turn envs s len l bytes l3"

lemma turn_steps:
  assumes "turn envs s len l bytes l'"
  shows "rtranclp (link_step envs) l l' \<and> written l' = written l \<and> got l' = (got l)(\<not> s := got l (\<not> s) @ bytes)"
  using assms
proof cases
  case (turn d h1 l1 tbl w l2 d' h2)
  have "link_step envs l l1" unfolding turn(3) by (rule link_step.deliver [of envs, OF turn(1,2)])
  moreover have "host_step (envs (\<not> s)) (Read 0 bytes) (hosts l1 (\<not> s)) (h1\<lparr>h_table := tbl, h_world := w\<rparr>)"
    using host_step.read [OF turn(4)] by (simp add: turn(3))
  then have "link_step envs l1 l2" unfolding turn(5) by (rule link_step.app_read)
  moreover have "link_step envs l2 l'" unfolding turn(8) by (rule link_step.deliver [of envs, OF turn(6,7)])
  ultimately show ?thesis using turn(3,5,8) by (auto intro: rtranclp.rtrancl_into_rtrancl)
qed

lemma link_inv_steps:
  assumes "rtranclp (link_step envs) l l'" and "link_inv l" and "\<And>s. good_env (envs s)"
  shows "link_inv l'"
  using assms(1,2)
proof (induction rule: rtranclp_induct)
  case (step y z)
  have "good_socket (envs s)" for s using assms(3) by (simp add: good_env_def good_socket_def)
  with step show ?case using link_inv_step by blast
qed

lemma link_blocks:
  assumes "link_inv l" and "\<And>r. host_ok (hosts l r) (T r)"
  obtains N where "\<forall>r. ep_ok (written l r) (written l (\<not> r)) (N r) (T r)" and "\<forall>r. got l r = take (N r - rcv_used (T r)) (written l (\<not> r))"
proof -
  from assms(1) obtain T' N where side: "\<And>r. side_ok (hosts l r) (written l r) (written l (\<not> r)) (got l r) (N r) (N (\<not> r)) (T' r)"
    unfolding link_inv_def by blast
  have "T' r = T r" for r using side [of r] assms(2) [of r] by (simp add: side_ok_def host_ok_def)
  then show thesis using that side by (metis side_ok_def)
qed

text \<open>Its three moves, on the two hosts.\<close>

lemma deliver_data:
  assumes env: "good_env env" and b: "host_ok h b" "resting b" "nothing_buffered b" "length (recv_buf b) = RECV_BUF_SIZE" "ooo_bytes b = 0"
    and seg: "is_segment t (rcv_nxt b) TH_ACK payload d" "payload \<noteq> []" "length payload \<le> MSS" "rcv_nxt t = snd_una b"
      "src_port b = dst_port t" "dst_port b = src_port t"
  obtains h' b' where "host_step env (Received (d\<lparr>dg_ip := dst_ip b\<rparr>)) h h'" and "host_ok h' b'" and "took_in (length payload) b b'"
proof (rule segment_step [OF seg(1,3) b(1), of "dst_ip b" env "\<lambda>x w. took_in (length payload) b x"], goal_cases)
  case (3 buff hdr ts)
  have "returns (handle_received_data env buff hdr payload (b, h_world h)) (\<lambda>(t', w'). took_in (length payload) b t')"
    by (rule receive_takes [OF env b(3,2,4,5)]) (use 3 seg in \<open>simp_all add: has_flag_def\<close>)
  then show ?case using b(3) by (auto simp: input_segment_def returns_def nothing_buffered_def)
qed (use seg that in simp_all)

lemma host_reads:
  assumes env: "good_env env" and h: "host_ok h t" "took_in n b t" and b: "nothing_buffered b" "calm b" and n: "0 < n" "n \<le> MSS" "n \<le> len"
  obtains bytes tbl w b' t' d where "utcp_read env (h_table h) 0 len (h_world h) = Inr (Done (bytes, tbl, w))" and "bytes \<noteq> []"
    and "host_ok (h\<lparr>h_table := tbl, h_world := w\<rparr>) b'" and "d \<in> set (sent w)" and "is_segment t' (snd_nxt t) TH_ACK [] d"
    and "rcv_nxt t' = rcv_nxt b + of_nat n" "src_port t' = src_port b" "dst_port t' = dst_port b" "rcv_scale t' = 5" "\<not> unread t'"
    and "resting b'" "same_sender b b'" "rcv_nxt b' = rcv_nxt b + of_nat n"
proof -
  have t: "same_sender b t" "rcv_nxt t = rcv_nxt b + of_nat n" using h(2) by (simp_all add: took_in_def)
  have "nothing_buffered t" "calm t" using b t(1) same_sender_buffered same_sender_calm by blast+
  from read_acknowledges [OF env h(2) this n, of "h_world h"] obtain bytes t' b' w d where
    rd: "read_wait env len (t, h_world h) = Inr (Done (bytes, b', w))" "bytes \<noteq> []" "sent w = sent (h_world h) @ [d]"
    and d: "is_segment t' (snd_nxt t) TH_ACK [] d" "rcv_nxt t' = rcv_nxt t" "src_port t' = src_port t" "dst_port t' = dst_port t" "rcv_scale t' = 5" "\<not> unread t'"
    and b': "resting b'" "same_sender t b'" "rcv_nxt b' = rcv_nxt t" by metis
  have "h_table h = Some t # replicate 5 None" "state t = TCP_ESTABLISHED" using h(1) \<open>nothing_buffered t\<close> by (simp_all add: host_ok_def nothing_buffered_def)
  then have "utcp_read env (h_table h) 0 len (h_world h) = Inr (Done (bytes, Some b' # replicate 5 None, w))"
    using rd(1) by (simp add: utcp_read_def utcp_get_tcb_in_state_def utcp_get_tcb_def arr_get_def)
  moreover have "host_ok (h\<lparr>h_table := Some b' # replicate 5 None, h_world := w\<rparr>) b'" using h(1) by (simp add: host_ok_def)
  moreover have "src_port t' = src_port b" "dst_port t' = dst_port b" using d(3,4) t(1) by (simp_all add: same_sender_def)
  ultimately show thesis
    using rd(2,3) d b' t same_sender_trans [OF t(1) b'(2)] by (intro that [of bytes "Some b' # replicate 5 None" w b' d t']) simp_all
qed

lemma deliver_ack:
  assumes env: "good_env env" and a: "host_ok h a" "resting a" "snd_inv S a" "state a = TCP_ESTABLISHED"
    and q: "seq_pos a (snd_una a) < q" "hops a (h_world h) q (seq_pos a (snd_nxt a))"
    and seg: "is_segment t seq TH_ACK [] d" "rcv_nxt t = 1 + of_nat q" "src_port a = dst_port t" "dst_port a = src_port t" "rcv_scale t = 5" "\<not> unread t"
  obtains h' a' where "host_step env (Received (d\<lparr>dg_ip := dst_ip a\<rparr>)) h h'" and "host_ok h' a'" and "resting a'" "airborne a' (h_world h')"
    "output_data_length a' = 0" "snd_una a' = 1 + of_nat q" "rcv_nxt a' = rcv_nxt a" "src_port a' = src_port a" "dst_port a' = dst_port a"
proof (rule segment_step [OF seg(1) _ a(1), of "dst_ip a" env "\<lambda>x w. resting x \<and> airborne x w \<and> output_data_length x = 0 \<and>
    snd_una x = 1 + of_nat q \<and> rcv_nxt x = rcv_nxt a \<and> src_port x = src_port a \<and> dst_port x = dst_port a"], goal_cases)
  case (4 buff hdr ts)
  have "returns (handle_received_data env buff hdr [] (a, h_world h)) (\<lambda>(t', w'). resting t' \<and> airborne t' w' \<and> output_data_length t' = 0 \<and>
    snd_una t' = 1 + of_nat q \<and> rcv_nxt t' = rcv_nxt a \<and> src_port t' = src_port a \<and> dst_port t' = dst_port a)"
    by (rule ack_moves [OF env 4(2) a(3,4,2) q]) (use 4 seg open_window in \<open>simp_all add: has_flag_def\<close>)
  then show ?case using a(4) by (auto simp: input_segment_def returns_def)
qed (use seg that in simp_all)

section \<open>A write until it is acknowledged\<close>

text \<open>
  The side \<open>s\<close> has sent what the windows allow, all of it is on the wire, and the other side has read everything up to the first
  unacknowledged byte.
\<close>

definition sending :: "link \<Rightarrow> bool \<Rightarrow> (bool \<Rightarrow> tcb) \<Rightarrow> bool" where
  "sending l s T \<longleftrightarrow> link_inv l \<and> (\<forall>r. host_ok (hosts l r) (T r) \<and> resting (T r) \<and> src_port (T r) = dst_port (T (\<not> r))) \<and>
     airborne (T s) (h_world (hosts l s)) \<and> output_data_length (T s) = 0 \<and> rcv_nxt (T (\<not> s)) = snd_una (T s) \<and>
     snd_una (T (\<not> s)) = rcv_nxt (T s) \<and> snd_una (T (\<not> s)) = 1 + of_nat (length (written l (\<not> s)))"

lemma acked_all:
  assumes ok: "ep_ok xs ys N t" and una: "snd_una t = 1 + of_nat (length xs)"
  shows "seq_pos t (snd_una t) = length xs" and "snd_nxt t = snd_una t" and "resting t \<Longrightarrow> nothing_buffered t"
proof -
  note D = snd_invD [OF ep_okD(10) [OF ok]] and E = ep_okD [OF ok]
  show p: "seq_pos t (snd_una t) = length xs" using una E(3,11) unat_of_nat32 [of "length xs"] by (simp add: seq_pos_def)
  then have n: "seq_pos t (snd_nxt t) = length xs" using D(4,5,6) E(6) by simp
  then show "snd_nxt t = snd_una t" using seq_pos_seq [of t "snd_nxt t"] E(3) una by simp
  have "unat (buffered_data t) = 0" using snd_inv_buffered [OF E(10)] n E(6) by simp
  then show "resting t \<Longrightarrow> nothing_buffered t" using E(1) D(2) by (simp add: nothing_buffered_def unat_eq_0 can_send_def resting_def calm_def)
qed

lemma rcv_empty:
  assumes ok: "ep_ok xs ys N t" and rest: "resting t"
  shows "rcv_used t = 0" and "ooo_bytes t = 0" and "length (recv_buf t) = RECV_BUF_SIZE"
proof -
  have inv: "rcv_inv (list_stream ys) N t" using ep_okD(5) [OF ok] by (simp add: rcv_ok_def)
  show "length (recv_buf t) = RECV_BUF_SIZE" by (rule rcv_invD(2) [OF inv])
  show "rcv_used t = 0" using rest by (simp add: rcv_used_def resting_def)
  have "unat (ooo_bytes t) = 0" using rcv_invD(6) [OF inv] rest by (simp add: resting_def)
  then show "ooo_bytes t = 0" by (simp add: unat_eq_0)
qed

text \<open>The read position of the other side, as a number.\<close>

lemma sending_got:
  assumes "sending l s T"
  obtains N where "\<forall>r. ep_ok (written l r) (written l (\<not> r)) (N r) (T r)" and "got l (\<not> s) = take (seq_pos (T s) (snd_una (T s))) (written l s)"
    and "got l s = written l (\<not> s)" and "N (\<not> s) = seq_pos (T s) (snd_una (T s))" and "N s = length (written l (\<not> s))"
proof -
  have T: "link_inv l" "\<And>r. host_ok (hosts l r) (T r)" "\<And>r. resting (T r)" using assms by (simp_all add: sending_def)
  obtain N where N0: "\<forall>r. ep_ok (written l r) (written l (\<not> r)) (N r) (T r)" "\<forall>r. got l r = take (N r - rcv_used (T r)) (written l (\<not> r))"
    by (rule link_blocks [OF T(1,2)])
  note N = N0 [rule_format]
  note E = ep_okD [OF N(1)]
  have nat: "unat (q - 1) = k" if "q = 1 + of_nat k" "k < 2147483647" for q :: u32 and k using that unat_of_nat32 [of k] by simp
  have "N r = unat (rcv_nxt (T r) - 1)" for r using nat [OF E(7) [of r]] E(8,9) [of r] by simp
  moreover have "unat (snd_una (T s) - 1) = seq_pos (T s) (snd_una (T s))" using E(3) by (simp add: seq_pos_def)
  moreover have "unat (1 + of_nat (length (written l (\<not> s))) - 1 :: u32) = length (written l (\<not> s))" using nat [OF refl] E(11) by blast
  moreover have "rcv_nxt (T s) = 1 + of_nat (length (written l (\<not> s)))" "rcv_nxt (T (\<not> s)) = snd_una (T s)"
    using assms unfolding sending_def by metis+
  ultimately have "N (\<not> s) = seq_pos (T s) (snd_una (T s))" "N s = length (written l (\<not> s))" by simp_all
  then show thesis using that N0(1) N(2) [of s] N(2) [of "\<not> s"] rcv_empty(1) [OF N(1) T(3)] by simp
qed

lemma sending_settled:
  assumes sd: "sending l s T" and una: "snd_una (T s) = 1 + of_nat (length (written l s))"
  shows "link_settled l" and "got l (\<not> s) = written l s"
proof -
  obtain N where ok0: "\<forall>r. ep_ok (written l r) (written l (\<not> r)) (N r) (T r)" and g: "got l (\<not> s) = take (seq_pos (T s) (snd_una (T s))) (written l s)"
    and N: "N (\<not> s) = seq_pos (T s) (snd_una (T s))" "N s = length (written l (\<not> s))" by (rule sending_got [OF sd])
  note ok = ok0 [rule_format]
  have u: "snd_una (T r) = 1 + of_nat (length (written l r))" for r using una sd by (cases "r = s") (auto simp: sending_def)
  note A = acked_all [OF ok u]
  show "got l (\<not> s) = written l s" using g A(1) by simp
  have "N r = length (written l (\<not> r))" for r using N A(1) [of s] by (cases "r = s") auto
  then have "settled (written l r) (written l (\<not> r)) (T r)" for r using ok [of r] A [of r] sd by (simp add: settled_def sending_def)
  then show "link_settled l" using sd unfolding link_settled_def sending_def by blast
qed

lemma sending_hop:
  assumes sd: "sending l s T" and more: "snd_una (T s) \<noteq> 1 + of_nat (length (written l s))"
  obtains q where "hop (rcv_nxt (T s)) (src_port (T s)) (dst_port (T s)) (set (sent (h_world (hosts l s)))) (seq_pos (T s) (snd_una (T s))) q"
    and "hops (T s) (h_world (hosts l s)) q (seq_pos (T s) (snd_nxt (T s)))" and "seq_pos (T s) (snd_una (T s)) < length (written l s)"
proof -
  let ?t = "T s" and ?u = "seq_pos (T s) (snd_una (T s))" and ?n = "seq_pos (T s) (snd_nxt (T s))"
  obtain N where "\<forall>r. ep_ok (written l r) (written l (\<not> r)) (N r) (T r)" by (rule sending_got [OF sd])
  then have ok: "ep_ok (written l s) (written l (\<not> s)) (N s) ?t" by blast
  note D = snd_invD [OF ep_okD(10) [OF ok]] and E = ep_okD [OF ok]
  have u: "snd_una ?t = 1 + of_nat ?u" using seq_pos_seq [of ?t "snd_una ?t"] E(3) by simp
  have "?u \<noteq> length (written l s)" using u more by metis
  then have lt: "?u < length (written l s)" using D(4,5,6) E(6) by linarith
  have "?u \<noteq> ?n"
  proof
    assume "?u = ?n"
    then have "snd_nxt ?t = snd_una ?t" using u seq_pos_seq [of ?t "snd_nxt ?t"] E(3) by simp
    from output_data_length_idle [OF E(10,1) this] have "min MSS (min (unat (send_window ?t)) (length (written l s) - ?u)) = 0"
      using sd E(6) by (simp add: sending_def)
    moreover have "MSS \<le> unat (send_window ?t)" using calm_window sd by (simp add: sending_def resting_def)
    ultimately show False using lt by (simp add: min_def split: if_splits)
  qed
  moreover have "hops ?t (h_world (hosts l s)) ?u ?n" using sd unfolding sending_def airborne_def by blast
  ultimately show thesis using that lt by (metis converse_rtranclpE)
qed

text \<open>The first segment on the wire takes its turn.\<close>

lemma sending_turn:
  assumes sd: "sending l s T" and env: "\<And>r. good_env (envs r)" and more: "snd_una (T s) \<noteq> 1 + of_nat (length (written l s))" and len: "MSS \<le> len"
  obtains bytes l' T' where "turn envs s len l bytes l'" and "bytes \<noteq> []" and "length (got l (\<not> s)) < length (written l s)"
    and "sending l' s T'" and "unat (snd_una (T s)) < unat (snd_una (T' s))"
proof -
  let ?a = "T s" and ?b = "T (\<not> s)" and ?u = "seq_pos (T s) (snd_una (T s))"
  obtain N where ok0: "\<forall>r. ep_ok (written l r) (written l (\<not> r)) (N r) (T r)" and got: "got l (\<not> s) = take ?u (written l s)" by (rule sending_got [OF sd])
  note ok = ok0 [rule_format] and E = ep_okD [OF ok0 [rule_format]]
  obtain q where hop: "hop (rcv_nxt ?a) (src_port ?a) (dst_port ?a) (set (sent (h_world (hosts l s)))) ?u q"
    and rest: "hops ?a (h_world (hosts l s)) q (seq_pos ?a (snd_nxt ?a))" and lt: "?u < length (written l s)" by (rule sending_hop [OF sd more])
  have S: "link_inv l" "host_ok (hosts l r) (T r)" "resting (T r)" "src_port (T r) = dst_port (T (\<not> r))" for r using sd by (simp_all add: sending_def)
  have A: "rcv_nxt ?b = snd_una ?a" "snd_una ?b = rcv_nxt ?a" "snd_una ?b = 1 + of_nat (length (written l (\<not> s)))" using sd unfolding sending_def by blast+
  have nb: "nothing_buffered ?b" by (rule acked_all(3) [OF ok A(3) S(3)])
  have u: "snd_una ?a = 1 + of_nat ?u" using seq_pos_seq [of ?a "snd_una ?a"] E(3) by simp
  from hop obtain d t1 payload where d: "d \<in> set (sent (h_world (hosts l s)))" "is_segment t1 (snd_una ?a) TH_ACK payload d" "length payload = q - ?u"
    "rcv_nxt t1 = rcv_nxt ?a" "src_port t1 = src_port ?a" "dst_port t1 = dst_port ?a" and q: "?u < q" "q \<le> ?u + MSS"
    using u by (auto simp: hop_def)
  define n where "n = q - ?u"
  have n: "0 < n" "n \<le> MSS" "length payload = n" "payload \<noteq> []" "length payload \<le> MSS" "q = ?u + n" using q d(3) by (auto simp: n_def)
  note b = rcv_empty [OF ok S(3)]
  obtain h1 b1 where h1: "host_step (envs (\<not> s)) (Received (d\<lparr>dg_ip := dst_ip ?b\<rparr>)) (hosts l (\<not> s)) h1" "host_ok h1 b1" "took_in n ?b b1"
    by (rule deliver_data [OF env S(2,3) nb b(3,2), of t1 payload d "\<not> s"]) (use d A n S(4) [of s] S(4) [of "\<not> s"] in simp_all)
  have calm: "calm ?b" using S(3) by (simp add: resting_def)
  obtain bytes tbl w b2 t2 d2 where rd: "utcp_read (envs (\<not> s)) (h_table h1) 0 len (h_world h1) = Inr (Done (bytes, tbl, w))" "bytes \<noteq> []"
    and b2: "host_ok (h1\<lparr>h_table := tbl, h_world := w\<rparr>) b2" and d2: "d2 \<in> set (sent w)" "is_segment t2 (snd_nxt b1) TH_ACK [] d2"
      "rcv_nxt t2 = rcv_nxt ?b + of_nat n" "src_port t2 = src_port ?b" "dst_port t2 = dst_port ?b" "rcv_scale t2 = 5" "\<not> unread t2"
    and B: "resting b2" "same_sender ?b b2" "rcv_nxt b2 = rcv_nxt ?b + of_nat n"
    by (rule host_reads [OF env h1(2,3) nb calm n(1,2) order_trans [OF n(2) len]])
  have next_ack: "rcv_nxt ?b + of_nat n = 1 + of_nat q" using A(1) u n(6) by simp
  obtain h2 a2 where h2: "host_step (envs s) (Received (d2\<lparr>dg_ip := dst_ip ?a\<rparr>)) (hosts l s) h2" "host_ok h2 a2"
    and A2: "resting a2" "airborne a2 (h_world h2)" "output_data_length a2 = 0" "snd_una a2 = 1 + of_nat q" "rcv_nxt a2 = rcv_nxt ?a"
      "src_port a2 = src_port ?a" "dst_port a2 = dst_port ?a"
    by (rule deliver_ack [OF env S(2,3) E(10,1) q(1) rest, of t2 "snd_nxt b1" d2 s]) (use d2 next_ack S(4) [of s] S(4) [of "\<not> s"] in simp_all)
  let ?l1 = "l\<lparr>hosts := (hosts l)(\<not> s := h1)\<rparr>"
  let ?l2 = "?l1\<lparr>hosts := (hosts ?l1)(\<not> s := h1\<lparr>h_table := tbl, h_world := w\<rparr>), got := (got ?l1)(\<not> s := got ?l1 (\<not> s) @ bytes)\<rparr>"
  let ?l3 = "?l2\<lparr>hosts := (hosts ?l2)(s := h2)\<rparr>" and ?T = "T(\<not> s := b2, s := a2)"
  have turn: "turn envs s len l bytes ?l3"
    by (rule turn.turn [where envs = envs and s = s and d' = "d2\<lparr>dg_ip := dst_ip ?a\<rparr>", OF h1(1) _ refl rd(1) refl _ _ refl]) (use h2(1) d(1) d2(1) in \<open>auto simp: deliverable_def\<close>)
  then have "link_inv ?l3" using link_inv_steps [of envs l, OF _ S(1) env] turn_steps by blast
  moreover have "host_ok (hosts ?l3 r) (?T r) \<and> resting (?T r) \<and> src_port (?T r) = dst_port (?T (\<not> r))" for r
    using h2(2) b2 A2 B S(4) [of s] S(4) [of "\<not> s"] by (cases "r = s") (auto simp: same_sender_def)
  ultimately have "sending ?l3 s ?T" using A A2 B next_ack by (simp add: sending_def same_sender_def)
  moreover have "q < 2147483647" using hops_le [OF rest] snd_invD(5,6,8) [OF E(10) [of s]] by simp
  then have "unat (snd_una ?a) < unat (snd_una (?T s))" using u q(1) A2(4) unat_of_nat32 [of "Suc ?u"] unat_of_nat32 [of "Suc q"] by simp
  ultimately show thesis using that turn rd(2) got lt by simp
qed

text \<open>Turns in which bytes that are still missing at the other side are read.\<close>

definition progress :: "(bool \<Rightarrow> env) \<Rightarrow> bool \<Rightarrow> nat \<Rightarrow> link \<Rightarrow> link \<Rightarrow> bool" where
  "progress envs s len l l' \<longleftrightarrow> (\<exists>bytes. turn envs s len l bytes l' \<and> bytes \<noteq> [] \<and> length (got l (\<not> s)) < length (written l s))"

lemma progress_steps: "rtranclp (progress envs s len) l l' \<Longrightarrow> rtranclp (link_step envs) l l'"
  by (induction rule: rtranclp_induct) (auto simp: progress_def dest!: turn_steps intro: rtranclp_trans)

lemma sending_drains:
  assumes env: "\<And>r. good_env (envs r)" and len: "MSS \<le> len"
  shows "sending l s T \<Longrightarrow> \<exists>l'. rtranclp (progress envs s len) l l' \<and> link_settled l' \<and> written l' = written l \<and>
    got l' = (got l)(\<not> s := written l s)"
proof (induction "2 ^ 32 - unat (snd_una (T s))" arbitrary: l T rule: less_induct)
  case less
  show ?case
  proof (cases "snd_una (T s) = 1 + of_nat (length (written l s))")
    case True
    from sending_settled [OF less.prems True] show ?thesis by (intro exI [of _ l]) auto
  next
    case False
    obtain bytes l1 T1 where t: "turn envs s len l bytes l1" "bytes \<noteq> []" "length (got l (\<not> s)) < length (written l s)"
      and sd: "sending l1 s T1" and up: "unat (snd_una (T s)) < unat (snd_una (T1 s))"
      by (rule sending_turn [OF less.prems env False len])
    have "2 ^ 32 - unat (snd_una (T1 s)) < 2 ^ 32 - unat (snd_una (T s))" using up unat_lt_pow32 [of "snd_una (T1 s)"] by simp
    from less.hyps [OF this sd] obtain l' where l': "rtranclp (progress envs s len) l1 l'" "link_settled l'" "written l' = written l1"
      "got l' = (got l1)(\<not> s := written l1 s)" by blast
    have "progress envs s len l l1" using t by (auto simp: progress_def)
    then show ?thesis using l' turn_steps [OF t(1)] by (intro exI [of _ l']) (simp add: converse_rtranclp_into_rtranclp)
  qed
qed

text \<open>A write that fits the buffer of a connection at rest.\<close>

lemma settled_write:
  assumes env: "good_env env" and st: "settled xs ys t" and data: "data \<noteq> []" "length data \<le> SEND_BUF_SIZE" "length xs + length data < 2147483647"
  obtains t' w' where "send_loop env data (t, w) = Inr ([], t', w')" and "resting t'" "airborne t' w'" "output_data_length t' = 0"
    "snd_una t' = snd_una t" "rcv_nxt t' = rcv_nxt t" "src_port t' = src_port t" "dst_port t' = dst_port t"
proof -
  have ok: "ep_ok xs ys (length ys) t" and rest: "resting t" and una: "snd_nxt t = snd_una t" "seq_pos t (snd_una t) = length xs" using st by (simp_all add: settled_def)
  note E = ep_okD [OF ok]
  let ?S = "list_stream (xs @ data)" and ?n = "length data"
  have inv: "snd_inv ?S t" using E(4) agrees_appendD [of xs data ?S] by (simp add: snd_ok_def)
  have sub: "sub_stream ?S (snd_written t) ?n = data" using sub_stream_new [of xs data ?S] E(6) by simp
  obtain buf where wr: "ring_buf_write (send_buf t) SEND_BUF_SIZE (send_buf_tail t) data ?n = Inr buf"
    and inv1: "snd_inv ?S (t\<lparr>send_buf := buf, send_buf_tail := send_buf_tail t + of_nat ?n\<rparr>)"
    by (rule snd_inv_write [OF inv, of ?n, unfolded sub]) (use data E(6) una in simp_all)
  let ?t = "t\<lparr>send_buf := buf, send_buf_tail := send_buf_tail t + of_nat ?n\<rparr>"
  have "can_send ?t" "airborne ?t w" using snd_invD(2) [OF inv1] rest una by (simp_all add: can_send_def resting_def calm_def airborne_def)
  from output_airborne [OF env inv1 _ this] E(1) obtain t' w' where out: "call_output env (?t, w) = Inr (t', w')" "same_but_output ?t t'"
    "airborne t' w'" "output_data_length t' = 0" "\<not> has_flag (t_flags t') TF_ACKNOW" by (auto simp: returns_def)
  have "unat (send_buf_head t) = unat (send_buf_tail t)" using snd_invD(3) [OF inv] una E(6) by (simp add: snd_written_def)
  then have "send_buf_head t = send_buf_tail t" by (simp only: word_unat_eq_iff)
  then have "send_loop env data (t, w) = Inr ([], t', w')"
    using wr out(1) data by (subst send_loop.simps) (simp add: Let_def send_loop.simps [of env "[]"])
  moreover have "snd_scale t' = snd_scale t \<and> src_port t' = src_port t \<and> dst_port t' = dst_port t"
    using out(2) unfolding same_but_output_def by (elim ssubst) simp
  ultimately show thesis
    using out same_but_output_simps [OF out(2)] rest by (intro that [of t' w']) (simp_all add: resting_def calm_def ssthresh_floor_def)
qed

lemma link_write:
  assumes st: "link_settled l" and env: "\<And>r. good_env (envs r)" and data: "data \<noteq> []" "length data \<le> SEND_BUF_SIZE" "length (written l s) + length data < 2147483647"
  obtains tbl w T where "utcp_send (envs s) (h_table (hosts l s)) 0 data (h_world (hosts l s)) = Inr ([], tbl, w)"
    and "sending (l\<lparr>hosts := (hosts l)(s := (hosts l s)\<lparr>h_table := tbl, h_world := w\<rparr>), written := (written l)(s := written l s @ data)\<rparr>) s T"
proof -
  from st obtain T where inv: "link_inv l" and T: "\<And>r. host_ok (hosts l r) (T r)" "\<And>r. settled (written l r) (written l (\<not> r)) (T r)"
    "\<And>r. src_port (T r) = dst_port (T (\<not> r))" unfolding link_settled_def by blast
  obtain t w where t: "send_loop (envs s) data (T s, h_world (hosts l s)) = Inr ([], t, w)" "resting t" "airborne t w" "output_data_length t = 0"
    "snd_una t = snd_una (T s)" "rcv_nxt t = rcv_nxt (T s)" "src_port t = src_port (T s)" "dst_port t = dst_port (T s)"
    by (rule settled_write [OF env T(2) data])
  let ?tbl = "Some t # replicate 5 None"
  let ?h = "(hosts l s)\<lparr>h_table := ?tbl, h_world := w\<rparr>"
  let ?l = "l\<lparr>hosts := (hosts l)(s := ?h), written := (written l)(s := written l s @ data)\<rparr>" and ?T = "T(s := t)"
  have ok: "ep_ok (written l r) (written l (\<not> r)) (length (written l (\<not> r))) (T r)" and una: "snd_nxt (T r) = snd_una (T r)"
    "seq_pos (T r) (snd_una (T r)) = length (written l r)" "resting (T r)" for r using T(2) by (simp_all add: settled_def)
  have seqs: "snd_una (T r) = 1 + of_nat (length (written l r))" "rcv_nxt (T r) = 1 + of_nat (length (written l (\<not> r)))" for r
    using seq_pos_seq [of "T r" "snd_una (T r)"] una ep_okD(3,7) [OF ok] by simp_all
  have send: "utcp_send (envs s) (h_table (hosts l s)) 0 data (h_world (hosts l s)) = Inr ([], ?tbl, w)"
    using T(1) [of s] ep_okD(1) [OF ok] t(1) by (simp add: utcp_send_def utcp_get_tcb_in_state_def utcp_get_tcb_def arr_get_def host_ok_def)
  have "link_step envs l ?l" using link_step.app_write [of envs, OF host_step.send [OF send]] data(3) by simp
  then have "link_inv ?l" using link_inv_steps [of envs l, OF _ inv env] by blast
  moreover have "host_ok (hosts ?l r) (?T r) \<and> resting (?T r) \<and> src_port (?T r) = dst_port (?T (\<not> r))" for r
    using T(1) [of r] T(1) [of s] T(3) [of r] t una(3) by (cases "r = s") (auto simp: host_ok_def)
  ultimately have "sending ?l s ?T" using t seqs [of s] seqs [of "\<not> s"] by (simp add: sending_def)
  then show thesis using send that by blast
qed

lemma settled_done:
  assumes "link_settled l"
  shows "got l (\<not> s) = written l s" and "utcp_drain (h_table (hosts l s)) 0 = Inr (Done ())"
proof -
  from assms obtain T where inv: "link_inv l" and T: "\<And>r. host_ok (hosts l r) (T r)" "\<And>r. settled (written l r) (written l (\<not> r)) (T r)"
    unfolding link_settled_def by blast
  obtain N where N0: "\<forall>r. ep_ok (written l r) (written l (\<not> r)) (N r) (T r)" "\<forall>r. got l r = take (N r - rcv_used (T r)) (written l (\<not> r))"
    by (rule link_blocks [OF inv T(1)])
  note N = N0 [rule_format] and E = ep_okD [OF N0(1) [rule_format]]
  have ok: "ep_ok (written l r) (written l (\<not> r)) (length (written l (\<not> r))) (T r)" "resting (T r)" "seq_pos (T r) (snd_una (T r)) = length (written l r)" for r
    using T(2) by (simp_all add: settled_def)
  have "(of_nat (N r) :: u32) = of_nat (length (written l (\<not> r)))" for r using E(7) ep_okD(7) [OF ok(1)] by simp
  then have "N r = length (written l (\<not> r))" for r using edge_unique [of "N r" "length (written l (\<not> r))" "N r"] E(8,9) [of r] by simp
  then show "got l (\<not> s) = written l s" using N(2) [of "\<not> s"] rcv_empty(1) [OF N(1) ok(2)] by simp
  have "unat (send_buf_head (T s)) = unat (send_buf_tail (T s))" using snd_invD(3) [OF E(10) [of s]] ok(3) E(6) [of s] by (simp add: snd_written_def)
  then have "send_buf_head (T s) = send_buf_tail (T s)" by (simp only: word_unat_eq_iff)
  then show "utcp_drain (h_table (hosts l s)) 0 = Inr (Done ())"
    using T(1) [of s] by (simp add: utcp_drain_def utcp_get_tcb_def arr_get_def host_ok_def)
qed

text \<open>A message of one side, from the write to the last acknowledgement.\<close>

lemma message_sent:
  assumes st: "link_settled l" and env: "\<And>r. good_env (envs r)" and data: "data \<noteq> []" "length data \<le> SEND_BUF_SIZE" "length (written l s) + length data < 2147483647"
  obtains l' where "rtranclp (link_step envs) l l'" and "link_settled l'" and "written l' = (written l)(s := written l s @ data)"
proof -
  obtain tbl w T where send: "utcp_send (envs s) (h_table (hosts l s)) 0 data (h_world (hosts l s)) = Inr ([], tbl, w)"
    and sd: "sending (l\<lparr>hosts := (hosts l)(s := (hosts l s)\<lparr>h_table := tbl, h_world := w\<rparr>), written := (written l)(s := written l s @ data)\<rparr>) s T"
    by (rule link_write [OF st env data])
  from sending_drains [where envs = envs, OF env _ sd, of MSS] obtain l' where l': "rtranclp (progress envs s MSS) (l\<lparr>hosts := (hosts l)(s := (hosts l s)\<lparr>h_table := tbl, h_world := w\<rparr>),
      written := (written l)(s := written l s @ data)\<rparr>) l'" "link_settled l'" "written l' = (written l)(s := written l s @ data)" by auto
  have "rtranclp (link_step envs) l l'"
    using converse_rtranclp_into_rtranclp [where r = "link_step envs", OF link_step.app_write [of envs, OF host_step.send [OF send]]] progress_steps [OF l'(1)] data(3) by simp
  then show thesis using that l' by blast
qed

section \<open>The file\<close>

lemma transfer_turns:
  assumes "rtranclp (progress envs False 65536) (net x) l" and "transfer_inv file envs x" and "serving x" and "length file \<le> 1000000000"
  shows "\<exists>y. rtranclp (transfer_step envs) x y \<and> net y = l \<and> client y = client x \<and> serving y \<and> transfer_inv file envs y"
  using assms(1)
proof (induction rule: rtranclp_induct)
  case base
  then show ?case using assms by blast
next
  case (step l1 l2)
  then obtain x1 where x1: "rtranclp (transfer_step envs) x x1" "net x1 = l1" "client x1 = client x" "serving x1" "transfer_inv file envs x1" by blast
  from step(2) obtain bytes where t: "turn envs False 65536 l1 bytes l2" and ne: "bytes \<noteq> []" and lt: "length (got l1 True) < length (written l1 False)"
    by (auto simp: progress_def)
  have "total_received x1 = of_nat (length (got l1 True))" "length (written l1 False) \<le> length file"
    using x1(2,5) by (auto simp: transfer_inv_def)
  then have total: "total_received x1 < TARGET_SIZE" using lt assms(4) by (simp add: word_less_nat_alt unat_of_nat take_bit_nat_eq_self)
  from t show ?case
  proof cases
    case (turn d h1 k1 tbl w k2 d' h2)
    let ?x2 = "x1\<lparr>net := k1\<rparr>"
    let ?x3 = "?x2\<lparr>net := server_got bytes tbl w k1, serving := True, total_received := total_received x1 + of_nat (length bytes), out_file := out_file x1 @ bytes\<rparr>"
    let ?x4 = "?x3\<lparr>net := l2\<rparr>"
    have a: "transfer_step envs x1 ?x2" unfolding turn(3) x1(2) [symmetric] by (rule transfer_step.deliver) (use turn(1,2) x1(2) in simp_all)
    have "server_step (envs True) ?x2 (?x2\<lparr>net := server_got bytes tbl w (net ?x2), serving := (bytes \<noteq> []),
        total_received := total_received ?x2 + of_nat (length bytes), out_file := out_file ?x2 @ bytes\<rparr>)"
      by (rule server_step.read) (use turn(3,4) x1(4) total in simp_all)
    then have b: "transfer_step envs ?x2 ?x3" using ne by (intro transfer_step.server) simp
    have k2: "k2 = server_got bytes tbl w k1" using turn(3,5) by (simp add: server_got_def)
    have "transfer_step envs ?x3 (?x3\<lparr>net := (net ?x3)\<lparr>hosts := (hosts (net ?x3))(False := h2)\<rparr>\<rparr>)"
      by (rule transfer_step.deliver) (use turn(6,7) k2 in simp_all)
    then have c: "transfer_step envs ?x3 ?x4" using turn(8) k2 by simp
    have "transfer_inv file envs ?x4" using x1(5) a b c transfer_inv_step by blast
    moreover have "rtranclp (transfer_step envs) x ?x4" using x1(1) a b c by (meson rtranclp.rtrancl_into_rtrancl)
    ultimately show ?thesis using x1(3) by (intro exI [of _ ?x4]) simp
  qed
qed

lemma transfer_completes:
  assumes env: "\<And>r. good_env (envs r)" and len: "length file \<le> 1000000000"
  shows "transfer_inv file envs x \<Longrightarrow> client x = Reading rest \<Longrightarrow> serving x \<Longrightarrow> link_settled (net x) \<Longrightarrow>
    \<exists>y. rtranclp (transfer_step envs) x y \<and> client y = Finished \<and> out_file y = file"
proof (induction "length rest" arbitrary: x rest rule: less_induct)
  case less
  have inv: "written (net x) False @ rest = file" "length file < 2147483647" "out_file x = got (net x) True" using less.prems by (simp_all add: transfer_inv_def)
  show ?case
  proof (cases "rest = []")
    case True
    let ?x1 = "x\<lparr>client := Draining\<rparr>" and ?x2 = "x\<lparr>client := Finished\<rparr>"
    have "transfer_step envs x ?x1" using client_step.eof [OF less.prems(2), of "[]" "[]"] True by (auto simp: fread_def intro: transfer_step.client)
    moreover have "client_step (envs False) ?x1 (?x1\<lparr>client := Finished\<rparr>)" by (rule client_step.drained) (use settled_done(2) [OF less.prems(4)] in simp_all)
    then have "transfer_step envs ?x1 ?x2" by (intro transfer_step.client) simp
    moreover have "out_file ?x2 = file" using inv True settled_done(1) [OF less.prems(4), of False] by simp
    ultimately show ?thesis by (intro exI [of _ ?x2]) (auto intro: rtranclp.rtrancl_into_rtrancl)
  next
    case False
    define buffer where "buffer = take CHUNK_SIZE rest"
    have b: "buffer \<noteq> []" "length buffer \<le> SEND_BUF_SIZE" "length (written (net x) False) + length buffer < 2147483647"
      using False inv by (auto simp: buffer_def)
    obtain tbl w T where send: "utcp_send (envs False) (h_table (hosts (net x) False)) 0 buffer (h_world (hosts (net x) False)) = Inr ([], tbl, w)"
      and sd: "sending (client_wrote buffer [] tbl w (net x)) False T"
      using link_write [where l = "net x" and s = False and envs = envs, OF less.prems(4) env b] by (auto simp: client_wrote_def)
    let ?x1 = "x\<lparr>net := client_wrote buffer [] tbl w (net x), client := Reading (drop CHUNK_SIZE rest)\<rparr>"
    have "client_step (envs False) x (x\<lparr>net := client_wrote buffer [] tbl w (net x), client := after_send [] (drop CHUNK_SIZE rest)\<rparr>)"
      by (rule client_step.send [OF less.prems(2) _ _ send]) (use b in \<open>simp_all add: fread_def buffer_def\<close>)
    then have s1: "transfer_step envs x ?x1" by (intro transfer_step.client) (simp add: after_send_def)
    have i1: "transfer_inv file envs ?x1" by (rule transfer_inv_step [OF less.prems(1) s1])
    obtain l where l: "rtranclp (progress envs False 65536) (client_wrote buffer [] tbl w (net x)) l" "link_settled l"
      using sending_drains [where envs = envs, OF env _ sd, of 65536] by auto
    obtain y where y: "rtranclp (transfer_step envs) ?x1 y" "net y = l" "client y = Reading (drop CHUNK_SIZE rest)" "serving y" "transfer_inv file envs y"
      using transfer_turns [OF _ i1 _ len, of l] l(1) less.prems(3) by auto
    have "length (drop CHUNK_SIZE rest) < length rest" using False by simp
    from less.hyps [OF this y(5,3,4)] y(2) l(2) obtain z where z: "rtranclp (transfer_step envs) y z" "client z = Finished" "out_file z = file" by auto
    have "rtranclp (transfer_step envs) x z" using converse_rtranclp_into_rtranclp [where r = "transfer_step envs", OF s1] rtranclp_trans [OF y(1) z(1)] by simp
    then show ?thesis using z by blast
  qed
qed

section \<open>Properties\<close>

text \<open>What one side has said in a conversation.\<close>

definition said :: "bool \<Rightarrow> (bool \<times> u8 list) list \<Rightarrow> u8 list" where
  "said s msgs = concat (map snd (filter (\<lambda>m. fst m = s) msgs))"

lemma said_simps [simp]: "said s [] = []" "said s ((r, m) # msgs) = (if r = s then m @ said s msgs else said s msgs)"
  by (simp_all add: said_def)

text \<open>
  C5: Any conversation gets through. On a connection at rest, let the two applications say any messages in any order, each
  of up to the size of the send buffer; there is a run of the two hosts and the network in which all calls return, each message is cut
  into segments as the windows allow, received, read and acknowledged, both drains return, and the connection is at rest again.
\<close>

theorem conversation_gets_through:
  assumes "link_settled l" and "\<And>s. good_env (envs s)" and "\<And>s m. (s, m) \<in> set msgs \<Longrightarrow> m \<noteq> [] \<and> length m \<le> SEND_BUF_SIZE"
    and "\<And>s. length (written l s) + length (said s msgs) < 2147483647"
  shows "\<exists>l'. rtranclp (link_step envs) l l' \<and> link_settled l' \<and> (\<forall>s. written l' s = written l s @ said s msgs \<and> got l' (\<not> s) = written l' s \<and>
    utcp_drain (h_table (hosts l' s)) 0 = Inr (Done ()))"
  using assms(1,3,4)
proof (induction msgs arbitrary: l)
  case Nil
  then show ?case using settled_done [OF Nil(1)] by (intro exI [of _ l]) simp
next
  case (Cons x msgs)
  obtain s m where x: "x = (s, m)" by fastforce
  have m: "m \<noteq> []" "length m \<le> SEND_BUF_SIZE" "length (written l s) + length m < 2147483647"
    using Cons.prems(2) [of s m] Cons.prems(3) [of s] x by auto
  obtain l1 where l1: "rtranclp (link_step envs) l l1" "link_settled l1" "written l1 = (written l)(s := written l s @ m)"
    by (rule message_sent [OF Cons.prems(1) assms(2) m])
  have "length (written l1 r) + length (said r msgs) < 2147483647" for r using Cons.prems(3) [of r] l1(3) x by (auto split: if_splits)
  from Cons.IH [OF l1(2) _ this] Cons.prems(2) obtain l' where "rtranclp (link_step envs) l1 l'" "link_settled l'"
    "\<forall>r. written l' r = written l1 r @ said r msgs \<and> got l' (\<not> r) = written l' r \<and> utcp_drain (h_table (hosts l' r)) 0 = Inr (Done ())" by auto
  then show ?case using l1 x by (intro exI [of _ l']) (auto intro: rtranclp_trans)
qed

text \<open>The example: the two programs connect.\<close>

lemma opened_example: "\<exists>c s. opened (link_of c s)"
proof -
  let ?h = "host_est\<lparr>h_table := replicate 6 None\<rparr>"
  let ?o = "\<lparr>o_zlog = 0, o_category = True, o_package = out0, o_lstm_socket = 4, o_lstm_connect = 0, o_lstm_getfl = 2, o_lstm_setfl = 0\<rparr>"
  have "good_start ?o" "host_start ?h" "sent (h_world ?h) = []" by (simp_all add: good_start_def out0_def host_start_def host_est_def world0_def)
  then show ?thesis using programs_meet [OF good_env0 good_env0] by metis
qed

theorem conversation_gets_through_witness:
  "\<exists>l l'. rtranclp (link_step (\<lambda>_. env0)) l l' \<and> got l' True = [1, 2, 3] @ [6] \<and> got l' False = [4, 5] \<and>
    utcp_drain (h_table (hosts l' False)) 0 = Inr (Done ())"
proof -
  obtain c s where o: "opened (link_of c s)" using opened_example by blast
  have "\<exists>l'. rtranclp (link_step (\<lambda>_. env0)) (link_of c s) l' \<and> link_settled l' \<and> (\<forall>r. written l' r = written (link_of c s) r @
      said r [(False, [1, 2, 3]), (True, [4, 5]), (False, [6])] \<and> got l' (\<not> r) = written l' r \<and> utcp_drain (h_table (hosts l' r)) 0 = Inr (Done ()))"
    by (rule conversation_gets_through [OF _ good_env0]) (use o in \<open>auto simp: opened_def\<close>)
  then obtain l' where l': "rtranclp (link_step (\<lambda>_. env0)) (link_of c s) l'" and r: "\<And>r. got l' (\<not> r) = said r [(False, [1, 2, 3]), (True, [4, 5]), (False, [6])] \<and>
      utcp_drain (h_table (hosts l' r)) 0 = Inr (Done ())" by auto
  from l' r [of False] r [of True] show ?thesis by auto
qed

text \<open>
  C4: The two programs do their job. On fresh hosts and with system calls that succeed, for every file of up to a gigabyte
  there is a run from the start of the two programs in which connect and accept return, the client sends the file in chunks, drains and
  ends, and the server has stored exactly the file.
\<close>

theorem programs_transfer_file:
  assumes "good_env ec" and "good_env es" and "good_start oc" and "good_start os" and "host_start c" and "host_start s"
    and "sent (h_world c) = []" and "sent (h_world s) = []" and len: "length file \<le> 1000000000"
  shows "\<exists>c1 c2 s0 s1 s2 d1 d2 d3 x y. server_open es os s = Inr (0, s0) \<and> client_open ec oc c = Inr (0, c1) \<and> sent (h_world c1) = [d1] \<and>
    host_step es (Received (d1\<lparr>dg_ip := ipc\<rparr>)) s0 s1 \<and> sent (h_world s1) = [d2] \<and>
    host_step ec (Received (d2\<lparr>dg_ip := 0x2852A29B\<rparr>)) c1 c2 \<and> sent (h_world c2) = [d1, d3] \<and>
    host_step es (Received (d3\<lparr>dg_ip := ipc\<rparr>)) s1 s2 \<and>
    utcp_connect_wait (h_table c2) 0 = Inr (Done 0) \<and> utcp_accept (h_table s2) 0 = Inr (Done 0) \<and>
    transfer_start file x \<and> hosts (net x) False = c2 \<and> hosts (net x) True = s2 \<and>
    rtranclp (transfer_step (\<lambda>r. if r then es else ec)) x y \<and> client y = Finished \<and> out_file y = file"
proof -
  let ?envs = "\<lambda>r. if r then es else ec"
  obtain c1 c2 s0 s1 s2 d1 d2 d3 where run: "server_open es os s = Inr (0, s0)" "client_open ec oc c = Inr (0, c1)" "sent (h_world c1) = [d1]"
    "host_step es (Received (d1\<lparr>dg_ip := ipc\<rparr>)) s0 s1" "sent (h_world s1) = [d2]"
    "host_step ec (Received (d2\<lparr>dg_ip := 0x2852A29B\<rparr>)) c1 c2" "sent (h_world c2) = [d1, d3]"
    "host_step es (Received (d3\<lparr>dg_ip := ipc\<rparr>)) s1 s2" and l: "opened (link_of c2 s2)"
    by (rule programs_meet [OF assms(1-8)])
  define x where "x = \<lparr>net = link_of c2 s2, client = Reading file, serving = True, total_received = 0, out_file = []\<rparr>"
  have start: "transfer_start file x" using l len by (simp add: x_def transfer_start_def opened_def client_fopen_def)
  have "transfer_inv file ?envs x" by (rule reachable_transfer_inv [OF transfer.reachable.init [OF start]])
  moreover have "link_settled (net x)" "client x = Reading file" "serving x" using l by (simp_all add: x_def opened_def)
  moreover have "good_env (?envs r)" for r using assms(1,2) by simp
  ultimately obtain y where "rtranclp (transfer_step ?envs) x y" "client y = Finished" "out_file y = file"
    using transfer_completes [OF _ len, of ?envs] by blast
  moreover have "hosts (net x) False = c2" "hosts (net x) True = s2" by (simp_all add: x_def)
  moreover have "utcp_connect_wait (h_table c2) 0 = Inr (Done 0)" "utcp_accept (h_table s2) 0 = Inr (Done 0)" using opened_returns [OF l] by simp_all
  ultimately show ?thesis using run start by blast
qed

theorem programs_transfer_file_witness:
  "\<exists>x y. transfer_start (replicate 100000 7) x \<and> rtranclp (transfer_step (\<lambda>_. env0)) x y \<and> client y = Finished \<and> out_file y = replicate 100000 7"
proof -
  let ?h = "host_est\<lparr>h_table := replicate 6 None\<rparr>"
  let ?o = "\<lparr>o_zlog = 0, o_category = True, o_package = out0, o_lstm_socket = 4, o_lstm_connect = 0, o_lstm_getfl = 2, o_lstm_setfl = 0\<rparr>"
  have h: "good_start ?o" "host_start ?h" "sent (h_world ?h) = []" by (simp_all add: good_start_def out0_def host_start_def host_est_def world0_def)
  have "length (replicate 100000 (7 :: u8)) \<le> 1000000000" by simp
  from programs_transfer_file [OF good_env0 good_env0 h(1,1,2,2,3,3) this, of 1] show ?thesis unfolding if_cancel by blast
qed

end
