(* ===== verification/Printing.thy ===== *)
theory Printing
  imports Logger
begin

text \<open>
  What the code formats as text: the row for the inference server (\<^verbatim>\<open>lstm_client_send_row\<close>), the
  packet and block dumps of \<^verbatim>\<open>src/utcp/utcp_utils.c\<close> and \<^verbatim>\<open>print_safe_chars\<close> of \<^verbatim>\<open>src/utils.c\<close>.
  Both packet dumps run on every datagram, and the row on every congestion event, so their fixed
  buffers matter: the lemmas show that they are never overrun, and that a row can be read back.
\<close>

section \<open>Conversions of \<^verbatim>\<open>printf\<close>\<close>

definition digit :: "nat \<Rightarrow> char" where
  "digit n = char_of (48 + n)"

fun decimal :: "nat \<Rightarrow> string" where
  "decimal n = (if n < 10 then [digit n] else decimal (n div 10) @ [digit (n mod 10)])"

declare decimal.simps [simp del]

definition signed_decimal :: "int \<Rightarrow> string" where
  "signed_decimal i = (if i < 0 then CHR ''-'' # decimal (nat (- i)) else decimal (nat i))"

text \<open>Reading back: the value of a digit string, with an optional sign.\<close>

definition digit_value :: "char \<Rightarrow> nat" where
  "digit_value c = of_char c - 48"

definition read_decimal :: "string \<Rightarrow> nat" where
  "read_decimal s = foldl (\<lambda>n c. 10 * n + digit_value c) 0 s"

definition read_signed :: "string \<Rightarrow> int" where
  "read_signed s = (case s of [] \<Rightarrow> 0 | c # cs \<Rightarrow> if c = CHR ''-'' then - int (read_decimal cs) else int (read_decimal s))"

lemma digit_value_digit [simp]: "n < 10 \<Longrightarrow> digit_value (digit n) = n"
  by (simp add: digit_value_def digit_def)

lemma read_decimal_snoc: "read_decimal (s @ [c]) = 10 * read_decimal s + digit_value c"
  by (simp add: read_decimal_def)

lemma read_decimal_decimal [simp]: "read_decimal (decimal n) = n"
proof (induction n rule: decimal.induct)
  case (1 n)
  show ?case
  proof (cases "n < 10")
    case True
    then show ?thesis by (simp add: decimal.simps [of n]) (simp add: read_decimal_def)
  next
    case False
    then show ?thesis using 1 by (simp add: decimal.simps [of n] read_decimal_snoc)
  qed
qed

lemma length_decimal: "n < 10 ^ Suc k \<Longrightarrow> length (decimal n) \<le> Suc k"
proof (induction k arbitrary: n)
  case (Suc k)
  show ?case
  proof (cases "n < 10")
    case False
    have "n div 10 < 10 ^ Suc k" using Suc.prems by (simp add: less_mult_imp_div_less mult.commute)
    from Suc.IH [OF this] show ?thesis using False by (simp add: decimal.simps [of n])
  qed (simp add: decimal.simps [of n])
qed (simp add: decimal.simps)

lemma digit_range: "n < 10 \<Longrightarrow> of_char (digit n) = 48 + n"
  by (simp add: digit_def)

lemma decimal_digits: "c \<in> set (decimal n) \<Longrightarrow> 48 \<le> (of_char c :: nat) \<and> (of_char c :: nat) \<le> 57"
proof (induction n rule: decimal.induct)
  case (1 n)
  then show ?case
    by (cases "n < 10") (auto simp: decimal.simps [of n] digit_range)
qed

lemma decimal_no_char:
  assumes "(of_char c :: nat) < 48 \<or> 57 < (of_char c :: nat)"
  shows "c \<notin> set (decimal n)"
  using decimal_digits [of c n] assms by auto

lemma decimal_not_Nil [simp]: "decimal n \<noteq> []"
  by (subst decimal.simps) simp

lemma signed_decimal_no_char:
  assumes "(of_char c :: nat) < 45 \<or> 57 < (of_char c :: nat)"
  shows "c \<notin> set (signed_decimal i)"
  using assms decimal_no_char [of c] by (auto simp: signed_decimal_def)

lemma read_signed_decimal [simp]: "read_signed (signed_decimal i) = i"
proof (cases "i < 0")
  case False
  obtain c cs where d: "decimal (nat i) = c # cs" by (metis decimal_not_Nil neq_Nil_conv)
  then have "c \<noteq> CHR ''-''" using decimal_no_char [of "CHR ''-''" "nat i"] by auto
  then have "read_signed (decimal (nat i)) = int (read_decimal (decimal (nat i)))" by (simp add: read_signed_def d)
  then show ?thesis using False by (simp add: signed_decimal_def)
qed (simp add: signed_decimal_def read_signed_def)

lemma length_signed_decimal: "\<bar>i\<bar> < 10 ^ Suc k \<Longrightarrow> length (signed_decimal i) \<le> Suc (Suc k)"
  using length_decimal [of "nat \<bar>i\<bar>" k]
  by (auto simp: signed_decimal_def nat_less_iff)

section \<open>\<^verbatim>\<open>snprintf\<close>\<close>

text \<open>
  \<^verbatim>\<open>snprintf\<close> into an array at an offset: at most \<open>cap - 1\<close> characters and a terminator are
  stored; the result is the length the whole text has.
\<close>

definition snprintf :: "char list \<Rightarrow> nat \<Rightarrow> nat \<Rightarrow> string \<Rightarrow> (char list \<times> nat) res" where
  "snprintf buf off cap text =
     (if cap = 0 then Inr (buf, length text)
      else rbind (mem_write buf off (take (cap - 1) text @ [CHR 0x00])) (\<lambda>buf. Inr (buf, length text)))"

definition c_string :: "char list \<Rightarrow> string" where
  "c_string buf = takeWhile (\<lambda>c. c \<noteq> CHR 0x00) buf"

section \<open>The row for the inference server\<close>

fun commas :: "string list \<Rightarrow> string" where
  "commas [] = []"
| "commas [x] = x"
| "commas (x # y # xs) = x @ CHR '','' # commas (y # xs)"

fun split_commas :: "string \<Rightarrow> string list" where
  "split_commas [] = [[]]"
| "split_commas (c # cs) =
     (if c = CHR '','' then [] # split_commas cs
      else case split_commas cs of [] \<Rightarrow> [[c]] | f # fs \<Rightarrow> (c # f) # fs)"

fun ca_number :: "tcp_ca_state \<Rightarrow> nat" where
  "ca_number TCP_CA_OPEN = 0"
| "ca_number TCP_CA_DISORDER = 1"
| "ca_number TCP_CA_CWR = 2"
| "ca_number TCP_CA_RECOVERY = 3"
| "ca_number TCP_CA_LOSS = 4"

text \<open>The arguments of the format, in its order, with the sign its conversions give them.\<close>

definition row_values :: "lstm_row \<Rightarrow> int list" where
  "row_values r =
     [uint (row_ts_us r), uint (row_rtt_us r), uint (row_srtt_us r), uint (row_rttvar_us r), uint (row_rto_us r), uint (row_min_rtt_us r),
      sint (row_queue_delay_us r), sint (row_rtt_delta_us r), sint (row_rtt_accel_us r), sint (row_rto_delta_us r),
      uint (row_cwnd r), uint (row_ssthresh r), uint (row_snd_wnd r), uint (row_flight_size r), uint (row_newly_acked r),
      uint (row_inter_ack_us r), int (ca_number (row_ca_state r)), uint (row_t_dupacks r), uint (row_t_rxtshift r),
      of_bool (row_is_dup_ack r), of_bool (row_is_timeout r)]"

definition row_text :: "lstm_row \<Rightarrow> string" where
  "row_text r = commas (map signed_decimal (row_values r)) @ [CHR 0x0A]"

text \<open>The bytes handed to \<^verbatim>\<open>send\<close>: as many as \<^verbatim>\<open>snprintf\<close> reports, from the 512-byte array.\<close>

definition row_bytes :: "char list \<Rightarrow> lstm_row \<Rightarrow> string res" where
  "row_bytes buf r =
     rbind (snprintf buf 0 512 (row_text r)) (\<lambda>(buf, len).
     mem_read buf 0 len)"

definition read_row :: "string \<Rightarrow> int list" where
  "read_row text = map read_signed (split_commas (butlast text))"

lemma split_commas_not_Nil [simp]: "split_commas s \<noteq> []"
  by (induction s) (auto split: list.splits)

lemma split_commas_app:
  "CHR '','' \<notin> set x \<Longrightarrow> split_commas (x @ CHR '','' # s) = x # split_commas s"
  "CHR '','' \<notin> set x \<Longrightarrow> split_commas x = [x]"
  by (induction x) auto

lemma split_commas_commas: "xs \<noteq> [] \<Longrightarrow> \<forall>x \<in> set xs. CHR '','' \<notin> set x \<Longrightarrow> split_commas (commas xs) = xs"
  by (induction xs rule: commas.induct) (simp_all add: split_commas_app)

lemma length_commas: "xs \<noteq> [] \<Longrightarrow> Suc (length (commas xs)) = (\<Sum>x \<leftarrow> xs. Suc (length x))"
  by (induction xs rule: commas.induct) simp_all

lemma read_row_text: "read_row (row_text r) = row_values r"
proof -
  have "split_commas (commas (map signed_decimal (row_values r))) = map signed_decimal (row_values r)"
    by (rule split_commas_commas) (auto simp: row_values_def signed_decimal_no_char)
  then show ?thesis by (simp add: read_row_def row_text_def comp_def)
qed

text \<open>Every field has a bounded length, and so has the row.\<close>

lemma length_field_words:
  "length (signed_decimal (uint (a :: u64))) \<le> 21" "length (signed_decimal (sint (a :: u64))) \<le> 21"
  "length (signed_decimal (uint (b :: u32))) \<le> 11" "length (signed_decimal (sint (b :: u32))) \<le> 11"
  "length (signed_decimal (uint (c :: u8))) \<le> 4" "length (signed_decimal (of_bool d)) \<le> 2"
  "length (signed_decimal (int (ca_number e))) \<le> 2"
proof -
  have l: "\<bar>i\<bar> < 10 ^ Suc k \<Longrightarrow> n = Suc (Suc k) \<Longrightarrow> length (signed_decimal i) \<le> n" for i k n
    using length_signed_decimal by blast
  have a: "uint a < 2 ^ 64" "- (2 ^ 63) \<le> sint a" "sint a < 2 ^ 63"
    using uint_bounded [of a] sint_ge [of a] sint_lt [of a] by simp_all
  then show "length (signed_decimal (uint a)) \<le> 21" "length (signed_decimal (sint a)) \<le> 21"
    by (intro l [of _ 19]; simp)+
  have b: "uint b < 2 ^ 32" "- (2 ^ 31) \<le> sint b" "sint b < 2 ^ 31"
    using uint_bounded [of b] sint_ge [of b] sint_lt [of b] by simp_all
  then show "length (signed_decimal (uint b)) \<le> 11" "length (signed_decimal (sint b)) \<le> 11"
    by (intro l [of _ 9]; simp)+
  have "uint c < 2 ^ 8" using uint_bounded [of c] by simp
  then show "length (signed_decimal (uint c)) \<le> 4" by (intro l [of _ 2]; simp)
  show "length (signed_decimal (of_bool d)) \<le> 2" by (intro l [of _ 0]; simp)
  show "length (signed_decimal (int (ca_number e))) \<le> 2" by (intro l [of _ 0]; cases e; simp)
qed

lemma length_row_text: "length (row_text r) < 512"
proof -
  have "length (row_text r) = (\<Sum>x \<leftarrow> map signed_decimal (row_values r). Suc (length x))"
    using length_commas [of "map signed_decimal (row_values r)"] by (simp add: row_text_def row_values_def)
  then show ?thesis
    using length_field_words(1) [of "row_ts_us r"] length_field_words(3) [of "row_rtt_us r"] length_field_words(3) [of "row_srtt_us r"]
      length_field_words(3) [of "row_rttvar_us r"] length_field_words(3) [of "row_rto_us r"] length_field_words(1) [of "row_min_rtt_us r"]
      length_field_words(2) [of "row_queue_delay_us r"] length_field_words(4) [of "row_rtt_delta_us r"]
      length_field_words(4) [of "row_rtt_accel_us r"] length_field_words(4) [of "row_rto_delta_us r"]
      length_field_words(3) [of "row_cwnd r"] length_field_words(3) [of "row_ssthresh r"] length_field_words(3) [of "row_snd_wnd r"]
      length_field_words(3) [of "row_flight_size r"] length_field_words(3) [of "row_newly_acked r"] length_field_words(1) [of "row_inter_ack_us r"]
      length_field_words(5) [of "row_t_dupacks r"] length_field_words(5) [of "row_t_rxtshift r"] length_field_words(6) [of "row_is_dup_ack r"]
      length_field_words(6) [of "row_is_timeout r"] length_field_words(7) [of "row_ca_state r"]
    by (simp add: row_values_def)
qed

text \<open>The values of the row of an event.\<close>

lemma queue_delay_value:
  fixes rtt :: u32 and m :: u64
  shows "sint (if rtt > 0 \<and> m > 0 \<and> ucast rtt > m then ucast rtt - m else 0 :: u64) = (if 0 < uint m then max 0 (uint rtt - uint m) else 0)"
proof -
  have r: "uint (ucast rtt :: u64) = uint rtt" "uint rtt < 2 ^ 32" using unsigned_less [of rtt, where 'a = int] by (simp_all add: unsigned_ucast_eq take_bit_int_eq_self)
  have "sint (ucast rtt - m) = uint rtt - uint m" if "m < ucast rtt"
  proof -
    have lt: "uint m < uint rtt" using that r(1) by (simp add: word_less_def)
    then have "uint (ucast rtt - m) = uint rtt - uint m" using that r(1) by (simp add: uint_sub_lem [THEN iffD1] word_le_def)
    moreover have "signed_take_bit 63 (uint rtt - uint m) = uint rtt - uint m"
    proof (rule signed_take_bit_int_eq_self)
      show "- (2 ^ 63) \<le> uint rtt - uint m" using lt by simp
      have "uint rtt - uint m < 2 ^ 32" using r(2) uint_nonnegative [of m] by linarith
      then show "uint rtt - uint m < 2 ^ 63" by simp
    qed
    then have "sint (ucast rtt - m) = uint (ucast rtt - m)" using calculation by (simp add: sint_uint)
    ultimately show ?thesis by simp
  qed
  moreover have "m < ucast rtt \<longleftrightarrow> uint m < uint rtt" using r(1) by (simp add: word_less_def)
  moreover have "0 < m \<longleftrightarrow> 0 < uint m" "0 < rtt \<longleftrightarrow> 0 < uint rtt" by (simp_all add: word_less_def)
  ultimately show ?thesis by auto
qed

lemma event_values:
  "row_values (lstm_features t now rtt acked dup to) =
      [uint now, uint rtt, uint (drop_bit 3 (t_srtt t) * 10000), uint (drop_bit 2 (t_rttvar t) * 10000), uint (t_rxtcur t * 10000),
       uint (min_rtt_seen_us t), (if 0 < uint (min_rtt_seen_us t) then max 0 (uint rtt - uint (min_rtt_seen_us t)) else 0),
       sint (rtt_delta t rtt), sint (rtt_delta t rtt - lstm_prev_rtt_delta_us t), sint (t_rxtcur t * 10000 - lstm_prev_rto_us t),
       uint (cwnd t), min 1050000 (uint (ssthresh t)), uint (snd_wnd t), uint (snd_nxt t - snd_una t), uint acked,
       uint (if lstm_last_ts_us t > 0 then now - lstm_last_ts_us t else 0),
       int (ca_number (ca_state t)), uint (t_dupacks t), uint (t_rxtshift t), of_bool dup, of_bool to]"
proof -
  have "uint (if ssthresh t > SSTHRESH_CAP then SSTHRESH_CAP else ssthresh t) = min 1050000 (uint (ssthresh t))"
    by (auto simp: SSTHRESH_CAP_def word_less_def)
  then show ?thesis
    by (simp only: row_values_def lstm_features_def lstm_row.simps queue_delay_value rto_in_us_def) (simp add: mult.commute)
qed

section \<open>Packets\<close>

definition isprint :: "u8 \<Rightarrow> bool" where
  "isprint b \<longleftrightarrow> 32 \<le> b \<and> b \<le> 126"

definition safe_char :: "u8 \<Rightarrow> char" where
  "safe_char b = (if isprint b then char_of (unat b) else CHR ''.'')"

text \<open>The loop that fills the preview, from \<open>i\<close> up to \<open>n\<close>.\<close>

function fill_preview :: "u8 list \<Rightarrow> nat \<Rightarrow> nat \<Rightarrow> char list \<Rightarrow> char list res" where
  "fill_preview payload i n buf =
     (if i < n
      then rbind (arr_get payload i) (\<lambda>b.
           rbind (mem_write buf i [safe_char b]) (fill_preview payload (Suc i) n))
      else Inr buf)"
  by pat_completeness auto
termination
  by (relation "measure (\<lambda>(payload, i, n, buf). n - i)") auto

declare fill_preview.simps [simp del]

definition payload_preview :: "u8 list \<Rightarrow> char list res" where
  "payload_preview payload =
     (let payload_buf = replicate 128 (CHR 0x00) in
      if length payload > 0
      then let display_len = (if length payload > 64 then 64 else length payload)
           in rbind (fill_preview payload 0 display_len payload_buf) (\<lambda>buf.
              if length payload > 64
              then rbind (snprintf buf display_len (128 - display_len) '' [... truncated ...]'') (\<lambda>(buf, _). Inr buf)
              else mem_write buf display_len [CHR 0x00])
      else Inr payload_buf)"

abbreviation nl :: string where "nl \<equiv> [CHR 0x0A]"

definition flag_names :: "u8 \<Rightarrow> string" where
  "flag_names f =
     (if has_flag f TH_SYN then ''SYN '' else []) @ (if has_flag f TH_ACK then ''ACK '' else []) @
     (if has_flag f TH_FIN then ''FIN '' else []) @ (if has_flag f TH_RST then ''RST '' else []) @
     (if has_flag f TH_PUSH then ''PSH '' else []) @ (if has_flag f TH_URG then ''URG '' else [])"

text \<open>The fields of the header are in host order here, whichever order the argument had in memory.\<close>

definition debug_print_tcp_packet :: "tcphdr option \<Rightarrow> bool \<Rightarrow> u8 list \<Rightarrow> string option res" where
  "debug_print_tcp_packet hdr net_ordered payload =
     (case hdr of
        None \<Rightarrow> Inr None
      | Some hdr \<Rightarrow>
          rbind (payload_preview payload) (\<lambda>payload_buf.
          Inr (Some (nl @ (if net_ordered then ''>>> [OUTGOING PACKET]'' else ''<<< [INCOMING PACKET]'') @ nl @
            ''  Source Port      : '' @ decimal (unat (th_sport hdr)) @ nl @
            ''  Destination Port : '' @ decimal (unat (th_dport hdr)) @ nl @
            ''  Sequence Number  : '' @ decimal (unat (th_seq hdr)) @ nl @
            ''  Ack Number       : '' @ decimal (unat (th_ack hdr)) @ nl @
            ''  Flags            : [ '' @ flag_names (th_flags hdr) @ '' ]'' @ nl @
            ''  Window           : '' @ decimal (unat (th_win hdr)) @ nl @
            (if length payload > 0
             then ''  Payload Length   : '' @ decimal (length payload) @ '' bytes'' @ nl @
                  ''  Payload Data     : '' @ c_string payload_buf @ nl
             else []) @
            ''----------------------------------------''))))"

text \<open>
  \<^verbatim>\<open>isprint\<close> takes an \<^verbatim>\<open>int\<close> that must be the value of an unsigned character or \<^verbatim>\<open>EOF\<close>;
  \<^verbatim>\<open>print_safe_chars\<close> passes a \<^verbatim>\<open>char\<close>, which is negative for a byte above 127, and is \<^verbatim>\<open>EOF\<close>
  for the byte 255 only.
\<close>

fun print_safe_chars :: "u8 list \<Rightarrow> string res" where
  "print_safe_chars [] = Inr nl"
| "print_safe_chars (b # bs) =
     (if 127 < b \<and> b \<noteq> 255 then Inl Out_of_bounds
      else rbind (print_safe_chars bs) (\<lambda>s. Inr (safe_char b # s)))"

section \<open>Blocks\<close>

fun state_number :: "tcp_state \<Rightarrow> nat" where
  "state_number TCP_CLOSED = 0"
| "state_number TCP_LISTEN = 1"
| "state_number TCP_SYN_SENT = 2"
| "state_number TCP_SYN_RECV = 3"
| "state_number TCP_ESTABLISHED = 4"
| "state_number TCP_CLOSE_WAIT = 5"
| "state_number TCP_FIN_WAIT1 = 6"
| "state_number TCP_CLOSING = 7"
| "state_number TCP_LAST_ACK = 8"
| "state_number TCP_FIN_WAIT2 = 9"
| "state_number TCP_TIME_WAIT = 10"

definition inet_ntoa :: "u32 \<Rightarrow> string" where
  "inet_ntoa ip =
     decimal (unat (drop_bit 24 ip)) @ ''.'' @ decimal (unat (drop_bit 16 ip AND 255)) @ ''.'' @
     decimal (unat (drop_bit 8 ip AND 255)) @ ''.'' @ decimal (unat (ip AND 255))"

text \<open>
  \<^verbatim>\<open>inet_ntoa\<close> returns its one static buffer: when both addresses are converted, both arguments show the
  conversion that ran last. Which one that is, the language leaves open.
\<close>

definition dump_tcb :: "bool \<Rightarrow> tcb option list \<Rightarrow> int \<Rightarrow> string res" where
  "dump_tcb dst_last utcp_fd_table fd =
     (if fd < 0 \<or> fd \<ge> MAX_UTCP_SOCKETS then Inr (''dump_tcb: invalid fd '' @ signed_decimal fd)
      else rbind (arr_get utcp_fd_table (nat fd)) (\<lambda>slot.
        case slot of
          None \<Rightarrow> Inr (''dump_tcb: fd '' @ signed_decimal fd @ '' not in use'')
        | Some tcb \<Rightarrow>
            let static_buf = inet_ntoa (if dst_ip tcb \<noteq> 0 \<and> dst_last then dst_ip tcb else src_ip tcb)
            in Inr (nl @ ''==== UTCP TCB fd='' @ signed_decimal fd @ '' ===='' @ nl @
              ''state      : '' @ decimal (state_number (state tcb)) @ nl @
              ''src_ip     : '' @ static_buf @ nl @
              ''src_port   : '' @ decimal (unat (src_port tcb)) @ nl @
              ''dst_ip     : '' @ (if dst_ip tcb \<noteq> 0 then static_buf else ''(unset)'') @ nl @
              ''dst_port   : '' @ decimal (unat (dst_port tcb)) @ nl @
              ''snd_una    : '' @ decimal (unat (snd_una tcb)) @ nl @
              ''snd_nxt    : '' @ decimal (unat (snd_nxt tcb)) @ nl @
              ''rcv_nxt    : '' @ decimal (unat (rcv_nxt tcb)) @ nl @
              ''========================'')))"

section \<open>The preview stays inside its buffer\<close>

lemma fill_preview_eq:
  assumes "i \<le> n" and "n \<le> length payload" and "n \<le> length buf"
  shows "fill_preview payload i n buf = Inr (take i buf @ map safe_char (take (n - i) (drop i payload)) @ drop n buf)"
  using assms
proof (induction payload i n buf rule: fill_preview.induct)
  case (1 payload i n buf)
  show ?case
  proof (cases "i < n")
    case True
    define buf' where "buf' = take i buf @ [safe_char (payload ! i)] @ drop (Suc i) buf"
    have b: "arr_get payload i = Inr (payload ! i)" "mem_write buf i [safe_char (payload ! i)] = Inr buf'" "length buf' = length buf"
      using True 1(3,4) by (simp_all add: arr_get_def buf'_def)
    have "take (Suc i) buf' = take i buf @ [safe_char (payload ! i)]" "drop n buf' = drop n buf"
      using True 1(4) by (simp_all add: buf'_def drop_Cons')
    moreover have "map safe_char (take (n - i) (drop i payload)) = safe_char (payload ! i) # map safe_char (take (n - Suc i) (drop (Suc i) payload))"
      using True 1(3) by (simp add: take_Cons' Suc_diff_Suc flip: Cons_nth_drop_Suc)
    ultimately show ?thesis
      using 1(1) [OF True b(1,2)] True 1(3,4) b by (simp add: fill_preview.simps [of payload i])
  next
    case False
    then show ?thesis using 1(2) by (subst fill_preview.simps) simp
  qed
qed

lemma safe_char_not_null: "safe_char b \<noteq> CHR 0x00"
proof (cases "isprint b")
  case True
  have "unat b < 2 ^ LENGTH(8)" by (rule unsigned_less)
  then have "of_char (char_of (unat b) :: char) = unat b" by simp
  moreover have "unat b \<noteq> 0" using True by (auto simp: isprint_def word_le_nat_alt)
  moreover have "(of_char (CHR 0x00) :: nat) = 0" by simp
  ultimately have "(char_of (unat b) :: char) \<noteq> CHR 0x00" by metis
  then show ?thesis using True by (simp add: safe_char_def)
qed (simp add: safe_char_def)

lemma takeWhile_null: "\<forall>c \<in> set xs. c \<noteq> CHR 0x00 \<Longrightarrow> c_string (xs @ CHR 0x00 # ys) = xs"
  by (simp add: c_string_def takeWhile_append2)

section \<open>Properties\<close>

text \<open>
  C38: What the inference server reads. Whatever the values, the row fits its 512-byte buffer, so that the \<^verbatim>\<open>send\<close> that follows,
  with the length \<^verbatim>\<open>snprintf\<close> reports, stays inside it and sends the whole row. Split at its commas it is
  the twenty-one arguments of \<^verbatim>\<open>lstm_client_send_row\<close> in their order, listed here by name. For the row of an event this
  gives the block's fields, each at the place that the comments in \<^verbatim>\<open>logger.c\<close> assign to it: time, sample, estimator and
  timeout in microseconds, the delay above the minimum, the differences to the previous event,
  congestion window, threshold cut at 1050000, peer window, flight, acknowledged bytes, the time since the last event,
  and the counters.
\<close>

theorem row_roundtrip:
  assumes "length buf = 512"
  shows "returns (row_bytes buf r) (\<lambda>text. length text < 512 \<and> read_row text =
      [uint (row_ts_us r), uint (row_rtt_us r), uint (row_srtt_us r), uint (row_rttvar_us r), uint (row_rto_us r),
       uint (row_min_rtt_us r), sint (row_queue_delay_us r), sint (row_rtt_delta_us r), sint (row_rtt_accel_us r),
       sint (row_rto_delta_us r), uint (row_cwnd r), uint (row_ssthresh r), uint (row_snd_wnd r), uint (row_flight_size r),
       uint (row_newly_acked r), uint (row_inter_ack_us r), int (ca_number (row_ca_state r)), uint (row_t_dupacks r),
       uint (row_t_rxtshift r), of_bool (row_is_dup_ack r), of_bool (row_is_timeout r)]) \<and>
    returns (row_bytes buf (lstm_features t now rtt acked dup to)) (\<lambda>text. read_row text =
      [uint now, uint rtt, uint (drop_bit 3 (t_srtt t) * 10000), uint (drop_bit 2 (t_rttvar t) * 10000), uint (t_rxtcur t * 10000),
       uint (min_rtt_seen_us t), (if 0 < uint (min_rtt_seen_us t) then max 0 (uint rtt - uint (min_rtt_seen_us t)) else 0),
       sint (rtt_delta t rtt), sint (rtt_delta t rtt - lstm_prev_rtt_delta_us t), sint (t_rxtcur t * 10000 - lstm_prev_rto_us t),
       uint (cwnd t), min 1050000 (uint (ssthresh t)), uint (snd_wnd t), uint (snd_nxt t - snd_una t), uint acked,
       uint (if lstm_last_ts_us t > 0 then now - lstm_last_ts_us t else 0),
       int (ca_number (ca_state t)), uint (t_dupacks t), uint (t_rxtshift t), of_bool dup, of_bool to])"
proof -
  have run: "returns (row_bytes buf r) (\<lambda>text. length text < 512 \<and> read_row text = row_values r)" for r
    using length_row_text [of r] assms read_row_text [of r] by (simp add: row_bytes_def snprintf_def)
  have "returns (row_bytes buf (lstm_features t now rtt acked dup to)) (\<lambda>text. read_row text = row_values (lstm_features t now rtt acked dup to))"
    by (rule returns_mono [OF run]) simp
  then show ?thesis
    using run [of r] unfolding event_values by (simp add: row_values_def)
qed

theorem row_roundtrip_witness:
  "returns (row_bytes (replicate 512 (CHR ''x'')) (lstm_features (calloc_tcb utcp_reno\<lparr>cwnd := 4200, ssthresh := 0xFFFFFFFF\<rparr>) 5 7 0 False True))
    (\<lambda>text. read_row text = [5, 7, 0, 0, 0, 0, 0, 0, 0, 0, 4200, 1050000, 0, 0, 0, 0, 0, 0, 0, 0, 1])"
  using row_roundtrip [of "replicate 512 (CHR ''x'')" undefined "calloc_tcb utcp_reno\<lparr>cwnd := 4200, ssthresh := 0xFFFFFFFF\<rparr>" 5 7 0 False True]
  by (auto simp: calloc_tcb_def rtt_delta_def elim!: returns_mono)

text \<open>
  C39: The packet dump, which runs on every datagram sent or received, never writes outside its 128-byte preview and prints
  exactly the first 64 bytes of the payload, with a dot for each unprintable one and a note when more follow.
\<close>

theorem packet_dump_preview:
  "returns (payload_preview payload) (\<lambda>buf. length buf = 128 \<and>
     c_string buf = map safe_char (take 64 payload) @ (if length payload > 64 then '' [... truncated ...]'' else []))"
proof (cases "payload = []")
  case False
  define n where "n = min 64 (length payload)"
  have fill: "fill_preview payload 0 n (replicate 128 (CHR 0x00)) = Inr (map safe_char (take n payload) @ replicate (128 - n) (CHR 0x00))"
    by (subst fill_preview_eq) (simp_all add: n_def)
  have null: "\<forall>c \<in> set (map safe_char (take k payload)). c \<noteq> CHR 0x00" for k using safe_char_not_null by auto
  show ?thesis
  proof (cases "length payload > 64")
    case True
    then have "n = 64" by (simp add: n_def)
    let ?msg = "'' [... truncated ...]''"
    have "payload_preview payload = Inr (map safe_char (take 64 payload) @ ?msg @ [CHR 0x00] @ replicate 43 (CHR 0x00))"
      using True False fill \<open>n = 64\<close> by (simp add: payload_preview_def snprintf_def Let_def)
    moreover have "c_string ((map safe_char (take 64 payload) @ ?msg) @ CHR 0x00 # replicate 43 (CHR 0x00)) = map safe_char (take 64 payload) @ ?msg"
      by (rule takeWhile_null) (use null [of 64] in auto)
    ultimately show ?thesis using True by simp
  next
    case short: False
    then have "n = length payload" by (simp add: n_def)
    have "payload_preview payload = Inr (map safe_char payload @ CHR 0x00 # replicate (127 - length payload) (CHR 0x00))"
      using short False fill \<open>n = length payload\<close> by (simp add: payload_preview_def Let_def)
    moreover have "c_string (map safe_char payload @ CHR 0x00 # replicate (127 - length payload) (CHR 0x00)) = map safe_char payload"
      by (rule takeWhile_null) (use null [of "length payload"] in auto)
    ultimately show ?thesis using short by simp
  qed
qed (simp add: payload_preview_def c_string_def)

end
