(* ===== verification/Spec2Isabelle.thy ===== *)
theory Spec2Isabelle
  imports Timing Wakeups Exchange Printing
begin

text \<open>
  \<^bold>\<open>UTCP: a user-space TCP over UDP.\<close>

  The program is a library with the interface of Berkeley sockets (\<^verbatim>\<open>src/utcp/api.c\<close>) that runs TCP
  in user space and uses UDP datagrams as its network layer. A process has a table of at most six
  transmission control blocks, a listening thread (\<^verbatim>\<open>utcp_input\<close>) that receives datagrams, finds
  the block and runs the connection's state machine, and a ticking thread (\<^verbatim>\<open>utcp_slowtimo\<close>) that
  counts the timers of all blocks down every 10 ms. All three, application, input and timers, end in
  \<^verbatim>\<open>utcp_output\<close>, which decides what to send. The congestion-control algorithm is a function
  pointer in the block.

  \<^bold>\<open>Theories and sources\<close> (paths below \<^verbatim>\<open>src/\<close>, in the order of the imports):

  \<^item> \<open>Utcp_Prelude\<close>: results (a value, or the way in which a C function fails: \<^verbatim>\<open>err_sys\<close>, an access
    outside an array, a null pointer, an undefined shift, a division by zero), the predicates
    \<open>returns\<close> (it returns and the result satisfies P) and \<open>ensures\<close> (if it returns, the result
    satisfies P), memory accesses with their bounds, word lemmas, and the locale
    \<open>transition_system\<close>.
  \<^item> \<open>Tcp\<close>: \<^verbatim>\<open>include/utcp/net/tcp.h\<close>, \<^verbatim>\<open>include/utcp/net/timers.h\<close>,
    \<^verbatim>\<open>include/utcp/config.h\<close>. Every field of \<^verbatim>\<open>struct tcb\<close> at its width.
  \<^item> \<open>Sequence\<close>: the macros of \<^verbatim>\<open>include/utcp/utcp_utils.h\<close> for sequence numbers and window scaling.
  \<^item> \<open>Ring_Buffer\<close>: \<^verbatim>\<open>ring_buf_read\<close> and \<^verbatim>\<open>ring_buf_write\<close> of \<^verbatim>\<open>utcp/utcp_utils.c\<close>; the locale
    \<open>byte_queue\<close> is their contract.
  \<^item> \<open>Utcp_World\<close>: clock, allocator, UDP socket and inference socket as parameters (record \<open>env\<close>), and
    the process-wide variables (record \<open>world\<close>).
  \<^item> \<open>Wire\<close>: header and options as bytes, both parsers of \<^verbatim>\<open>utcp/utcp_input.c\<close>.
  \<^item> \<open>Output\<close>, \<open>Sender\<close>: \<^verbatim>\<open>utcp/utcp_output.c\<close>, and the send invariant \<open>snd_inv\<close>: the send buffer holds
    the unacknowledged part of the stream, and sequence numbers are positions in it.
  \<^item> \<open>Logger\<close>: \<^verbatim>\<open>utcp/cc/logger.c\<close> and \<^verbatim>\<open>utcp/cc/lstm_client.c\<close>.
  \<^item> \<open>Printing\<close>: what the code formats as text: the row of \<^verbatim>\<open>utcp/cc/lstm_client.c\<close>, the packet and block dumps of
    \<^verbatim>\<open>utcp/utcp_utils.c\<close>, \<^verbatim>\<open>print_safe_chars\<close> of \<^verbatim>\<open>utils.c\<close>.
  \<^item> \<open>Congestion\<close>: \<^verbatim>\<open>utcp/cc/core.c\<close>, \<^verbatim>\<open>tahoe.c\<close>, \<^verbatim>\<open>reno.c\<close>, \<^verbatim>\<open>new_reno.c\<close>,
    \<^verbatim>\<open>lstm_reno.c\<close>; the locale \<open>cc_algorithm\<close> is the contract of the function pointer, interpreted for
    each algorithm and for the dispatch.
  \<^item> \<open>Timer\<close>: \<^verbatim>\<open>utcp/net/timer.c\<close>, and the composition of steps that are safe for the stream.
  \<^item> \<open>Reassembly\<close>: the queue of out-of-order segments of \<^verbatim>\<open>utcp/utcp_input.c\<close>, and the receive
    invariant \<open>rcv_inv\<close>: buffer and queue hold pieces of the peer's stream at their places.
  \<^item> \<open>Input\<close>, \<open>Receiver\<close>: the rest of \<^verbatim>\<open>utcp/utcp_input.c\<close>: acknowledgements, data, the state machine, the
    lookup, one iteration of the listening thread.
  \<^item> \<open>Api\<close>: \<^verbatim>\<open>utcp/api.c\<close> and \<^verbatim>\<open>utcp/utcp_init.c\<close>.
  \<^item> \<open>Host\<close>: one process as a labelled step relation, a step per call, per datagram and per timer round; the
    locale \<open>block_invariant\<close> lifts an invariant of blocks to all reachable hosts.
  \<^item> \<open>System\<close>: two hosts and a network that loses, repeats and reorders datagrams; its abstraction \<open>channel\<close> is a
    bounded byte queue.
  \<^item> \<open>Handshake\<close>: how two new sockets become such a pair, and what unexpected input does.
  \<^item> \<open>Timing\<close>: the timers over whole executions; the locale \<open>timing_invariant\<close> carries an invariant of timers through every
    operation, interpreted for the bounds and for the cover of data in flight.
  \<^item> \<open>Programs\<close>: the client and the server program, \<^verbatim>\<open>client.c\<close> and \<^verbatim>\<open>server.c\<close>, with \<^verbatim>\<open>init_zlog\<close> of
    \<^verbatim>\<open>logging.c\<close>, as step relations over a pair of hosts.

  \<^item> \<open>Wakeups\<close>: which steps broadcast the condition variable that the blocking calls wait on.
  \<^item> \<open>Exchange\<close>: data gets through. A turn is the delivery of a segment, the read of it and the delivery of the window update; turns take a
    connection from a write back to rest (\<open>link_settled\<close>), the client program to its end, and the file to the server.

  \<^bold>\<open>What is shown.\<close> End to end: what an application has read is always a prefix of what its peer has
  written, no byte leaves the send buffer before the peer has it, and the two ring buffers of a direction together
  are a bounded FIFO queue of bytes (\<open>transit\<close>), to which only writes append and from which only reads take. The handshake establishes the states from which this holds, from the first line of
  both programs on, and the file that the server stores is always a prefix of the one the client sends. This is not vacuous: in a working
  environment any conversation of the two sides gets through, and any file of up to a gigabyte reaches the server. No wake-up of a waiting call is lost. The layers below
  carry it: the output loop ends, sends only stream bytes at their sequence numbers, respects both
  windows, the segment size and Nagle's rule; every segment, whatever its overlap, keeps the receive
  invariant; an acknowledgement slides the window, updates it, counts as a duplicate or changes nothing, by its number; timeouts go back to the first unacknowledged byte, data in flight is always covered by
  a running timer and is sent again within 64 s, and no timer leaves its range; all four congestion-control algorithms keep
  their contract under any sequence of events; the estimator is the integer form of RFC 6298; the ring buffers are
  byte queues; header and options survive the wire, and option parsing stays inside the buffer for all
  input, as do the packet dump and the row for the inference server, which reads back as the named fields in their order; every call refuses a socket in the wrong state or is shown not to; and the state machine moves only along the
  handshake. Theorems about errors state where the code fails: the thirteenth timeout in a
  row, datagrams without a socket, a lost SYN, a lost window update, a window scale of 32 or more. Where a comment says
  one thing and the code does another, the theorem states what the code does and names the comment: the back-off of LSTM-Reno, which also
  acts in the loss state, and the prediction flag, which the last byte of a batch decides.

  \<^bold>\<open>How the model relates to the code.\<close> Every operation takes the block and the world and returns them
  updated, as one step: in the code each of these steps runs under the block's mutex. A call that
  waits on the condition variable is modelled up to the wait, with the result \<open>Blocked\<close>, and from the
  wake-up on. The linked list of the reassembly queue is a list; its cells are reached from the block only.
  Loops are recursive functions with termination proofs, and no model uses fuel: the output loop ends
  because each pass that goes on shrinks the room in the window, option parsing because it advances, the
  send loop because each pass consumes data.

  \<^bold>\<open>Bounds and hypotheses.\<close> Streams are shorter than \<open>2\<^sup>3\<^sup>1 - 1\<close> bytes in each direction: beyond that the code's
  own comparison of \<^verbatim>\<open>snd_nxt\<close> with \<^verbatim>\<open>iss\<close> no longer counts the bytes sent. The initial
  sequence number is 0, as the code sets it, and the listening thread's buffer has its 1500 bytes. Safety theorems ask of the surroundings
  only that \<^verbatim>\<open>sendto\<close> returns at least -1 (\<open>good_socket\<close>), theorems that something returns or is
  sent also that clock and allocator work (\<open>good_env\<close>). The theorems that a conversation
  or a file gets through state that such a run exists, one in which the network delivers the segments in order.

  \<^bold>\<open>Not modelled.\<close> Log messages through zlog have no effect on the protocol; of their texts those of the packet and
  block dumps are modelled. The programs' terminal output, and what they do after the transfer, are left out. Interleavings
  inside a step, before a lock is taken, are not represented. Closing a connection is not in the code.
\<close>

end
